(* ===== verification/Resolved_Prelude.thy ===== *)
theory Resolved_Prelude
  imports Main "HOL-Library.Word"
begin

text \<open>
  The vocabulary the components share: machine integers as words, Rust's \<open>Result\<close> as a sum whose
  left side is the error, the \<open>?\<close> operator as \<open>and_then\<close>, checked slice access, big-endian integers
  and ASCII case folding. Lemmas about them are collected in \<open>result_simps\<close> (error propagation),
  \<open>slice_simps\<close> (bounds of slices) and \<open>be_simps\<close> (big-endian round trips).
\<close>

unbundle bit_operations_syntax

section \<open>Types\<close>

type_synonym u8 = "8 word"
type_synonym u16 = "16 word"
type_synonym u32 = "32 word"
type_synonym u64 = "64 word"
type_synonym bytes = "u8 list"

named_theorems result_simps \<open>how results and early returns compose\<close>
named_theorems slice_simps \<open>bounds and contents of checked slices\<close>
named_theorems be_simps \<open>big-endian integers\<close>

text \<open>
  Time: an \<open>Instant\<close> is a number of nanoseconds since some fixed point, a \<open>Duration\<close> a number of
  nanoseconds. Both are unbounded, so that the checked and saturating operations on them succeed. A
  \<open>SystemTime\<close> counts nanoseconds from the Unix epoch and may lie before it.
\<close>

type_synonym instant = nat
type_synonym duration = nat
type_synonym system_time = int

definition from_secs :: "nat \<Rightarrow> duration" where
  "from_secs s = s * 1000000000"

section \<open>Results and early returns\<close>

text \<open>
  \<open>Result<T, E>\<close> is \<open>'e + 'a\<close> with \<open>Inl\<close> the error. \<open>and_then\<close> is the meaning of the \<open>?\<close> operator:
  an error leaves the function at once, a value goes on.
\<close>

definition and_then :: "'e + 'a \<Rightarrow> ('a \<Rightarrow> 'e + 'b) \<Rightarrow> 'e + 'b" where
  "and_then m f = (case m of Inl e \<Rightarrow> Inl e | Inr x \<Rightarrow> f x)"

definition ok_or :: "'a option \<Rightarrow> 'e \<Rightarrow> 'e + 'a" where
  "ok_or m e = (case m of None \<Rightarrow> Inl e | Some x \<Rightarrow> Inr x)"

definition map_err :: "('e \<Rightarrow> 'f) \<Rightarrow> 'e + 'a \<Rightarrow> 'f + 'a" where
  "map_err f m = (case m of Inl e \<Rightarrow> Inl (f e) | Inr x \<Rightarrow> Inr x)"

fun is_ok :: "'e + 'a \<Rightarrow> bool" where
  "is_ok (Inl e) = False"
| "is_ok (Inr x) = True"

text \<open>\<open>iter().map(f).collect::<Result<Vec<_>, _>>()\<close>: the first error wins.\<close>

fun map_result :: "('a \<Rightarrow> 'e + 'b) \<Rightarrow> 'a list \<Rightarrow> 'e + 'b list" where
  "map_result f [] = Inr []"
| "map_result f (x # xs) =
     and_then (f x) (\<lambda>y. and_then (map_result f xs) (\<lambda>ys. Inr (y # ys)))"

lemma and_then_Inl [simp]: "and_then (Inl e) f = Inl e"
  by (simp add: and_then_def)

lemma and_then_Inr [simp]: "and_then (Inr x) f = f x"
  by (simp add: and_then_def)

lemma and_then_eq_Inr [result_simps]:
  "and_then m f = Inr y \<longleftrightarrow> (\<exists>x. m = Inr x \<and> f x = Inr y)"
  by (cases m) auto

lemma and_then_eq_Inl [result_simps]:
  "and_then m f = Inl e \<longleftrightarrow> m = Inl e \<or> (\<exists>x. m = Inr x \<and> f x = Inl e)"
  by (cases m) auto

lemma and_then_cong [fundef_cong]:
  assumes "m = m'" and "\<And>x. m' = Inr x \<Longrightarrow> f x = g x"
  shows "and_then m f = and_then m' g"
  using assms by (cases m') auto

lemma and_then_assoc: "and_then (and_then m f) g = and_then m (\<lambda>x. and_then (f x) g)"
  by (cases m) auto

lemma ok_or_simps [simp]: "ok_or None e = Inl e" "ok_or (Some x) e = Inr x"
  by (simp_all add: ok_or_def)

lemma ok_or_eq_Inr [result_simps]: "ok_or m e = Inr x \<longleftrightarrow> m = Some x"
  by (cases m) auto

lemma ok_or_eq_Inl [result_simps]: "ok_or m e = Inl e' \<longleftrightarrow> m = None \<and> e' = e"
  by (cases m) auto

lemma map_err_simps [simp]: "map_err f (Inl e) = Inl (f e)" "map_err f (Inr x) = Inr x"
  by (simp_all add: map_err_def)

lemma map_err_eq_Inr [result_simps]: "map_err f m = Inr x \<longleftrightarrow> m = Inr x"
  by (cases m) auto

lemma if_eq_Inr [result_simps]:
  "(if b then Inl e else m) = Inr x \<longleftrightarrow> \<not> b \<and> m = Inr x"
  "(if b then m else Inl e) = Inr x \<longleftrightarrow> b \<and> m = Inr x"
  by auto

lemma map_result_length: "map_result f xs = Inr ys \<Longrightarrow> length ys = length xs"
  by (induction xs arbitrary: ys) (auto simp: result_simps)

lemma map_result_Inr_iff:
  "map_result f xs = Inr ys \<longleftrightarrow> list_all2 (\<lambda>x y. f x = Inr y) xs ys"
  by (induction xs arbitrary: ys) (auto simp: result_simps list_all2_Cons1)

section \<open>Checked access to byte slices\<close>

text \<open>
  \<open>usize\<close> is 64 bits wide on the targets the resolver ships for. Offsets are naturals, and the
  additions the code checks for overflow are checked here against the same maximum.
\<close>

definition USIZE_MAX :: nat where
  "USIZE_MAX = 18446744073709551615"

definition usize_checked_add :: "nat \<Rightarrow> nat \<Rightarrow> nat option" where
  "usize_checked_add a b = (if a + b \<le> USIZE_MAX then Some (a + b) else None)"

text \<open>\<open>slice.get(i)\<close> and \<open>slice.get(a..b)\<close>.\<close>

definition get_at :: "'a list \<Rightarrow> nat \<Rightarrow> 'a option" where
  "get_at xs i = (if i < length xs then Some (xs ! i) else None)"

definition get_range :: "'a list \<Rightarrow> nat \<Rightarrow> nat \<Rightarrow> 'a list option" where
  "get_range xs a b = (if a \<le> b \<and> b \<le> length xs then Some (take (b - a) (drop a xs)) else None)"

text \<open>\<open>slice[a..a + v.len()].copy_from_slice(v)\<close>, where the range is in bounds.\<close>

definition overwrite :: "'a list \<Rightarrow> nat \<Rightarrow> 'a list \<Rightarrow> 'a list" where
  "overwrite xs a v = take a xs @ v @ drop (a + length v) xs"

lemma usize_checked_add_eq_Some [slice_simps]:
  "usize_checked_add a b = Some c \<longleftrightarrow> c = a + b \<and> a + b \<le> USIZE_MAX"
  by (auto simp: usize_checked_add_def)

lemma get_at_eq_Some [slice_simps]: "get_at xs i = Some x \<longleftrightarrow> i < length xs \<and> xs ! i = x"
  by (simp add: get_at_def)

lemma get_at_eq_None [slice_simps]: "get_at xs i = None \<longleftrightarrow> length xs \<le> i"
  by (auto simp: get_at_def)

lemma get_range_eq_Some [slice_simps]:
  "get_range xs a b = Some ys \<longleftrightarrow> a \<le> b \<and> b \<le> length xs \<and> ys = take (b - a) (drop a xs)"
  by (auto simp: get_range_def)

lemma get_at_append_right [simp]:
  "get_at (xs @ ys) (length xs + i) = get_at ys i"
  by (simp add: get_at_def nth_append)

lemma get_at_append_right0 [simp]: "get_at (xs @ ys) (length xs) = get_at ys 0"
  using get_at_append_right [of xs ys 0] by simp

lemma get_at_Cons_0 [simp]: "get_at (x # xs) 0 = Some x"
  by (simp add: get_at_def)

lemma get_range_append_right [simp]:
  "get_range (xs @ ys) (length xs + a) (length xs + b) = get_range ys a b"
  by (auto simp: get_range_def)

lemma length_overwrite [simp]:
  "a + length v \<le> length xs \<Longrightarrow> length (overwrite xs a v) = length xs"
  by (simp add: overwrite_def)

lemma nth_overwrite:
  assumes "a + length v \<le> length xs" and "i < length xs"
  shows "overwrite xs a v ! i = (if a \<le> i \<and> i < a + length v then v ! (i - a) else xs ! i)"
  using assms by (auto simp: overwrite_def nth_append min_def)

lemma get_at_overwrite:
  assumes "a + length v \<le> length xs"
  shows "get_at (overwrite xs a v) i =
    (if a \<le> i \<and> i < a + length v then Some (v ! (i - a)) else get_at xs i)"
  using assms by (auto simp: get_at_def nth_overwrite)

section \<open>Big-endian integers\<close>

definition u16_from_be :: "u8 \<Rightarrow> u8 \<Rightarrow> u16" where
  "u16_from_be a b = of_nat (unat a * 256 + unat b)"

definition u16_to_be :: "u16 \<Rightarrow> bytes" where
  "u16_to_be w = [of_nat (unat w div 256), of_nat (unat w mod 256)]"

definition u32_from_be :: "u8 \<Rightarrow> u8 \<Rightarrow> u8 \<Rightarrow> u8 \<Rightarrow> u32" where
  "u32_from_be a b c d =
     of_nat (((unat a * 256 + unat b) * 256 + unat c) * 256 + unat d)"

definition u32_to_be :: "u32 \<Rightarrow> bytes" where
  "u32_to_be w =
     [of_nat (unat w div 16777216), of_nat (unat w div 65536 mod 256),
      of_nat (unat w div 256 mod 256), of_nat (unat w mod 256)]"

text \<open>\<open>u16::try_from(n)\<close> for a \<open>usize\<close>.\<close>

definition u16_try_from :: "nat \<Rightarrow> u16 option" where
  "u16_try_from n = (if n \<le> 65535 then Some (of_nat n) else None)"

lemma unat_u8_less [simp]: "unat (b :: u8) < 256"
  using unsigned_less [of b] by simp

lemma unat_u8_le [simp]: "unat (b :: u8) \<le> 255"
  using unat_u8_less [of b] by linarith

lemma unat_u16_less [simp]: "unat (w :: u16) < 65536"
  using unsigned_less [of w] by simp

lemma unat_u32_less [simp]: "unat (w :: u32) < 4294967296"
  using unsigned_less [of w] by simp

lemma unat_of_nat_u8: "n < 256 \<Longrightarrow> unat (of_nat n :: u8) = n"
  by (simp add: unat_of_nat)

lemma unat_of_nat_u16: "n < 65536 \<Longrightarrow> unat (of_nat n :: u16) = n"
  by (simp add: unat_of_nat)

lemma unat_of_nat_u32: "n < 4294967296 \<Longrightarrow> unat (of_nat n :: u32) = n"
  by (simp add: unat_of_nat)

lemma unat_u16_from_be [be_simps]: "unat (u16_from_be a b) = unat a * 256 + unat b"
proof -
  have "unat a * 256 + unat b < 65536"
    using unat_u8_le [of a] unat_u8_le [of b] by linarith
  then show ?thesis unfolding u16_from_be_def by (rule unat_of_nat_u16)
qed

lemma length_u16_to_be [simp]: "length (u16_to_be w) = 2"
  by (simp add: u16_to_be_def)

lemma length_u32_to_be [simp]: "length (u32_to_be w) = 4"
  by (simp add: u32_to_be_def)

lemma u16_from_to_be [be_simps]:
  "u16_from_be (of_nat (unat w div 256)) (of_nat (unat w mod 256)) = w"
proof -
  have "unat w div 256 < 256" and "unat w mod 256 < 256"
    using unat_u16_less [of w] by (simp_all add: less_mult_imp_div_less)
  then show ?thesis
    by (simp add: u16_from_be_def unat_of_nat_u8)
qed

lemma u32_from_to_be [be_simps]:
  "u32_from_be (of_nat (unat w div 16777216)) (of_nat (unat w div 65536 mod 256))
     (of_nat (unat w div 256 mod 256)) (of_nat (unat w mod 256)) = w"
proof -
  have a: "unat w div 16777216 < 256"
    using unat_u32_less [of w] by (simp add: less_mult_imp_div_less)
  have "unat w div 16777216 = unat w div 65536 div 256" and "unat w div 65536 = unat w div 256 div 256"
    by (simp_all flip: div_mult2_eq)
  then have "((unat w div 16777216 * 256 + unat w div 65536 mod 256) * 256
      + unat w div 256 mod 256) * 256 + unat w mod 256 = unat w"
    by (simp only: div_mult_mod_eq)
  with a show ?thesis
    by (simp add: u32_from_be_def unat_of_nat_u8)
qed

lemma u16_to_from_be [be_simps]: "u16_to_be (u16_from_be a b) = [a, b]"
  by (simp add: u16_to_be_def unat_u16_from_be)

lemma u16_to_be_inject [simp]: "u16_to_be v = u16_to_be w \<longleftrightarrow> v = w"
proof
  assume "u16_to_be v = u16_to_be w"
  then have "of_nat (unat v div 256) = (of_nat (unat w div 256) :: u8)"
    and "of_nat (unat v mod 256) = (of_nat (unat w mod 256) :: u8)"
    by (simp_all add: u16_to_be_def)
  then show "v = w" by (metis u16_from_to_be)
qed simp

lemma u16_try_from_eq_Some [be_simps]:
  "u16_try_from n = Some w \<longleftrightarrow> n \<le> 65535 \<and> w = of_nat n"
  by (auto simp: u16_try_from_def)

text \<open>\<open>u32::saturating_sub\<close>.\<close>

definition u32_saturating_sub :: "u32 \<Rightarrow> u32 \<Rightarrow> u32" where
  "u32_saturating_sub a b = (if b \<le> a then a - b else 0)"

lemma unat_u32_saturating_sub: "unat (u32_saturating_sub a b) = unat a - unat b"
  by (auto simp: u32_saturating_sub_def unat_sub word_le_nat_alt)

section \<open>Extrema of iterators\<close>

text \<open>\<open>Iterator::min\<close> and \<open>Iterator::max\<close>: \<open>None\<close> for an empty iterator.\<close>

definition iter_min :: "'a :: linorder list \<Rightarrow> 'a option" where
  "iter_min xs = (case xs of [] \<Rightarrow> None | y # ys \<Rightarrow> Some (foldl min y ys))"

definition iter_max :: "'a :: linorder list \<Rightarrow> 'a option" where
  "iter_max xs = (case xs of [] \<Rightarrow> None | y # ys \<Rightarrow> Some (foldl max y ys))"

lemma foldl_min_props:
  fixes y :: "'a :: linorder"
  shows "foldl min y ys \<in> set (y # ys) \<and> (\<forall>x \<in> set (y # ys). foldl min y ys \<le> x)"
proof (induction ys arbitrary: y)
  case (Cons a ys)
  have "min y a = y \<or> min y a = a" by (simp add: min_def)
  with Cons.IH [of "min y a"] show ?case by (auto simp: min.bounded_iff)
qed simp

lemma foldl_max_props:
  fixes y :: "'a :: linorder"
  shows "foldl max y ys \<in> set (y # ys) \<and> (\<forall>x \<in> set (y # ys). x \<le> foldl max y ys)"
proof (induction ys arbitrary: y)
  case (Cons a ys)
  have "max y a = y \<or> max y a = a" by (simp add: max_def)
  with Cons.IH [of "max y a"] show ?case by (auto simp: max.bounded_iff)
qed simp

lemma iter_min_eq_None [simp]: "iter_min xs = None \<longleftrightarrow> xs = []"
  by (auto simp: iter_min_def split: list.splits)

lemma iter_max_eq_None [simp]: "iter_max xs = None \<longleftrightarrow> xs = []"
  by (auto simp: iter_max_def split: list.splits)

lemma iter_min_eq_Some: "iter_min xs = Some m \<longleftrightarrow> m \<in> set xs \<and> (\<forall>x \<in> set xs. m \<le> x)"
proof (cases xs)
  case (Cons y ys)
  show ?thesis
    using foldl_min_props [of y ys] unfolding Cons by (auto simp: iter_min_def intro: order.antisym)
qed (simp add: iter_min_def)

lemma iter_max_eq_Some: "iter_max xs = Some m \<longleftrightarrow> m \<in> set xs \<and> (\<forall>x \<in> set xs. x \<le> m)"
proof (cases xs)
  case (Cons y ys)
  show ?thesis
    using foldl_max_props [of y ys] unfolding Cons by (auto simp: iter_max_def intro: order.antisym)
qed (simp add: iter_max_def)

section \<open>ASCII\<close>

text \<open>
  A Rust string is its UTF-8 bytes, and an Isabelle \<open>char\<close> is one byte, so a \<open>&str\<close> is a
  \<open>string\<close> and \<open>as_bytes\<close> only changes the type of the elements.
\<close>

definition byte_of :: "char \<Rightarrow> u8" where
  "byte_of c = of_char c"

definition char_of_byte :: "u8 \<Rightarrow> char" where
  "char_of_byte b = char_of (unat b)"

definition as_bytes :: "string \<Rightarrow> bytes" where
  "as_bytes s = map byte_of s"

definition ascii_lower :: "u8 \<Rightarrow> u8" where
  "ascii_lower b = (if 65 \<le> b \<and> b \<le> 90 then b + 32 else b)"

definition is_ascii_digit :: "u8 \<Rightarrow> bool" where
  "is_ascii_digit b \<longleftrightarrow> 48 \<le> b \<and> b \<le> 57"

lemma byte_of_char_of_byte [simp]: "byte_of (char_of_byte b) = b"
proof -
  have nat: "(of_char (char_of (unat b)) :: nat) = unat b"
    by (simp add: of_char_of)
  have "(of_char (char_of (unat b)) :: u8) = of_nat (of_char (char_of (unat b)))"
    by (rule of_nat_of_char [symmetric])
  also have "\<dots> = of_nat (unat b)" by (simp only: nat)
  also have "\<dots> = b" by simp
  finally show ?thesis by (simp add: byte_of_def char_of_byte_def)
qed

text \<open>The bits of a byte, for evaluation by \<open>simp\<close>.\<close>

lemma char_of_byte_bits:
  "char_of_byte b =
     Char (odd (unat b)) (odd (unat b div 2)) (odd (unat b div 4)) (odd (unat b div 8))
       (odd (unat b div 16)) (odd (unat b div 32)) (odd (unat b div 64)) (odd (unat b div 128))"
  by (simp add: char_of_byte_def char_of_def bit_iff_odd)

lemma char_of_byte_byte_of [simp]: "char_of_byte (byte_of c) = c"
proof -
  have "of_char c < (256 :: nat)" by simp
  then have "unat (of_char c :: u8) = of_char c"
    by (metis of_nat_of_char unat_of_nat_u8)
  then show ?thesis by (simp add: byte_of_def char_of_byte_def)
qed

lemma as_bytes_append [simp]: "as_bytes (s @ t) = as_bytes s @ as_bytes t"
  by (simp add: as_bytes_def)

lemma as_bytes_Cons [simp]: "as_bytes (c # s) = byte_of c # as_bytes s"
  by (simp add: as_bytes_def)

lemma as_bytes_Nil [simp]: "as_bytes [] = []"
  by (simp add: as_bytes_def)

lemma length_as_bytes [simp]: "length (as_bytes s) = length s"
  by (simp add: as_bytes_def)

lemma as_bytes_map_char [simp]: "as_bytes (map char_of_byte bs) = bs"
  by (simp add: as_bytes_def comp_def)

lemma as_bytes_inject [simp]: "as_bytes s = as_bytes t \<longleftrightarrow> s = t"
proof
  assume "as_bytes s = as_bytes t"
  then have "map char_of_byte (as_bytes s) = map char_of_byte (as_bytes t)" by simp
  then show "s = t" by (simp add: as_bytes_def comp_def)
qed simp

lemma ascii_lower_idem [simp]: "ascii_lower (ascii_lower b) = ascii_lower b"
proof (cases "65 \<le> b \<and> b \<le> 90")
  case True
  then have "unat (b + 32) = unat b + 32" and "65 \<le> unat b" and "unat b \<le> 90"
    by (auto simp: word_le_nat_alt unat_word_ariths)
  then have "\<not> (65 \<le> b + 32 \<and> b + 32 \<le> 90)"
    by (auto simp: word_le_nat_alt)
  with True show ?thesis by (auto simp: ascii_lower_def)
next
  case False
  then show ?thesis by (auto simp: ascii_lower_def)
qed

text \<open>Comparisons on \<open>nat\<close>, for evaluation by \<open>simp\<close>.\<close>

lemma ascii_lower_nat: "ascii_lower b = (if 65 \<le> unat b \<and> unat b \<le> 90 then b + 32 else b)"
  by (auto simp: ascii_lower_def word_le_nat_alt)

lemma unat_ascii_lower: "unat (ascii_lower b) = (if 65 \<le> unat b \<and> unat b \<le> 90 then unat b + 32 else unat b)"
  by (simp add: ascii_lower_nat unat_word_ariths)

lemma ascii_lower_small: "unat b \<le> 63 \<Longrightarrow> ascii_lower b = b"
  by (auto simp: ascii_lower_def word_le_nat_alt)

end
