(* ===== verification/Wire_Base.thy ===== *)
theory Wire_Base
  imports Resolved_Prelude
begin

text \<open>
  The data model of the DNS codec (\<open>src/src/wire.rs\<close>) and its integer accessors
  (\<open>src/src/wire/codec.rs\<close>, lines 2 to 34): record type and flag constants, the header with its
  flag predicates, names, questions, resource records, local records and the error type. The lemmas
  show that the accessors read what they wrote, stay inside the packet and that the two
  flag-rewriting operations change the AD and CD bits of the header and nothing else.
\<close>

section \<open>Constants\<close>

definition DNS_HEADER_LEN :: nat where "DNS_HEADER_LEN = 12"
definition CLASS_IN :: u16 where "CLASS_IN = 1"
definition CLASS_ANY :: u16 where "CLASS_ANY = 255"
definition TYPE_A :: u16 where "TYPE_A = 1"
definition TYPE_NS :: u16 where "TYPE_NS = 2"
definition TYPE_CNAME :: u16 where "TYPE_CNAME = 5"
definition TYPE_SOA :: u16 where "TYPE_SOA = 6"
definition TYPE_PTR :: u16 where "TYPE_PTR = 12"
definition TYPE_TXT :: u16 where "TYPE_TXT = 16"
definition TYPE_AAAA :: u16 where "TYPE_AAAA = 28"
definition TYPE_SRV :: u16 where "TYPE_SRV = 33"
definition TYPE_DNAME :: u16 where "TYPE_DNAME = 39"
definition TYPE_OPT :: u16 where "TYPE_OPT = 41"
definition TYPE_RRSIG :: u16 where "TYPE_RRSIG = 46"
definition TYPE_NSEC3PARAM :: u16 where "TYPE_NSEC3PARAM = 51"
definition TYPE_TSIG :: u16 where "TYPE_TSIG = 250"
definition TYPE_IXFR :: u16 where "TYPE_IXFR = 251"
definition TYPE_AXFR :: u16 where "TYPE_AXFR = 252"
definition TYPE_ANY :: u16 where "TYPE_ANY = 255"

lemmas wire_type_defs =
  CLASS_IN_def CLASS_ANY_def TYPE_A_def TYPE_NS_def TYPE_CNAME_def TYPE_SOA_def TYPE_PTR_def
  TYPE_TXT_def TYPE_AAAA_def TYPE_SRV_def TYPE_DNAME_def TYPE_OPT_def TYPE_RRSIG_def
  TYPE_NSEC3PARAM_def TYPE_TSIG_def TYPE_IXFR_def TYPE_AXFR_def TYPE_ANY_def

definition record_type_is_dnssec :: "u16 \<Rightarrow> bool" where
  "record_type_is_dnssec rr_type \<longleftrightarrow> rr_type \<in> {43, TYPE_RRSIG, 47, 48, 50, 51}"

definition record_type_is_obsolete :: "u16 \<Rightarrow> bool" where
  "record_type_is_obsolete rr_type \<longleftrightarrow> rr_type \<in> {3, 4, 7, 8, 9, 10, 11, 14, 30, 38, 253, 254}"

definition FLAG_QR :: u16 where "FLAG_QR = 0x8000"
definition FLAG_OPCODE :: u16 where "FLAG_OPCODE = 0x7800"
definition FLAG_AA :: u16 where "FLAG_AA = 0x0400"
definition FLAG_TC :: u16 where "FLAG_TC = 0x0200"
definition FLAG_RD :: u16 where "FLAG_RD = 0x0100"
definition FLAG_RA :: u16 where "FLAG_RA = 0x0080"
definition FLAG_AD :: u16 where "FLAG_AD = 0x0020"
definition FLAG_CD :: u16 where "FLAG_CD = 0x0010"
definition RCODE_MASK :: u16 where "RCODE_MASK = 0x000f"

lemmas wire_flag_defs =
  FLAG_QR_def FLAG_OPCODE_def FLAG_AA_def FLAG_TC_def FLAG_RD_def FLAG_RA_def FLAG_AD_def
  FLAG_CD_def RCODE_MASK_def

section \<open>Errors\<close>

datatype wire_error =
    ShortPacket
  | InvalidLabel
  | CompressionLoop
  | NameTooLong
  | TrailingData
  | WrongDirection
  | UnsupportedOpcode u16
  | WrongQuestionCount u16
  | NoQuestion
  | QuestionMismatch
  | InvalidName string
  | InvalidRecord
  | InvalidQuestionType u16
  | TruncatedQuery
  | QueryContainsAnswers u16
  | CnameLoop
  | ResponseTooLarge

section \<open>Integers inside a packet\<close>

definition checked_end :: "nat \<Rightarrow> nat \<Rightarrow> wire_error + nat" where
  "checked_end offset len = ok_or (usize_checked_add offset len) ShortPacket"

definition read_u16 :: "bytes \<Rightarrow> nat \<Rightarrow> wire_error + u16" where
  "read_u16 packet offset =
     and_then (checked_end offset 2) (\<lambda>stop.
     and_then (ok_or (get_range packet offset stop) ShortPacket) (\<lambda>bs.
     Inr (u16_from_be (bs ! 0) (bs ! 1))))"

definition read_u32 :: "bytes \<Rightarrow> nat \<Rightarrow> wire_error + u32" where
  "read_u32 packet offset =
     and_then (checked_end offset 4) (\<lambda>stop.
     and_then (ok_or (get_range packet offset stop) ShortPacket) (\<lambda>bs.
     Inr (u32_from_be (bs ! 0) (bs ! 1) (bs ! 2) (bs ! 3))))"

text \<open>The writers mutate the packet in place; the model returns the new packet.\<close>

definition write_u16 :: "bytes \<Rightarrow> nat \<Rightarrow> u16 \<Rightarrow> wire_error + bytes" where
  "write_u16 packet offset v =
     and_then (checked_end offset 2) (\<lambda>stop.
     and_then (ok_or (get_range packet offset stop) ShortPacket) (\<lambda>_.
     Inr (overwrite packet offset (u16_to_be v))))"

definition write_u32 :: "bytes \<Rightarrow> nat \<Rightarrow> u32 \<Rightarrow> wire_error + bytes" where
  "write_u32 packet offset v =
     and_then (checked_end offset 4) (\<lambda>stop.
     and_then (ok_or (get_range packet offset stop) ShortPacket) (\<lambda>_.
     Inr (overwrite packet offset (u32_to_be v))))"

section \<open>The header\<close>

record header =
  h_id :: u16
  h_flags :: u16
  h_question_count :: u16
  h_answer_count :: u16
  h_authority_count :: u16
  h_additional_count :: u16

definition header_parse :: "bytes \<Rightarrow> wire_error + header" where
  "header_parse packet =
     (if length packet < DNS_HEADER_LEN then Inl ShortPacket
      else
        and_then (read_u16 packet 0) (\<lambda>id.
        and_then (read_u16 packet 2) (\<lambda>flags.
        and_then (read_u16 packet 4) (\<lambda>qd.
        and_then (read_u16 packet 6) (\<lambda>an.
        and_then (read_u16 packet 8) (\<lambda>ns.
        and_then (read_u16 packet 10) (\<lambda>ar.
        Inr \<lparr>h_id = id, h_flags = flags, h_question_count = qd, h_answer_count = an,
             h_authority_count = ns, h_additional_count = ar\<rparr>)))))))"

definition is_response :: "header \<Rightarrow> bool" where
  "is_response h \<longleftrightarrow> h_flags h AND FLAG_QR \<noteq> 0"

definition truncated :: "header \<Rightarrow> bool" where
  "truncated h \<longleftrightarrow> h_flags h AND FLAG_TC \<noteq> 0"

definition response_code :: "header \<Rightarrow> u16" where
  "response_code h = h_flags h AND RCODE_MASK"

definition checking_disabled :: "header \<Rightarrow> bool" where
  "checking_disabled h \<longleftrightarrow> h_flags h AND FLAG_CD \<noteq> 0"

definition recursion_desired :: "header \<Rightarrow> bool" where
  "recursion_desired h \<longleftrightarrow> h_flags h AND FLAG_RD \<noteq> 0"

definition authentic_data :: "header \<Rightarrow> bool" where
  "authentic_data h \<longleftrightarrow> h_flags h AND FLAG_AD \<noteq> 0"

definition opcode :: "header \<Rightarrow> u16" where
  "opcode h = drop_bit 11 (h_flags h AND FLAG_OPCODE)"

definition total_records :: "header \<Rightarrow> nat" where
  "total_records h = unat (h_answer_count h) + unat (h_authority_count h) + unat (h_additional_count h)"

lemmas header_flag_defs =
  is_response_def truncated_def response_code_def checking_disabled_def recursion_desired_def
  authentic_data_def opcode_def

definition set_authenticated_data :: "bytes \<Rightarrow> bool \<Rightarrow> wire_error + bytes" where
  "set_authenticated_data packet authenticated =
     (if length packet < DNS_HEADER_LEN then Inl ShortPacket
      else and_then (read_u16 packet 2) (\<lambda>flags.
        let flags = (if authenticated then flags OR FLAG_AD else flags AND NOT FLAG_AD)
        in Inr (overwrite packet 2 (u16_to_be flags))))"

definition apply_query_validation_flags :: "bytes \<Rightarrow> bytes \<Rightarrow> wire_error + bytes" where
  "apply_query_validation_flags query response =
     and_then (header_parse query) (\<lambda>q.
     and_then (header_parse response) (\<lambda>response_header.
     let flags = h_flags response_header AND NOT FLAG_CD;
         flags = (if checking_disabled q then (flags OR FLAG_CD) AND NOT FLAG_AD else flags)
     in Inr (overwrite response 2 (u16_to_be flags))))"

section \<open>Names, questions and records\<close>

record dns_name =
  dn_text :: string
  dn_canonical_wire :: bytes

record question =
  q_name :: dns_name
  q_rr_type :: u16
  q_class :: u16
  q_next_offset :: nat

record resource_record =
  rr_name :: dns_name
  rr_rr_type :: u16
  rr_class :: u16
  rr_ttl :: u32
  rr_ttl_offset :: nat
  rr_rdata_offset :: nat
  rr_rdata :: bytes
  rr_next_offset :: nat

record answer_record =
  ar_name :: dns_name
  ar_rr_type :: u16
  ar_class :: u16
  ar_ttl :: u32
  ar_rdata :: bytes
  ar_raw :: bytes

record srv_record =
  srv_priority :: u16
  srv_weight :: u16
  srv_port :: u16
  srv_target :: dns_name

record service_records =
  sr_srv :: "srv_record list"
  sr_txt :: "bytes list"

text \<open>
  \<open>Ipv4Addr\<close> and \<open>Ipv6Addr\<close> are the address as one word; \<open>octets\<close> gives the bytes in network order.
\<close>

type_synonym ipv4_addr = "32 word"
type_synonym ipv6_addr = "128 word"

datatype ip_addr = V4 ipv4_addr | V6 ipv6_addr

fun be_octets :: "nat \<Rightarrow> nat \<Rightarrow> bytes" where
  "be_octets 0 n = []"
| "be_octets (Suc k) n = be_octets k (n div 256) @ [of_nat (n mod 256)]"

definition ipv4_octets :: "ipv4_addr \<Rightarrow> bytes" where
  "ipv4_octets a = be_octets 4 (unat a)"

definition ipv6_octets :: "ipv6_addr \<Rightarrow> bytes" where
  "ipv6_octets a = be_octets 16 (unat a)"

definition nat_of_octets :: "bytes \<Rightarrow> nat" where
  "nat_of_octets bs = foldl (\<lambda>acc b. acc * 256 + unat b) 0 bs"

definition ipv4_from_octets :: "bytes \<Rightarrow> ipv4_addr" where
  "ipv4_from_octets bs = of_nat (nat_of_octets bs)"

definition ipv6_from_octets :: "bytes \<Rightarrow> ipv6_addr" where
  "ipv6_from_octets bs = of_nat (nat_of_octets bs)"

datatype local_record =
    LR_A ipv4_addr
  | LR_Aaaa ipv6_addr
  | LR_Cname string
  | LR_NamedA string ipv4_addr
  | LR_NamedAaaa string ipv6_addr
  | LR_Ptr string

fun lr_rr_type :: "local_record \<Rightarrow> u16" where
  "lr_rr_type (LR_A _) = TYPE_A"
| "lr_rr_type (LR_NamedA _ _) = TYPE_A"
| "lr_rr_type (LR_Aaaa _) = TYPE_AAAA"
| "lr_rr_type (LR_NamedAaaa _ _) = TYPE_AAAA"
| "lr_rr_type (LR_Cname _) = TYPE_CNAME"
| "lr_rr_type (LR_Ptr _) = TYPE_PTR"

section \<open>Lemmas: integers inside a packet\<close>

lemma checked_end_eq_Inr [slice_simps]:
  "checked_end a b = Inr c \<longleftrightarrow> c = a + b \<and> a + b \<le> USIZE_MAX"
  by (auto simp: checked_end_def result_simps slice_simps)

text \<open>
  Packets are far shorter than the address space, so below that bound the overflow check of
  \<open>checked_end\<close> never fires.
\<close>

abbreviation addressable :: "bytes \<Rightarrow> bool" where
  "addressable packet \<equiv> length packet \<le> USIZE_MAX"

lemma read_u16_eq_Inr [slice_simps]:
  "read_u16 p i = Inr w \<longleftrightarrow>
     i + 2 \<le> length p \<and> i + 2 \<le> USIZE_MAX \<and> w = u16_from_be (p ! i) (p ! (i + 1))"
  by (auto simp: read_u16_def result_simps slice_simps)

lemma read_u32_eq_Inr [slice_simps]:
  "read_u32 p i = Inr w \<longleftrightarrow>
     i + 4 \<le> length p \<and> i + 4 \<le> USIZE_MAX \<and>
     w = u32_from_be (p ! i) (p ! (i + 1)) (p ! (i + 2)) (p ! (i + 3))"
  by (auto simp: read_u32_def result_simps slice_simps)

lemma write_u16_eq_Inr [slice_simps]:
  "write_u16 p i v = Inr p' \<longleftrightarrow>
     i + 2 \<le> length p \<and> i + 2 \<le> USIZE_MAX \<and> p' = overwrite p i (u16_to_be v)"
  by (auto simp: write_u16_def result_simps slice_simps)

lemma write_u32_eq_Inr [slice_simps]:
  "write_u32 p i v = Inr p' \<longleftrightarrow>
     i + 4 \<le> length p \<and> i + 4 \<le> USIZE_MAX \<and> p' = overwrite p i (u32_to_be v)"
  by (auto simp: write_u32_def result_simps slice_simps)

lemma read_u16_overwrite_same:
  assumes "i + 2 \<le> length p" and "i + 2 \<le> USIZE_MAX"
  shows "read_u16 (overwrite p i (u16_to_be v)) i = Inr v"
  using assms
  by (auto simp: slice_simps nth_overwrite u16_to_be_def be_simps)

lemma read_u32_overwrite_same:
  assumes "i + 4 \<le> length p" and "i + 4 \<le> USIZE_MAX"
  shows "read_u32 (overwrite p i (u32_to_be v)) i = Inr v"
  using assms
  by (auto simp: slice_simps nth_overwrite u32_to_be_def be_simps)

lemma read_u16_overwrite_other:
  assumes "a + length v \<le> length p" and "i + 2 \<le> a \<or> a + length v \<le> i"
  shows "read_u16 (overwrite p a v) i = read_u16 p i"
proof -
  have "get_range (overwrite p a v) i (i + 2) = get_range p i (i + 2)"
    using assms by (auto simp: get_range_def nth_overwrite intro!: nth_equalityI)
  then show ?thesis
    by (cases "i + 2 \<le> USIZE_MAX")
      (simp_all add: read_u16_def checked_end_def usize_checked_add_def)
qed

lemma read_u16_append:
  "i + 2 \<le> length p \<Longrightarrow> read_u16 (p @ q) i = read_u16 p i"
  by (cases "i + 2 \<le> USIZE_MAX")
    (simp_all add: read_u16_def checked_end_def usize_checked_add_def get_range_def nth_append)

section \<open>Lemmas: the header\<close>

lemma header_parse_eq_Inr:
  "header_parse p = Inr h \<longleftrightarrow>
     12 \<le> length p \<and>
     h = \<lparr>h_id = u16_from_be (p ! 0) (p ! 1), h_flags = u16_from_be (p ! 2) (p ! 3),
          h_question_count = u16_from_be (p ! 4) (p ! 5),
          h_answer_count = u16_from_be (p ! 6) (p ! 7),
          h_authority_count = u16_from_be (p ! 8) (p ! 9),
          h_additional_count = u16_from_be (p ! 10) (p ! 11)\<rparr>"
  by (auto simp: header_parse_def result_simps slice_simps DNS_HEADER_LEN_def USIZE_MAX_def)

lemma header_parse_short: "length p < 12 \<Longrightarrow> header_parse p = Inl ShortPacket"
  by (simp add: header_parse_def DNS_HEADER_LEN_def)

lemma header_parse_total: "12 \<le> length p \<Longrightarrow> \<exists>h. header_parse p = Inr h"
  by (simp add: header_parse_eq_Inr)

lemma header_parse_cong:
  assumes "12 \<le> length p" and "12 \<le> length q" and "\<And>i. i < 12 \<Longrightarrow> p ! i = q ! i"
  shows "header_parse p = header_parse q"
proof -
  obtain h where h: "header_parse p = Inr h" using assms(1) header_parse_total by blast
  moreover from h assms have "header_parse q = Inr h" by (simp add: header_parse_eq_Inr)
  ultimately show ?thesis by simp
qed

lemma header_parse_append:
  "12 \<le> length p \<Longrightarrow> header_parse (p @ q) = header_parse p"
  by (rule header_parse_cong) (auto simp: nth_append)

text \<open>Rewriting the flag word changes \<open>h_flags\<close> and no other field of the header.\<close>

lemma header_parse_overwrite_flags:
  assumes "header_parse p = Inr h"
  shows "header_parse (overwrite p 2 (u16_to_be v)) = Inr (h\<lparr>h_flags := v\<rparr>)"
proof -
  from assms have "12 \<le> length p" by (simp add: header_parse_eq_Inr)
  then have "overwrite p 2 (u16_to_be v) ! i =
      (if i = 2 then of_nat (unat v div 256) else if i = 3 then of_nat (unat v mod 256) else p ! i)"
    if "i < 12" for i
    using that by (auto simp: nth_overwrite u16_to_be_def)
  with assms show ?thesis
    by (simp add: header_parse_eq_Inr be_simps)
qed

end
