(* ===== verification/Wire_Name.thy ===== *)
theory Wire_Name
  imports Wire_Base
begin

text \<open>
  Domain names (\<open>src/src/wire/codec.rs\<close>, lines 36 to 229): escaping and decoding of the presentation
  format, and the wire format with its compression pointers. \<open>expands\<close> is the declarative reading of
  RFC 1035 name expansion; the lemmas show that \<open>read_name\<close> computes exactly that expansion within
  the code's limits (128 pointers, 255 octets), that it never reads outside the packet, and that
  \<open>encode_name\<close> and \<open>read_name\<close> are inverse to each other up to ASCII case.
\<close>

section \<open>Presentation format\<close>

definition is_plain_byte :: "u8 \<Rightarrow> bool" where
  "is_plain_byte b \<longleftrightarrow>
     65 \<le> b \<and> b \<le> 90 \<or> 97 \<le> b \<and> b \<le> 122 \<or> 48 \<le> b \<and> b \<le> 57 \<or> b = 45 \<or> b = 95"

definition digit_char :: "nat \<Rightarrow> char" where
  "digit_char d = char_of_byte (of_nat (48 + d))"

text \<open>One step of the loop of \<open>escape_label\<close>: the byte itself, or \<open>\DDD\<close> in decimal.\<close>

definition escape_byte :: "u8 \<Rightarrow> string" where
  "escape_byte b =
     (if is_plain_byte b then [char_of_byte b]
      else [CHR 0x5C, digit_char (unat b div 100), digit_char (unat b div 10 mod 10),
            digit_char (unat b mod 10)])"

definition escape_label :: "bytes \<Rightarrow> wire_error + string" where
  "escape_label lab =
     (if lab = [] \<or> 63 < length lab then Inl InvalidLabel
      else Inr (concat (map escape_byte lab)))"

text \<open>
  The loop of \<open>decode_presentation_name\<close>. The list argument is the input from the current offset
  on, so \<open>offset + 1 == bytes.len()\<close> is \<open>rest = []\<close>; \<open>push_label_byte\<close> is the length check at the
  end of the loop body.
\<close>

definition push_label_byte :: "(bytes \<Rightarrow> wire_error + bytes list) \<Rightarrow> string \<Rightarrow> bytes \<Rightarrow> wire_error + bytes list" where
  "push_label_byte continue name lab =
     (if 63 < length lab then Inl (InvalidName name) else continue lab)"

lemma push_label_byte_cong [fundef_cong]:
  assumes "lab = lab'" and "name = name'" and "c lab' = c' lab'"
  shows "push_label_byte c name lab = push_label_byte c' name' lab'"
  using assms by (simp add: push_label_byte_def)

fun decode_name_loop :: "string \<Rightarrow> bytes \<Rightarrow> bytes list \<Rightarrow> bytes \<Rightarrow> wire_error + bytes list" where
  "decode_name_loop name [] labels lab =
     (if lab = [] then Inl (InvalidName name) else Inr (labels @ [lab]))"
| "decode_name_loop name (b # rest) labels lab =
     (if b = 46 then
        if lab = [] then
          if rest = [] \<and> labels = [] then Inr [] else Inl (InvalidName name)
        else if rest = [] then Inr (labels @ [lab])
        else decode_name_loop name rest (labels @ [lab]) []
      else if b = 92 then
        (case rest of
           [] \<Rightarrow> Inl (InvalidName name)
         | escaped # rest' \<Rightarrow>
             if escaped = 92 \<or> escaped = 46 then
               push_label_byte (decode_name_loop name rest' labels) name (lab @ [escaped])
             else if is_ascii_digit escaped then
               (case rest' of
                  d2 # d3 # rest'' \<Rightarrow>
                    if is_ascii_digit d2 \<and> is_ascii_digit d3 then
                      let v = unat (escaped - 48) * 100 + unat (d2 - 48) * 10 + unat (d3 - 48)
                      in if v \<le> 255
                         then push_label_byte (decode_name_loop name rest'' labels) name
                                (lab @ [of_nat v])
                         else Inl (InvalidName name)
                    else Inl (InvalidName name)
                | _ \<Rightarrow> Inl (InvalidName name))
             else Inl (InvalidName name))
      else if b < 32 \<or> b = 127 then Inl (InvalidName name)
      else push_label_byte (decode_name_loop name rest labels) name (lab @ [b]))"

declare decode_name_loop.simps(2) [simp del]

definition decode_presentation_name :: "string \<Rightarrow> wire_error + bytes list" where
  "decode_presentation_name name = decode_name_loop name (as_bytes name) [] []"

definition decode_label :: "string \<Rightarrow> wire_error + bytes" where
  "decode_label lab =
     and_then (decode_presentation_name lab) (\<lambda>labels.
     case labels of [l] \<Rightarrow> Inr l | _ \<Rightarrow> Inl InvalidLabel)"

section \<open>Wire format\<close>

text \<open>
  The loop of \<open>read_name\<close>, with its seven local variables. It ends because every turn of the loop
  that does not return either counts a pointer (at most 128) or grows the expanded name (at most
  255 octets).
\<close>

function read_name_loop ::
  "bytes \<Rightarrow> nat \<Rightarrow> nat \<Rightarrow> bool \<Rightarrow> nat \<Rightarrow> nat \<Rightarrow> string list \<Rightarrow> bytes \<Rightarrow>
     wire_error + (string list \<times> bytes \<times> nat)" where
  "read_name_loop packet cursor next_offset jumped pointer_steps expanded_length labels canonical_wire =
     and_then (ok_or (get_at packet cursor) ShortPacket) (\<lambda>len.
     if len = 0 then
       Inr (labels, canonical_wire @ [0], if jumped then next_offset else cursor + 1)
     else if len AND 0xc0 = 0xc0 then
       and_then (ok_or (get_at packet (cursor + 1)) ShortPacket) (\<lambda>second.
       let pointer = push_bit 8 (unat (len AND 0x3f)) OR unat second
       in if pointer \<ge> cursor \<or> pointer \<ge> length packet then Inl CompressionLoop
          else if pointer_steps + 1 > 128 then Inl CompressionLoop
          else read_name_loop packet pointer (if jumped then next_offset else cursor + 2) True
                 (pointer_steps + 1) expanded_length labels canonical_wire)
     else if len AND 0xc0 \<noteq> 0 \<or> len > 63 then Inl InvalidLabel
     else
       and_then (checked_end (cursor + 1) (unat len)) (\<lambda>stop.
       and_then (ok_or (get_range packet (cursor + 1) stop) ShortPacket) (\<lambda>lab.
       and_then (ok_or (usize_checked_add expanded_length (unat len + 1)) NameTooLong) (\<lambda>expanded.
       if expanded > 255 then Inl NameTooLong
       else
         and_then (escape_label lab) (\<lambda>escaped.
         read_name_loop packet stop (if jumped then next_offset else stop) jumped pointer_steps
           expanded (labels @ [escaped]) (canonical_wire @ [len] @ map ascii_lower lab))))))"
  by pat_completeness auto

termination
  by (relation "measure (\<lambda>(p, c, n, j, s, e, l, w). (129 - s) + (256 - e))")
    (auto simp: slice_simps result_simps)

declare read_name_loop.simps [simp del]

fun join_labels :: "string list \<Rightarrow> string" where
  "join_labels [] = []"
| "join_labels [l] = l"
| "join_labels (l # ls) = l @ ''.'' @ join_labels ls"

definition read_name :: "bytes \<Rightarrow> nat \<Rightarrow> wire_error + (dns_name \<times> nat)" where
  "read_name packet offset =
     (if offset \<ge> length packet then Inl ShortPacket
      else
        and_then (read_name_loop packet offset offset False 0 1 [] []) (\<lambda>(labels, canonical_wire, next_offset).
        let txt = (if labels = [] then ''.'' else join_labels labels)
        in Inr (\<lparr>dn_text = txt, dn_canonical_wire = canonical_wire\<rparr>, next_offset)))"

fun encode_labels :: "bytes list \<Rightarrow> wire_error + bytes" where
  "encode_labels [] = Inr []"
| "encode_labels (lab # labels) =
     (if length lab \<le> 255
      then and_then (encode_labels labels) (\<lambda>out. Inr (of_nat (length lab) # lab @ out))
      else Inl NameTooLong)"

definition encode_name :: "string \<Rightarrow> wire_error + bytes" where
  "encode_name name =
     (if name = [] then Inl (InvalidName name)
      else
        and_then (decode_presentation_name name) (\<lambda>labels.
        if labels = [] then Inr [0]
        else
          and_then (encode_labels labels) (\<lambda>out.
          let out = out @ [0]
          in if length out > 255 then Inl NameTooLong else Inr out)))"

definition canonical_name_wire :: "string \<Rightarrow> wire_error + bytes" where
  "canonical_name_wire name =
     and_then (encode_name name) (\<lambda>encoded.
     and_then (read_name encoded 0) (\<lambda>(n, _). Inr (dn_canonical_wire n)))"

section \<open>The abstract name: a list of labels\<close>

definition valid_label :: "bytes \<Rightarrow> bool" where
  "valid_label l \<longleftrightarrow> l \<noteq> [] \<and> length l \<le> 63"

definition label_wire :: "bytes \<Rightarrow> bytes" where
  "label_wire l = of_nat (length l) # l"

definition wire_of_labels :: "bytes list \<Rightarrow> bytes" where
  "wire_of_labels ls = concat (map label_wire ls) @ [0]"

definition canonical_of_labels :: "bytes list \<Rightarrow> bytes" where
  "canonical_of_labels ls = wire_of_labels (map (map ascii_lower) ls)"

definition escape_text :: "bytes \<Rightarrow> string" where
  "escape_text l = concat (map escape_byte l)"

definition name_of_labels :: "bytes list \<Rightarrow> dns_name" where
  "name_of_labels ls =
     \<lparr>dn_text = (if ls = [] then ''.'' else join_labels (map escape_text ls)),
      dn_canonical_wire = canonical_of_labels ls\<rparr>"

definition valid_labels :: "bytes list \<Rightarrow> bool" where
  "valid_labels ls \<longleftrightarrow> list_all valid_label ls \<and> length (wire_of_labels ls) \<le> 255"

text \<open>
  \<open>expands p c k ls n\<close>: at offset \<open>c\<close> of packet \<open>p\<close> stands a name whose labels are \<open>ls\<close>, found by
  following \<open>k\<close> compression pointers, each to an earlier octet; the field that holds the name ends
  before offset \<open>n\<close>.
\<close>

inductive expands :: "bytes \<Rightarrow> nat \<Rightarrow> nat \<Rightarrow> bytes list \<Rightarrow> nat \<Rightarrow> bool" where
  expands_root: "c < length p \<Longrightarrow> p ! c = 0 \<Longrightarrow> expands p c 0 [] (Suc c)"
| expands_label:
    "c < length p \<Longrightarrow> 0 < unat (p ! c) \<Longrightarrow> unat (p ! c) \<le> 63 \<Longrightarrow>
     Suc (c + unat (p ! c)) \<le> length p \<Longrightarrow>
     l = take (unat (p ! c)) (drop (Suc c) p) \<Longrightarrow>
     expands p (Suc (c + unat (p ! c))) k ls n \<Longrightarrow> expands p c k (l # ls) n"
| expands_pointer:
    "Suc c < length p \<Longrightarrow> p ! c AND 0xc0 = 0xc0 \<Longrightarrow>
     ptr = push_bit 8 (unat (p ! c AND 0x3f)) OR unat (p ! Suc c) \<Longrightarrow> ptr < c \<Longrightarrow>
     expands p ptr k ls n \<Longrightarrow> expands p c (Suc k) ls (Suc (Suc c))"

text \<open>What one run of the loop returns, in terms of the expansion still ahead of it.\<close>

definition loop_result :: "bytes \<Rightarrow> nat \<Rightarrow> nat \<Rightarrow> bool \<Rightarrow> nat \<Rightarrow> nat \<Rightarrow> string list \<Rightarrow> bytes \<Rightarrow>
    string list \<times> bytes \<times> nat \<Rightarrow> bool" where
 "loop_result p c nx j s e labs cw r \<longleftrightarrow> (\<exists>k ls n. expands p c k ls n \<and> s + k \<le> 128 \<and>
     e + length (wire_of_labels ls) \<le> 256 \<and>
     r = (labs @ map escape_text ls, cw @ canonical_of_labels ls, if j then nx else n))"

inductive_cases expands_cases: "expands p c k ls n"

section \<open>Lemmas: expansion of names\<close>

lemma label_octet_bits: "unat (b :: u8) \<le> 63 \<Longrightarrow> b AND 0xc0 = 0"
proof -
  assume "unat b \<le> 63"
  moreover have "\<forall>n \<in> set [0..<64]. (of_nat n :: u8) AND 0xc0 = 0" by code_simp
  ultimately have "(of_nat (unat b) :: u8) AND 0xc0 = 0"
    by (simp only: set_upt atLeast0LessThan lessThan_iff Ball_def)
  then show ?thesis by simp
qed

lemma label_octet_iff:
  "(b :: u8) \<noteq> 0 \<and> b AND 0xc0 \<noteq> 0xc0 \<and> \<not> (b AND 0xc0 \<noteq> 0 \<or> b > 63) \<longleftrightarrow> 0 < unat b \<and> unat b \<le> 63"
proof -
  have "b > 63 \<longleftrightarrow> \<not> unat b \<le> 63" by (simp add: word_less_nat_alt not_le)
  moreover have "b \<noteq> 0 \<longleftrightarrow> 0 < unat b" by (simp add: unat_gt_0)
  ultimately show ?thesis using label_octet_bits [of b] by auto
qed

lemma loop_resultI:
  assumes "expands p c k ls n" and "s + k \<le> 128" and "e + length (wire_of_labels ls) \<le> 256"
    and "r = (labs @ map escape_text ls, cw @ canonical_of_labels ls, if j then nx else n)"
  shows "loop_result p c nx j s e labs cw r"
  using assms unfolding loop_result_def by blast

lemma canonical_of_labels_simps [simp]:
  "canonical_of_labels [] = [0]"
  "canonical_of_labels (l # ls) = of_nat (length l) # map ascii_lower l @ canonical_of_labels ls"
  by (simp_all add: canonical_of_labels_def wire_of_labels_def label_wire_def)

lemma wire_of_labels_simps [simp]:
  "wire_of_labels [] = [0]"
  "wire_of_labels (l # ls) = of_nat (length l) # l @ wire_of_labels ls"
  by (simp_all add: wire_of_labels_def label_wire_def)

lemma pointer_octet: "(b::u8) AND 0xc0 = 0xc0 \<Longrightarrow> b \<noteq> 0 \<and> \<not> unat b \<le> 63"
  using label_octet_bits [of b] by auto

lemma read_name_loop_sound:
  assumes "read_name_loop p c nx j s e labs cw = Inr r" and "e \<le> 255" and "s \<le> 128"
  shows "loop_result p c nx j s e labs cw r"
  using assms
proof (induction p c nx j s e labs cw rule: read_name_loop.induct)
  case (1 p c nx j s e labs cw)
  from "1.prems"(1) obtain b where b: "get_at p c = Some b"
    by (auto simp: read_name_loop.simps [of p c] result_simps)
  then have c: "c < length p" "p ! c = b" by (auto simp: slice_simps)
  consider (root) "b = 0" | (pointer) "b \<noteq> 0" "b AND 0xc0 = 0xc0"
    | (bad) "b \<noteq> 0" "b AND 0xc0 \<noteq> 0xc0" "b AND 0xc0 \<noteq> 0 \<or> b > 63"
    | (label) "b \<noteq> 0" "b AND 0xc0 \<noteq> 0xc0" "\<not> (b AND 0xc0 \<noteq> 0 \<or> b > 63)" by blast
  then show ?case
  proof cases
    case root
    with b "1.prems" have "r = (labs, cw @ [0], if j then nx else c + 1)"
      by (simp add: read_name_loop.simps [of p c])
    moreover have "expands p c 0 [] (c + 1)" using c root by (auto intro: expands_root)
    ultimately show ?thesis using "1.prems"(2,3) by (fastforce simp: loop_result_def)
  next
    case pointer
    let ?ptr = "\<lambda>x. push_bit 8 (unat (b AND 0x3f)) OR unat x"
    from pointer b "1.prems"(1) obtain x where x: "get_at p (c + 1) = Some x" "?ptr x < c"
        "s + 1 \<le> 128"
      and rec: "read_name_loop p (?ptr x) (if j then nx else c + 2) True (s + 1) e labs cw = Inr r"
      by (auto simp: read_name_loop.simps [of p c] result_simps Let_def not_le split: if_splits)
    have "loop_result p (?ptr x) (if j then nx else c + 2) True (s + 1) e labs cw r"
      using "1.IH"(1) [OF _ _ _ _ refl _ _ rec] b x pointer c "1.prems"(2) by (auto simp: result_simps)
    then obtain k ls n where *: "expands p (?ptr x) k ls n" "s + 1 + k \<le> 128"
      "e + length (wire_of_labels ls) \<le> 256"
      "r = (labs @ map escape_text ls, cw @ canonical_of_labels ls, if j then nx else c + 2)"
      unfolding loop_result_def by auto
    have "expands p c (Suc k) ls (Suc (Suc c))"
      using * x c pointer by (auto intro!: expands_pointer simp: slice_simps)
    with * show ?thesis by (intro loop_resultI) auto
  next
    case bad
    with b "1.prems"(1) show ?thesis by (auto simp: read_name_loop.simps [of p c])
  next
    case label
    then have ub: "0 < unat b" "unat b \<le> 63" using label_octet_iff by blast+
    let ?stop = "c + 1 + unat b" and ?l = "take (unat b) (drop (c + 1) p)"
    from label b "1.prems"(1) have stop: "?stop \<le> length p" "checked_end (c + 1) (unat b) = Inr ?stop"
      and e: "usize_checked_add e (unat b + 1) = Some (e + unat b + 1)" "e + unat b + 1 \<le> 255"
      and rec: "read_name_loop p ?stop (if j then nx else ?stop) j s (e + unat b + 1)
        (labs @ [escape_text ?l]) (cw @ [b] @ map ascii_lower ?l) = Inr r"
      by (auto simp: read_name_loop.simps [of p c] result_simps slice_simps escape_label_def
          escape_text_def not_less split: if_splits)
    have l: "length ?l = unat b" using stop by simp
    have "loop_result p ?stop (if j then nx else ?stop) j s (e + unat b + 1)
        (labs @ [escape_text ?l]) (cw @ [b] @ map ascii_lower ?l) r"
      using rec "1.prems"(3) e
      by (intro "1.IH"(2) [where xd = "escape_text ?l" and xb = ?l and x = b])
       (use b label stop l ub in \<open>auto simp: result_simps slice_simps escape_label_def escape_text_def\<close>)
    then obtain k ls n where *: "expands p ?stop k ls n" "s + k \<le> 128"
      "e + unat b + 1 + length (wire_of_labels ls) \<le> 256"
      "r = ((labs @ [escape_text ?l]) @ map escape_text ls,
            (cw @ [b] @ map ascii_lower ?l) @ canonical_of_labels ls,
            if j then if j then nx else ?stop else n)"
      unfolding loop_result_def by blast
    have "expands p c k (?l # ls) n"
      using * c ub stop by (auto intro: expands_label)
    moreover have "of_nat (unat b) = b" by simp
    ultimately show ?thesis using * l by (intro loop_resultI) auto
  qed
qed

lemma expands_bounds: "expands p c k ls n \<Longrightarrow> c < n \<and> n \<le> length p"
  by (induction rule: expands.induct) auto

lemma expands_valid: "expands p c k ls n \<Longrightarrow> list_all valid_label ls"
  by (induction rule: expands.induct) (auto simp: valid_label_def)

lemma wire_of_labels_pos: "0 < length (wire_of_labels ls)"
  by (cases ls) auto

lemma read_name_loop_complete:
  assumes "expands p c k ls n" and "addressable p" and "s + k \<le> 128"
    and "e + length (wire_of_labels ls) \<le> 256"
  shows "read_name_loop p c nx j s e labs cw =
    Inr (labs @ map escape_text ls, cw @ canonical_of_labels ls, if j then nx else n)"
  using assms
proof (induction arbitrary: nx j s e labs cw rule: expands.induct)
  case (expands_root c p)
  then show ?case by (simp add: read_name_loop.simps [of p c] get_at_def)
next
  case (expands_label c p l k ls n)
  let ?b = "p ! c"
  have lab: "?b \<noteq> 0 \<and> ?b AND 0xc0 \<noteq> 0xc0 \<and> \<not> (?b AND 0xc0 \<noteq> 0 \<or> ?b > 63)"
    using expands_label.hyps(2,3) label_octet_iff by blast
  have l: "length l = unat ?b" using expands_label.hyps by simp
  have IH: "read_name_loop p (Suc (c + unat ?b)) nx' j s (e + (unat ?b + 1)) (labs @ [escape_text l])
      (cw @ [?b] @ map ascii_lower l) =
     Inr (labs @ map escape_text (l # ls), cw @ canonical_of_labels (l # ls), if j then nx' else n)" for nx'
    using expands_label.IH [of s "e + (unat ?b + 1)" nx' j] expands_label.prems l by simp
  have "e + (unat ?b + 1) \<le> USIZE_MAX" and "Suc (c + unat ?b) \<le> USIZE_MAX"
    using expands_label l by (auto simp: USIZE_MAX_def)
  moreover have "get_range p (Suc c) (Suc (c + unat ?b)) = Some l"
    using expands_label.hyps by (simp add: get_range_def)
  moreover have "escape_label l = Inr (escape_text l)"
    using l expands_label.hyps by (auto simp: escape_label_def escape_text_def)
  moreover have "\<not> 255 < e + (unat ?b + 1)"
  proof -
    have "length (wire_of_labels (l # ls)) = unat ?b + 1 + length (wire_of_labels ls)"
      using l by simp
    then show ?thesis using expands_label.prems(3) wire_of_labels_pos [of ls] by linarith
  qed
  ultimately show ?case
    using lab expands_label.hyps(1) IH [of "if j then nx else Suc (c + unat ?b)"]
    by (simp add: read_name_loop.simps [of p c] get_at_def checked_end_def usize_checked_add_def)
next
  case (expands_pointer c p ptr k ls n)
  then have "p ! c \<noteq> 0" using pointer_octet by blast
  moreover from expands_pointer have "ptr < length p" "\<not> 128 < s + 1" by simp_all
  moreover have "read_name_loop p ptr nx' True (s + 1) e labs cw =
     Inr (labs @ map escape_text ls, cw @ canonical_of_labels ls, nx')" for nx'
    using expands_pointer.IH [of "s + 1" e nx' True] expands_pointer.prems by simp
  ultimately show ?case using expands_pointer.hyps
    by (simp add: read_name_loop.simps [of p c] get_at_def Let_def not_le)
qed

lemma read_name_sound:
  assumes "read_name p off = Inr (name, n)"
  obtains k ls where "expands p off k ls n" and "k \<le> 128" and "valid_labels ls"
    and "name = name_of_labels ls"
proof -
  from assms obtain labs cw where "read_name_loop p off off False 0 1 [] [] = Inr (labs, cw, n)"
    and name: "name = \<lparr>dn_text = (if labs = [] then ''.'' else join_labels labs), dn_canonical_wire = cw\<rparr>"
    by (auto simp: read_name_def result_simps Let_def split: if_splits)
  from read_name_loop_sound [OF this(1)] obtain k ls where "expands p off k ls n" "k \<le> 128"
    "1 + length (wire_of_labels ls) \<le> 256" "labs = map escape_text ls" "cw = canonical_of_labels ls"
    unfolding loop_result_def by auto
  with name show ?thesis
    by (intro that) (auto simp: name_of_labels_def valid_labels_def dest: expands_valid)
qed

lemma read_name_complete:
  assumes "expands p off k ls n" and "addressable p" and "k \<le> 128" and "valid_labels ls"
  shows "read_name p off = Inr (name_of_labels ls, n)"
proof -
  have "off < length p" using expands_bounds [OF assms(1)] by simp
  moreover have "read_name_loop p off off False 0 1 [] [] = Inr (map escape_text ls, canonical_of_labels ls, n)"
    using read_name_loop_complete [OF assms(1,2), of 0 1 off False "[]" "[]"] assms(3,4)
    by (simp add: valid_labels_def)
  ultimately show ?thesis
    by (simp add: read_name_def name_of_labels_def)
qed

lemma read_name_iff:
  assumes "addressable p"
  shows "read_name p off = Inr (name, n) \<longleftrightarrow>
    (\<exists>k ls. expands p off k ls n \<and> k \<le> 128 \<and> valid_labels ls \<and> name = name_of_labels ls)"
  using assms by (metis read_name_complete read_name_sound)

lemma read_name_bounds: "read_name p off = Inr (name, n) \<Longrightarrow> off < n \<and> n \<le> length p"
  by (metis read_name_sound expands_bounds)

text \<open>An uncompressed name in the middle of a packet.\<close>

lemma unat_of_nat_label: "length l \<le> 63 \<Longrightarrow> unat (of_nat (length l) :: u8) = length l"
  by (simp add: unat_of_nat_u8)

lemma expands_wire:
  assumes "list_all valid_label ls"
  shows "expands (pre @ wire_of_labels ls @ post) (length pre) 0 ls (length pre + length (wire_of_labels ls))"
  using assms
proof (induction ls arbitrary: pre)
  case Nil
  have "expands (pre @ [0] @ post) (length pre) 0 [] (Suc (length pre))"
    by (rule expands_root) (simp_all add: nth_append)
  then show ?case by simp
next
  case (Cons l ls)
  let ?p = "pre @ wire_of_labels (l # ls) @ post" and ?c = "length pre"
  have vl: "l \<noteq> []" "length l \<le> 63" using Cons.prems by (auto simp: valid_label_def)
  have b: "?p ! ?c = of_nat (length l)" by simp
  then have ub: "unat (?p ! ?c) = length l" using vl by (simp add: unat_of_nat_label)
  have "expands ?p (Suc (?c + length l)) 0 ls (?c + length (wire_of_labels (l # ls)))"
    using Cons.IH [of "pre @ of_nat (length l) # l"] Cons.prems by (simp add: ac_simps)
  moreover have "l = take (length l) (drop (Suc ?c) ?p)" by simp
  ultimately show ?case using vl
    by (intro expands_label) (simp_all only: ub, auto)
qed

lemma read_name_wire:
  assumes "valid_labels ls" and "addressable (pre @ wire_of_labels ls @ post)"
  shows "read_name (pre @ wire_of_labels ls @ post) (length pre) =
    Inr (name_of_labels ls, length pre + length (wire_of_labels ls))"
  using read_name_complete [OF expands_wire] assms by (auto simp: valid_labels_def)

section \<open>Lemmas: the presentation format\<close>

lemma digit_octet:
  assumes "d \<le> 9"
  shows "is_ascii_digit (of_nat (48 + d))" and "of_nat (48 + d) - 48 = (of_nat d :: u8)"
    and "of_nat (48 + d) \<noteq> (92 :: u8)" and "of_nat (48 + d) \<noteq> (46 :: u8)"
proof -
  have u: "unat (of_nat (48 + d) :: u8) = 48 + d" using assms by (intro unat_of_nat_u8) simp
  show "is_ascii_digit (of_nat (48 + d))"
    using assms u by (simp add: is_ascii_digit_def word_le_nat_alt del: of_nat_add)
  show "of_nat (48 + d) - 48 = (of_nat d :: u8)" by simp
  show "of_nat (48 + d) \<noteq> (92 :: u8)" "of_nat (48 + d) \<noteq> (46 :: u8)"
    using assms u by (auto simp: word_unat_eq_iff simp del: of_nat_add)
qed

lemma plain_byte_ordinary:
  assumes "is_plain_byte b"
  shows "b \<noteq> 46" and "b \<noteq> 92" and "\<not> b < 32" and "b \<noteq> 127"
proof -
  show "b \<noteq> 46" "b \<noteq> 92" "b \<noteq> 127" using assms by (auto simp: is_plain_byte_def)
  have "45 \<le> unat b" using assms
    by (auto simp: is_plain_byte_def word_le_nat_alt)
  then show "\<not> b < 32" by (simp add: word_less_nat_alt)
qed

lemma decode_escape_byte:
  assumes "length lab < 63"
  shows "decode_name_loop name (as_bytes (escape_byte b) @ rest) labels lab =
    decode_name_loop name rest labels (lab @ [b])"
proof (cases "is_plain_byte b")
  case True
  note plain_byte_ordinary [OF True]
  with True assms show ?thesis
    by (simp add: escape_byte_def decode_name_loop.simps(2) push_label_byte_def)
next
  case False
  let ?h = "unat b div 100" and ?t = "unat b div 10 mod 10" and ?u = "unat b mod 10"
  have small: "?h \<le> 9" "?t \<le> 9" "?u \<le> 9" using unat_u8_le [of b] by linarith+
  have val: "unat (of_nat d :: u8) = d" if "d \<le> 9" for d
    using that by (simp add: unat_of_nat_u8)
  have "unat b div 100 = unat b div 10 div 10"
    by (simp flip: div_mult2_eq)
  then have "?h * 100 + ?t * 10 + ?u = unat b"
    using div_mult_mod_eq [of "unat b div 10" 10] div_mult_mod_eq [of "unat b" 10] by linarith
  then have "decode_name_loop name (92 # of_nat (48 + ?h) # of_nat (48 + ?t) # of_nat (48 + ?u) # rest) labels lab
     = decode_name_loop name rest labels (lab @ [b])"
    using digit_octet [OF small(1)] digit_octet [OF small(2)] digit_octet [OF small(3)] assms
      val [OF small(1)] val [OF small(2)] val [OF small(3)]
    by (simp add: decode_name_loop.simps(2) push_label_byte_def Let_def del: of_nat_add)
  moreover have "byte_of (CHR 0x5C) = 92" by (simp add: byte_of_def)
  ultimately show ?thesis using False by (simp add: escape_byte_def digit_char_def del: of_nat_add)
qed

lemma decode_escape_text:
  assumes "length (lab @ l) \<le> 63"
  shows "decode_name_loop name (as_bytes (escape_text l) @ rest) labels lab =
    decode_name_loop name rest labels (lab @ l)"
  using assms
proof (induction l arbitrary: lab)
  case (Cons b l)
  then show ?case by (simp add: escape_text_def decode_escape_byte)
qed (simp add: escape_text_def)

lemma decode_join_labels:
  assumes "ls \<noteq> []" and "list_all valid_label ls"
  shows "decode_name_loop name (as_bytes (join_labels (map escape_text ls))) labels [] = Inr (labels @ ls)"
  using assms
proof (induction ls arbitrary: labels rule: list_nonempty_induct)
  case (single l)
  then show ?case using decode_escape_text [of "[]" l name "[]" labels]
    by (simp add: valid_label_def)
next
  case (cons l ls)
  then obtain l' ls' where ls: "ls = l' # ls'" by (cases ls) auto
  have ne: "as_bytes (join_labels (map escape_text ls)) \<noteq> []"
  proof
    assume "as_bytes (join_labels (map escape_text ls)) = []"
    then have "decode_name_loop name [] labels [] = Inr (labels @ ls)"
      using cons by auto
    then show False by simp
  qed
  have dot: "byte_of (CHR ''.'') = 46" by (simp add: byte_of_def)
  have "as_bytes (join_labels (map escape_text (l # ls))) =
      as_bytes (escape_text l) @ 46 # as_bytes (join_labels (map escape_text ls))"
    using dot by (simp add: ls)
  then show ?case
    using cons decode_escape_text [of "[]" l name _ labels] ne
    by (simp add: valid_label_def decode_name_loop.simps(2))
qed

lemma decode_text_of_labels:
  assumes "list_all valid_label ls"
  shows "decode_presentation_name (dn_text (name_of_labels ls)) = Inr ls"
proof (cases "ls = []")
  case True
  then show ?thesis
    by (simp add: name_of_labels_def decode_presentation_name_def decode_name_loop.simps(2) byte_of_def)
next
  case False
  then show ?thesis
    using decode_join_labels [OF False assms, of _ "[]"]
    by (simp add: name_of_labels_def decode_presentation_name_def)
qed

lemma decode_name_loop_valid:
  assumes "decode_name_loop name bs labels lab = Inr ls" and "list_all valid_label labels"
    and "length lab \<le> 63"
  shows "list_all valid_label ls"
  using assms
proof (induction name bs labels lab rule: decode_name_loop.induct)
  case (1 name labels lab)
  then show ?case by (auto simp: valid_label_def split: if_splits)
next
  case (2 name b rest labels lab)
  note step = "2.prems"(1) [unfolded decode_name_loop.simps(2) push_label_byte_def]
  show ?case using step "2.IH" "2.prems"(2,3)
    by (auto simp: valid_label_def Let_def split: if_splits list.splits)
qed

lemma decode_presentation_valid:
  "decode_presentation_name name = Inr ls \<Longrightarrow> list_all valid_label ls"
  unfolding decode_presentation_name_def by (rule decode_name_loop_valid) auto

lemma encode_labels_wire:
  "list_all valid_label ls \<Longrightarrow> encode_labels ls = Inr (concat (map label_wire ls))"
  by (induction ls) (auto simp: valid_label_def label_wire_def)

lemma encode_name_eq_Inr:
  "encode_name name = Inr w \<longleftrightarrow>
     (\<exists>ls. name \<noteq> [] \<and> decode_presentation_name name = Inr ls \<and> valid_labels ls \<and> w = wire_of_labels ls)"
proof (cases "decode_presentation_name name")
  case (Inl e)
  then show ?thesis by (simp add: encode_name_def)
next
  case (Inr ls)
  then have "list_all valid_label ls" by (rule decode_presentation_valid)
  with Inr show ?thesis
    by (auto simp: encode_name_def encode_labels_wire valid_labels_def wire_of_labels_def Let_def)
qed

lemma escape_byte_nonempty [simp]: "escape_byte b \<noteq> []"
  by (simp add: escape_byte_def)

lemma name_text_nonempty: "list_all valid_label ls \<Longrightarrow> dn_text (name_of_labels ls) \<noteq> []"
  using decode_text_of_labels [of ls]
  by (auto simp: decode_presentation_name_def)

lemma encode_name_text:
  "valid_labels ls \<Longrightarrow> encode_name (dn_text (name_of_labels ls)) = Inr (wire_of_labels ls)"
  by (auto simp: encode_name_eq_Inr name_text_nonempty decode_text_of_labels valid_labels_def)

lemma canonical_of_labels_lower:
  "list_all valid_label ls \<Longrightarrow> canonical_of_labels ls = map ascii_lower (wire_of_labels ls)"
  by (induction ls) (auto simp: valid_label_def ascii_lower_small unat_of_nat_label)

lemma length_canonical_of_labels [simp]:
  "length (canonical_of_labels ls) = length (wire_of_labels ls)"
  by (induction ls) auto

section \<open>The interface of the name codec\<close>

text \<open>
  What the rest of the resolver relies on: an encoder of presentation names and a decoder of names
  inside a packet that undo each other up to ASCII case.
\<close>

locale name_codec =
  fixes encode :: "string \<Rightarrow> 'e + bytes"
    and decode :: "bytes \<Rightarrow> nat \<Rightarrow> 'e + (dns_name \<times> nat)"
  assumes decode_encoded:
      "encode s = Inr w \<Longrightarrow> addressable (pre @ w @ post) \<Longrightarrow>
       \<exists>name. decode (pre @ w @ post) (length pre) = Inr (name, length pre + length w) \<and>
         dn_canonical_wire name = map ascii_lower w \<and> encode (dn_text name) = Inr w"
    and encode_decoded:
      "decode p off = Inr (name, n) \<Longrightarrow>
       \<exists>w. encode (dn_text name) = Inr w \<and> dn_canonical_wire name = map ascii_lower w"
    and encode_length: "encode s = Inr w \<Longrightarrow> 0 < length w \<and> length w \<le> 255"
    and decode_progress: "decode p off = Inr (name, n) \<Longrightarrow> off < n \<and> n \<le> length p"
begin

lemma decode_encoded_alone:
  assumes "encode s = Inr w"
  obtains name where "decode w 0 = Inr (name, length w)"
    and "dn_canonical_wire name = map ascii_lower w" and "encode (dn_text name) = Inr w"
proof -
  have "addressable w" using encode_length [OF assms] by (simp add: USIZE_MAX_def)
  then show ?thesis using decode_encoded [OF assms, of "[]" "[]"] that by auto
qed

lemma decoded_canonical_length:
  assumes "decode p off = Inr (name, n)"
  shows "0 < length (dn_canonical_wire name) \<and> length (dn_canonical_wire name) \<le> 255"
proof -
  obtain w where "encode (dn_text name) = Inr w" "dn_canonical_wire name = map ascii_lower w"
    using encode_decoded [OF assms] by blast
  then show ?thesis using encode_length by simp
qed

text \<open>Printing a decoded name, encoding it and decoding it again gives the same canonical wire form.\<close>

lemma redecode_canonical:
  assumes "decode p off = Inr (name, n)"
  shows "\<exists>w name'. encode (dn_text name) = Inr w \<and> decode w 0 = Inr (name', length w) \<and>
    dn_canonical_wire name' = dn_canonical_wire name"
proof -
  obtain w where w: "encode (dn_text name) = Inr w" "dn_canonical_wire name = map ascii_lower w"
    using encode_decoded [OF assms] by blast
  then show ?thesis using decode_encoded_alone [OF w(1)] by metis
qed

end

interpretation dns: name_codec encode_name read_name
proof
  fix s w pre post
  assume "encode_name s = Inr w" and addr: "addressable (pre @ w @ post)"
  then obtain ls where ls: "valid_labels ls" "w = wire_of_labels ls"
    by (auto simp: encode_name_eq_Inr)
  then show "\<exists>name. read_name (pre @ w @ post) (length pre) = Inr (name, length pre + length w) \<and>
      dn_canonical_wire name = map ascii_lower w \<and> encode_name (dn_text name) = Inr w"
    using read_name_wire [of ls pre post] addr encode_name_text [of ls]
      canonical_of_labels_lower [of ls]
    by (simp add: name_of_labels_def valid_labels_def)
next
  fix p off name n
  assume "read_name p off = Inr (name, n)"
  then obtain k ls where ls: "valid_labels ls" "name = name_of_labels ls"
    by (rule read_name_sound)
  then show "\<exists>w. encode_name (dn_text name) = Inr w \<and> dn_canonical_wire name = map ascii_lower w"
    using encode_name_text [of ls] canonical_of_labels_lower [of ls]
    by (simp add: name_of_labels_def valid_labels_def)
next
  fix s w assume "encode_name s = Inr w"
  then show "0 < length w \<and> length w \<le> 255"
    using wire_of_labels_pos by (auto simp: encode_name_eq_Inr valid_labels_def)
next
  fix p off name n assume "read_name p off = Inr (name, n)"
  then show "off < n \<and> n \<le> length p" by (rule read_name_bounds)
qed

lemma canonical_name_wire_eq:
  "canonical_name_wire s = and_then (encode_name s) (\<lambda>w. Inr (map ascii_lower w))"
proof (cases "encode_name s")
  case (Inr w)
  then obtain name where "read_name w 0 = Inr (name, length w)"
    "dn_canonical_wire name = map ascii_lower w"
    by (rule dns.decode_encoded_alone)
  with Inr show ?thesis by (simp add: canonical_name_wire_def)
qed (simp add: canonical_name_wire_def)

section \<open>Properties\<close>

text \<open>
  C1: \<open>read_name\<close> returns a name exactly when RFC 1035 expansion, with pointers that only go
  backwards, gives that name within the code's limits of 128 pointers and 255 octets, and the
  offset it returns is the end of the name's field.
\<close>

theorem read_name_refines_expansion:
  assumes "addressable p"
  shows "read_name p off = Inr (name, n) \<longleftrightarrow>
    (\<exists>k ls. expands p off k ls n \<and> k \<le> 128 \<and> valid_labels ls \<and> name = name_of_labels ls)"
  using assms by (rule read_name_iff)

lemmas wire_eval =
  get_at_def get_range_def checked_end_def usize_checked_add_def USIZE_MAX_def overwrite_def
  u16_from_be_def u16_to_be_def u32_from_be_def u32_to_be_def read_u16_def read_u32_def
  write_u16_def write_u32_def DNS_HEADER_LEN_def

lemmas name_eval =
  wire_eval read_name_def read_name_loop.simps escape_label_def escape_byte_def is_plain_byte_def
  char_of_byte_bits ascii_lower_nat byte_of_def

lemmas encode_eval =
  encode_name_def decode_presentation_name_def decode_name_loop.simps(2) push_label_byte_def
  byte_of_def Let_def

theorem read_name_refines_expansion_witness:
  "addressable [1, 65, 0, 1, 66, 0xc0, 0] \<and>
   read_name [1, 65, 0, 1, 66, 0xc0, 0] 3 = Inr (name_of_labels [[66], [65]], 7) \<and>
   (\<exists>k ls. expands [1, 65, 0, 1, 66, 0xc0, 0] 3 k ls 7 \<and> k \<le> 128 \<and>
      name_of_labels [[66], [65]] = name_of_labels ls)"
proof -
  let ?p = "[1, 65, 0, 1, 66, 0xc0, 0] :: bytes"
  have addr: "addressable ?p" by (simp add: USIZE_MAX_def)
  have "read_name ?p 3 = Inr (name_of_labels [[66], [65]], 7)"
    by (simp add: name_eval escape_text_def name_of_labels_def)
  with addr show ?thesis
    using read_name_refines_expansion [OF addr, of 3 "name_of_labels [[66], [65]]" 7] by blast
qed

text \<open>
  C2: Encoding and decoding are inverse: a presentation name that \<open>encode_name\<close> accepts is read
  back by \<open>read_name\<close> from any place of a packet, its canonical form is the encoding with the
  letters in lower case, the field it occupies is exactly the encoding, and its printed text
  encodes to the same octets.
\<close>

theorem encode_read_roundtrip:
  assumes "encode_name s = Inr w" and "addressable (pre @ w @ post)"
  shows "\<exists>name. read_name (pre @ w @ post) (length pre) = Inr (name, length pre + length w) \<and>
    dn_canonical_wire name = map ascii_lower w \<and> encode_name (dn_text name) = Inr w"
  using assms by (rule dns.decode_encoded)

theorem encode_read_roundtrip_witness:
  "encode_name (''a'' @ CHR 0x5C # ''046B.c.'') = Inr [3, 97, 46, 66, 1, 99, 0] \<and>
   (\<exists>name. read_name ([7] @ [3, 97, 46, 66, 1, 99, 0] @ [9]) (length [7 :: u8]) = Inr (name, 8) \<and>
      dn_canonical_wire name = [3, 97, 46, 98, 1, 99, 0])"
proof -
  let ?w = "[3, 97, 46, 66, 1, 99, 0] :: bytes"
  have enc: "encode_name (''a'' @ CHR 0x5C # ''046B.c.'') = Inr ?w"
    by (simp add: encode_eval is_ascii_digit_def)
  have "addressable ([7] @ ?w @ [9])" by (simp add: USIZE_MAX_def)
  from encode_read_roundtrip [OF enc this] obtain name
    where "read_name ([7] @ ?w @ [9]) (length [7 :: u8]) = Inr (name, length [7 :: u8] + length ?w)"
      and "dn_canonical_wire name = map ascii_lower ?w" by blast
  moreover have "length [7 :: u8] + length ?w = 8"
    and "map ascii_lower ?w = [3, 97, 46, 98, 1, 99, 0]" by (simp_all add: ascii_lower_nat)
  ultimately show ?thesis using enc by metis
qed



end
