(* ===== verification/Wire_Codec.thy ===== *)
theory Wire_Codec
  imports Wire_Name
begin

text \<open>
  Questions, resource records and the sections of a packet (\<open>src/src/wire/codec.rs\<close>, lines 231 to
  662). Every validator of record data is here, with its loops as terminating recursions. The
  interface \<open>packet_reader\<close> captures what the section loops rely on: a parser that makes progress and
  stays inside the packet. It is interpreted for questions and for records.
\<close>

section \<open>Questions\<close>

definition query_type_is_valid :: "u16 \<Rightarrow> bool" where
  "query_type_is_valid rr_type \<longleftrightarrow> rr_type \<notin> {0, TYPE_OPT, TYPE_RRSIG, 249, TYPE_TSIG}"

definition parse_question :: "bytes \<Rightarrow> nat \<Rightarrow> wire_error + question" where
  "parse_question packet offset =
     and_then (read_name packet offset) (\<lambda>(name, offset).
     and_then (read_u16 packet offset) (\<lambda>rr_type.
     if \<not> query_type_is_valid rr_type then Inl (InvalidQuestionType rr_type)
     else
       and_then (read_u16 packet (offset + 2)) (\<lambda>cls.
       Inr \<lparr>q_name = name, q_rr_type = rr_type, q_class = cls, q_next_offset = offset + 4\<rparr>)))"

section \<open>Bounds of record data\<close>

definition require_rdata_length :: "resource_record \<Rightarrow> nat \<Rightarrow> wire_error + unit" where
  "require_rdata_length record expected =
     (if length (rr_rdata record) = expected then Inr () else Inl InvalidRecord)"

definition require_minimum_rdata_length :: "resource_record \<Rightarrow> nat \<Rightarrow> wire_error + unit" where
  "require_minimum_rdata_length record minimum =
     (if length (rr_rdata record) \<ge> minimum then Inr () else Inl InvalidRecord)"

definition require_offset :: "nat \<Rightarrow> nat \<Rightarrow> nat \<Rightarrow> wire_error + nat" where
  "require_offset offset len limit =
     and_then (ok_or (usize_checked_add offset len) InvalidRecord) (\<lambda>stop.
     if stop \<le> limit then Inr stop else Inl InvalidRecord)"

definition require_exact_end :: "nat \<Rightarrow> nat \<Rightarrow> wire_error + unit" where
  "require_exact_end actual expected = (if actual = expected then Inr () else Inl InvalidRecord)"

lemma require_offset_eq_Inr [slice_simps]:
  "require_offset a b l = Inr c \<longleftrightarrow> c = a + b \<and> a + b \<le> l \<and> a + b \<le> USIZE_MAX"
  by (auto simp: require_offset_def result_simps slice_simps)

function validate_uncompressed_loop :: "bytes \<Rightarrow> nat \<Rightarrow> nat \<Rightarrow> nat \<Rightarrow> wire_error + unit" where
  "validate_uncompressed_loop packet offset limit expanded_length =
     and_then (ok_or (get_at packet offset) ShortPacket) (\<lambda>len.
     if len = 0 then (if offset < limit then Inr () else Inl InvalidRecord)
     else if len AND 0xc0 \<noteq> 0 \<or> len > 63 then Inl InvalidRecord
     else
       and_then (ok_or (usize_checked_add expanded_length (unat len + 1)) NameTooLong) (\<lambda>expanded.
       if expanded > 255 then Inl NameTooLong
       else
         and_then (require_offset offset (unat len + 1) limit) (\<lambda>offset.
         validate_uncompressed_loop packet offset limit expanded)))"
  by pat_completeness auto

termination
  by (relation "measure (\<lambda>(p, c, l, e). 256 - e)") (auto simp: slice_simps result_simps)

declare validate_uncompressed_loop.simps [simp del]

definition validate_uncompressed_name :: "bytes \<Rightarrow> nat \<Rightarrow> nat \<Rightarrow> wire_error + unit" where
  "validate_uncompressed_name packet offset limit = validate_uncompressed_loop packet offset limit 1"

definition read_bounded_name :: "bytes \<Rightarrow> nat \<Rightarrow> nat \<Rightarrow> bool \<Rightarrow> wire_error + nat" where
  "read_bounded_name packet offset limit allow_compression =
     and_then (if \<not> allow_compression then validate_uncompressed_name packet offset limit else Inr ()) (\<lambda>_.
     and_then (read_name packet offset) (\<lambda>(_, stop).
     if stop \<le> limit then Inr stop else Inl InvalidRecord))"

definition require_name_end :: "bytes \<Rightarrow> nat \<Rightarrow> nat \<Rightarrow> bool \<Rightarrow> wire_error + unit" where
  "require_name_end packet offset expected_end allow_compression =
     and_then (read_bounded_name packet offset expected_end allow_compression) (\<lambda>stop.
     require_exact_end stop expected_end)"

text \<open>
  \<open>std::str::from_utf8\<close>: the well-formed byte sequences of the Unicode standard (table 3-7).
\<close>

definition utf8_cont :: "u8 \<Rightarrow> bool" where
  "utf8_cont b \<longleftrightarrow> 0x80 \<le> b \<and> b \<le> 0xbf"

fun utf8_valid :: "bytes \<Rightarrow> bool" where
  "utf8_valid [] \<longleftrightarrow> True"
| "utf8_valid (b # rest) \<longleftrightarrow>
     (if b < 0x80 then utf8_valid rest
      else if 0xc2 \<le> b \<and> b \<le> 0xdf then
        (case rest of c1 # r \<Rightarrow> utf8_cont c1 \<and> utf8_valid r | _ \<Rightarrow> False)
      else if 0xe0 \<le> b \<and> b \<le> 0xef then
        (case rest of
           c1 # c2 # r \<Rightarrow>
             (if b = 0xe0 then 0xa0 \<le> c1 \<and> c1 \<le> 0xbf
              else if b = 0xed then 0x80 \<le> c1 \<and> c1 \<le> 0x9f
              else utf8_cont c1) \<and> utf8_cont c2 \<and> utf8_valid r
         | _ \<Rightarrow> False)
      else if 0xf0 \<le> b \<and> b \<le> 0xf4 then
        (case rest of
           c1 # c2 # c3 # r \<Rightarrow>
             (if b = 0xf0 then 0x90 \<le> c1 \<and> c1 \<le> 0xbf
              else if b = 0xf4 then 0x80 \<le> c1 \<and> c1 \<le> 0x8f
              else utf8_cont c1) \<and> utf8_cont c2 \<and> utf8_cont c3 \<and> utf8_valid r
         | _ \<Rightarrow> False)
      else False)"

declare utf8_valid.simps(2) [simp del]

definition read_character_string :: "bytes \<Rightarrow> nat \<Rightarrow> nat \<Rightarrow> bool \<Rightarrow> wire_error + nat" where
  "read_character_string packet offset limit txt =
     and_then (ok_or (get_at packet offset) ShortPacket) (\<lambda>len.
     and_then (require_offset offset 1 limit) (\<lambda>content.
     and_then (require_offset content (unat len) limit) (\<lambda>stop.
     if txt then
       and_then (ok_or (get_range packet content stop) ShortPacket) (\<lambda>bs.
       if 0 \<in> set bs \<or> \<not> utf8_valid bs then Inl InvalidRecord else Inr stop)
     else Inr stop)))"

lemma read_character_string_progress:
  "read_character_string p off limit txt = Inr n \<Longrightarrow> off < n \<and> n \<le> limit"
  by (auto simp: read_character_string_def result_simps slice_simps split: if_splits)

function validate_character_string_list :: "bytes \<Rightarrow> nat \<Rightarrow> nat \<Rightarrow> wire_error + unit" where
  "validate_character_string_list packet offset stop =
     (if offset < stop then
        and_then (read_character_string packet offset stop False) (\<lambda>offset.
        validate_character_string_list packet offset stop)
      else require_exact_end offset stop)"
  by pat_completeness auto

termination
  by (relation "measure (\<lambda>(p, off, e). e - off)") (auto dest: read_character_string_progress)

declare validate_character_string_list.simps [simp del]

definition loc_size_valid :: "u8 \<Rightarrow> bool" where
  "loc_size_valid v =
     (let mantissa = drop_bit 4 v; exponent = v AND 0x0f
      in mantissa \<le> 9 \<and> exponent \<le> 9 \<and> (mantissa > 0 \<or> exponent = 0))"

definition validate_loc :: "resource_record \<Rightarrow> wire_error + unit" where
  "validate_loc record =
     (case rr_rdata record of
        [] \<Rightarrow> Inl InvalidRecord
      | version # _ \<Rightarrow>
          if version \<noteq> 0 then Inr ()
          else
            and_then (require_rdata_length record 16) (\<lambda>_.
            if list_all loc_size_valid (take 3 (drop 1 (rr_rdata record))) then Inr ()
            else Inl InvalidRecord))"

definition validate_rrsig :: "bytes \<Rightarrow> nat \<Rightarrow> nat \<Rightarrow> wire_error + unit" where
  "validate_rrsig packet start stop =
     and_then (require_offset start 18 stop) (\<lambda>name_offset.
     and_then (read_bounded_name packet name_offset stop False) (\<lambda>signature_offset.
     if signature_offset < stop then Inr () else Inl InvalidRecord))"

text \<open>
  The window loop of NSEC bitmaps indexes the packet directly. Its callers pass \<open>stop\<close> no larger
  than the packet, so both indices are in range (\<open>validate_type_windows_indices\<close>).
\<close>

function validate_type_windows :: "bytes \<Rightarrow> nat \<Rightarrow> nat \<Rightarrow> wire_error + unit" where
  "validate_type_windows packet offset stop =
     (if offset < stop then
        and_then (require_offset offset 2 stop) (\<lambda>header_end.
        let len = unat (packet ! (offset + 1))
        in if len = 0 \<or> len > 32 then Inl InvalidRecord
           else
             and_then (require_offset header_end len stop) (\<lambda>window_end.
             if packet ! (window_end - 1) = 0 then Inl InvalidRecord
             else validate_type_windows packet window_end stop))
      else require_exact_end offset stop)"
  by pat_completeness auto

termination
  by (relation "measure (\<lambda>(p, off, e). e - off)") (auto simp: slice_simps)

declare validate_type_windows.simps [simp del]

definition validate_nsec :: "bytes \<Rightarrow> nat \<Rightarrow> nat \<Rightarrow> wire_error + unit" where
  "validate_nsec packet start stop =
     and_then (read_bounded_name packet start stop False) (\<lambda>bitmap_offset.
     validate_type_windows packet bitmap_offset stop)"

definition validate_nsec3 :: "bytes \<Rightarrow> nat \<Rightarrow> nat \<Rightarrow> wire_error + unit" where
  "validate_nsec3 packet start stop =
     and_then (require_offset start 4 stop) (\<lambda>salt_length_offset.
     and_then (ok_or (get_at packet salt_length_offset) ShortPacket) (\<lambda>salt_length.
     and_then (require_offset salt_length_offset 1 stop) (\<lambda>salt_offset.
     and_then (require_offset salt_offset (unat salt_length) stop) (\<lambda>hash_length_offset.
     and_then (ok_or (get_at packet hash_length_offset) ShortPacket) (\<lambda>hash_length.
     if unat hash_length = 0 then Inl InvalidRecord
     else
       and_then (require_offset hash_length_offset 1 stop) (\<lambda>hash_offset.
       and_then (require_offset hash_offset (unat hash_length) stop) (\<lambda>bitmap_offset.
       validate_type_windows packet bitmap_offset stop)))))))"

definition validate_nsec3param :: "bytes \<Rightarrow> nat \<Rightarrow> nat \<Rightarrow> wire_error + unit" where
  "validate_nsec3param packet start stop =
     and_then (require_offset start 4 stop) (\<lambda>salt_length_offset.
     and_then (ok_or (get_at packet salt_length_offset) ShortPacket) (\<lambda>salt_length.
     and_then (require_offset salt_length_offset (1 + unat salt_length) stop) (\<lambda>expected_end.
     require_exact_end expected_end stop)))"

text \<open>The ALPN list of a service parameter: the loop of \<open>validate_svc_param\<close> for key 1.\<close>

function svc_alpn_end :: "bytes \<Rightarrow> nat \<Rightarrow> wire_error + nat" where
  "svc_alpn_end v offset =
     (if offset < length v then
        and_then (ok_or (usize_checked_add offset (1 + unat (v ! offset))) InvalidRecord) (\<lambda>offset.
        svc_alpn_end v offset)
      else Inr offset)"
  by pat_completeness auto

termination
  by (relation "measure (\<lambda>(v, off). length v - off)") (auto simp: result_simps slice_simps)

declare svc_alpn_end.simps [simp del]

definition validate_svc_param :: "u16 \<Rightarrow> bytes \<Rightarrow> wire_error + unit" where
  "validate_svc_param key v =
     and_then
       (if key = 1 then
          if v = [] then Inr False
          else and_then (svc_alpn_end v 0) (\<lambda>offset. Inr (offset = length v))
        else if key = 2 then Inr (v = [])
        else if key = 3 then Inr (length v = 2)
        else if key = 4 then Inr (v \<noteq> [] \<and> length v mod 4 = 0)
        else if key = 6 then Inr (v \<noteq> [] \<and> length v mod 16 = 0)
        else Inr True)
       (\<lambda>valid. if valid then Inr () else Inl InvalidRecord)"

function validate_svcb_loop :: "bytes \<Rightarrow> nat \<Rightarrow> nat \<Rightarrow> u16 option \<Rightarrow> wire_error + unit" where
  "validate_svcb_loop packet offset stop last_key =
     (if offset < stop then
        and_then (require_offset offset 4 stop) (\<lambda>header_end.
        and_then (read_u16 packet offset) (\<lambda>key.
        if (case last_key of None \<Rightarrow> False | Some previous \<Rightarrow> previous \<ge> key) then Inl InvalidRecord
        else
          and_then (read_u16 packet (offset + 2)) (\<lambda>len.
          and_then (require_offset header_end (unat len) stop) (\<lambda>value_end.
          and_then (validate_svc_param key (take (value_end - header_end) (drop header_end packet))) (\<lambda>_.
          validate_svcb_loop packet value_end stop (Some key))))))
      else require_exact_end offset stop)"
  by pat_completeness auto

termination
  by (relation "measure (\<lambda>(p, off, e, k). e - off)") (auto simp: slice_simps)

declare validate_svcb_loop.simps [simp del]

definition validate_svcb :: "bytes \<Rightarrow> nat \<Rightarrow> nat \<Rightarrow> wire_error + unit" where
  "validate_svcb packet start stop =
     and_then (require_offset start 2 stop) (\<lambda>target_offset.
     and_then (read_bounded_name packet target_offset stop False) (\<lambda>offset.
     validate_svcb_loop packet offset stop None))"

definition validate_caa :: "bytes \<Rightarrow> nat \<Rightarrow> nat \<Rightarrow> wire_error + unit" where
  "validate_caa packet start stop =
     and_then (require_offset start 1 stop) (\<lambda>tag_offset.
     and_then (read_character_string packet tag_offset stop True) (\<lambda>value_offset.
     if value_offset \<le> stop then Inr () else Inl InvalidRecord))"

text \<open>\<open>for _ in 0..n { offset = read_character_string(...)? }\<close>.\<close>

fun read_character_strings :: "nat \<Rightarrow> bytes \<Rightarrow> nat \<Rightarrow> nat \<Rightarrow> wire_error + nat" where
  "read_character_strings 0 packet offset stop = Inr offset"
| "read_character_strings (Suc n) packet offset stop =
     and_then (read_character_string packet offset stop True) (\<lambda>offset.
     read_character_strings n packet offset stop)"

definition validate_naptr :: "bytes \<Rightarrow> nat \<Rightarrow> nat \<Rightarrow> wire_error + unit" where
  "validate_naptr packet start stop =
     and_then (require_offset start 4 stop) (\<lambda>offset.
     and_then (read_character_strings 3 packet offset stop) (\<lambda>offset.
     require_name_end packet offset stop False))"

section \<open>Records\<close>

definition validate_soa :: "bytes \<Rightarrow> nat \<Rightarrow> nat \<Rightarrow> bool \<Rightarrow> wire_error + unit" where
  "validate_soa packet start stop allow_compression =
     and_then (read_bounded_name packet start stop allow_compression) (\<lambda>after_mname.
     and_then (read_bounded_name packet after_mname stop allow_compression) (\<lambda>after_rname.
     and_then (require_offset after_rname 20 stop) (\<lambda>fixed_end.
     require_exact_end fixed_end stop)))"

definition validate_record_rdata :: "bytes \<Rightarrow> resource_record \<Rightarrow> wire_error + unit" where
  "validate_record_rdata packet record =
     (let start = rr_rdata_offset record; stop = rr_next_offset record; t = rr_rr_type record in
      if t = TYPE_A then require_rdata_length record 4
      else if t = TYPE_AAAA then require_rdata_length record 16
      else if t \<in> {TYPE_NS, TYPE_CNAME, TYPE_PTR, TYPE_DNAME} then require_name_end packet start stop True
      else if t = TYPE_SOA then validate_soa packet start stop True
      else if t = 13 then
        and_then (read_character_string packet start stop True) (\<lambda>after_cpu.
        and_then (read_character_string packet after_cpu stop True) (\<lambda>after_os.
        require_exact_end after_os stop))
      else if t = 15 then
        and_then (require_offset start 2 stop) (\<lambda>name_offset.
        require_name_end packet name_offset stop True)
      else if t = TYPE_TXT \<or> t = 99 then validate_character_string_list packet start stop
      else if t = 29 then validate_loc record
      else if t = TYPE_SRV then
        and_then (require_offset start 6 stop) (\<lambda>name_offset.
        require_name_end packet name_offset stop True)
      else if t = 35 then validate_naptr packet start stop
      else if t = 43 then require_minimum_rdata_length record 5
      else if t = 44 then require_minimum_rdata_length record 3
      else if t = TYPE_RRSIG then validate_rrsig packet start stop
      else if t = 47 then validate_nsec packet start stop
      else if t = 48 then require_minimum_rdata_length record 5
      else if t = 50 then validate_nsec3 packet start stop
      else if t = TYPE_NSEC3PARAM then validate_nsec3param packet start stop
      else if t = 52 then require_minimum_rdata_length record 4
      else if t = 64 \<or> t = 65 then validate_svcb packet start stop
      else if t = 257 then validate_caa packet start stop
      else Inr ())"

definition parse_record :: "bytes \<Rightarrow> nat \<Rightarrow> wire_error + resource_record" where
  "parse_record packet offset =
     and_then (read_name packet offset) (\<lambda>(name, offset).
     and_then (read_u16 packet offset) (\<lambda>rr_type.
     and_then (read_u16 packet (offset + 2)) (\<lambda>cls.
     if cls = CLASS_ANY \<or> rr_type \<in> {TYPE_IXFR, TYPE_AXFR, TYPE_ANY} then Inl InvalidRecord
     else
       let ttl_offset = offset + 4 in
       and_then (read_u32 packet ttl_offset) (\<lambda>ttl.
       let ttl = (if rr_type \<noteq> TYPE_OPT \<and> ttl AND 0x80000000 \<noteq> 0 then 0 else ttl) in
       and_then (read_u16 packet (offset + 8)) (\<lambda>rdata_length.
       let rdata_offset = offset + 10 in
       and_then (checked_end rdata_offset (unat rdata_length)) (\<lambda>next_offset.
       and_then (ok_or (get_range packet rdata_offset next_offset) ShortPacket) (\<lambda>rdata.
       let record = \<lparr>rr_name = name, rr_rr_type = rr_type, rr_class = cls, rr_ttl = ttl,
                     rr_ttl_offset = ttl_offset, rr_rdata_offset = rdata_offset, rr_rdata = rdata,
                     rr_next_offset = next_offset\<rparr> in
       and_then (validate_record_rdata packet record) (\<lambda>_. Inr record))))))))"

definition validate_uncompressed_record_names :: "bytes \<Rightarrow> resource_record \<Rightarrow> wire_error + unit" where
  "validate_uncompressed_record_names packet record =
     (let start = rr_rdata_offset record; stop = rr_next_offset record; t = rr_rr_type record in
      if t \<in> {TYPE_NS, TYPE_CNAME, TYPE_PTR, TYPE_DNAME} then require_name_end packet start stop False
      else if t = TYPE_SOA then validate_soa packet start stop False
      else if t = 15 then
        and_then (require_offset start 2 stop) (\<lambda>name_offset.
        require_name_end packet name_offset stop False)
      else if t = TYPE_SRV then
        and_then (require_offset start 6 stop) (\<lambda>name_offset.
        require_name_end packet name_offset stop False)
      else Inr ())"

definition parse_uncompressed_record :: "bytes \<Rightarrow> nat \<Rightarrow> wire_error + resource_record" where
  "parse_uncompressed_record packet offset =
     and_then (validate_uncompressed_name packet offset (length packet)) (\<lambda>_.
     and_then (parse_record packet offset) (\<lambda>record.
     and_then (validate_uncompressed_record_names packet record) (\<lambda>_.
     Inr record)))"

section \<open>Sections\<close>

text \<open>
  The section loops of the codec: parse an item, move to the item's \<open>next_offset\<close>, \<open>n\<close> times. The
  result holds the items and the offset after the last one.
\<close>

fun parse_many ::
  "(bytes \<Rightarrow> nat \<Rightarrow> 'e + 'a) \<Rightarrow> ('a \<Rightarrow> nat) \<Rightarrow> bytes \<Rightarrow> nat \<Rightarrow> nat \<Rightarrow> 'e + ('a list \<times> nat)" where
  "parse_many parse nxt packet 0 offset = Inr ([], offset)"
| "parse_many parse nxt packet (Suc n) offset =
     and_then (parse packet offset) (\<lambda>x.
     and_then (parse_many parse nxt packet n (nxt x)) (\<lambda>(xs, offset).
     Inr (x # xs, offset)))"

definition parse_sections ::
  "bytes \<Rightarrow> wire_error + (header \<times> question list \<times> resource_record list \<times> nat)" where
  "parse_sections packet =
     and_then (header_parse packet) (\<lambda>header.
     and_then (parse_many parse_question q_next_offset packet (unat (h_question_count header))
                 DNS_HEADER_LEN) (\<lambda>(questions, offset).
     and_then (parse_many parse_record rr_next_offset packet (total_records header) offset)
                 (\<lambda>(records, offset).
     Inr (header, questions, records, offset))))"

section \<open>The interface of the section loops\<close>

text \<open>
  A parser whose items end inside the packet, at least \<open>min_size\<close> octets after they start. The client
  is \<open>parse_many\<close>: a run of items is in order, without overlap, and ends inside the packet.
\<close>

locale packet_reader =
  fixes parse :: "bytes \<Rightarrow> nat \<Rightarrow> 'e + 'a"
    and nxt :: "'a \<Rightarrow> nat"
    and min_size :: nat
  assumes parse_progress: "parse p off = Inr x \<Longrightarrow> off + min_size \<le> nxt x \<and> nxt x \<le> length p"
    and min_size_pos: "0 < min_size"
begin

lemma many_length: "parse_many parse nxt p n off = Inr (xs, e) \<Longrightarrow> length xs = n"
  by (induction n arbitrary: off xs e) (auto simp: result_simps)

lemma many_bounds:
  assumes "parse_many parse nxt p n off = Inr (xs, e)"
  shows "off + n * min_size \<le> e" and "n = 0 \<Longrightarrow> e = off" and "off \<le> length p \<Longrightarrow> e \<le> length p"
  using assms
proof (induction n arbitrary: off xs e)
  case (Suc n)
  { case 1
    then obtain x ys where x: "parse p off = Inr x" "parse_many parse nxt p n (nxt x) = Inr (ys, e)"
      by (auto simp: result_simps)
    from Suc.IH(1) [OF x(2)] parse_progress [OF x(1)] show ?case by simp }
  { case 2 then show ?case by simp }
  { case 3
    then obtain x ys where x: "parse p off = Inr x" "parse_many parse nxt p n (nxt x) = Inr (ys, e)"
      by (auto simp: result_simps)
    with Suc.IH(3) [OF _ x(2)] parse_progress [OF x(1)] show ?case by simp }
qed auto

text \<open>Every item was parsed somewhere between the start and the end of the run.\<close>

lemma many_item:
  assumes "parse_many parse nxt p n off = Inr (xs, e)" and "x \<in> set xs"
  shows "\<exists>o'. off \<le> o' \<and> parse p o' = Inr x \<and> nxt x \<le> e"
  using assms
proof (induction n arbitrary: off xs e)
  case (Suc n)
  then obtain y ys where y: "parse p off = Inr y" "parse_many parse nxt p n (nxt y) = Inr (ys, e)"
    "xs = y # ys" by (auto simp: result_simps)
  have "nxt y \<le> e" using many_bounds(1) [OF y(2)] by simp
  moreover have "off \<le> nxt y" using parse_progress [OF y(1)] by simp
  ultimately show ?case using Suc.IH [OF y(2)] Suc.prems(2) y by (auto intro: order_trans)
qed auto

text \<open>The items do not overlap: a later one starts where or after an earlier one ends.\<close>

lemma many_ordered:
  assumes "parse_many parse nxt p n off = Inr (xs, e)"
  shows "sorted_wrt (\<lambda>x y. \<exists>o'. nxt x \<le> o' \<and> parse p o' = Inr y) xs"
  using assms
proof (induction n arbitrary: off xs e)
  case (Suc n)
  then obtain y ys where y: "parse p off = Inr y" "parse_many parse nxt p n (nxt y) = Inr (ys, e)"
    "xs = y # ys" by (auto simp: result_simps)
  then show ?case using Suc.IH [OF y(2)] many_item [OF y(2)] by auto
qed auto

lemma many_capacity:
  assumes "parse_many parse nxt p n off = Inr (xs, e)" and "off \<le> length p"
  shows "n * min_size \<le> length p"
  using many_bounds [OF assms(1)] assms(2) by linarith

end

section \<open>Lemmas: questions and records\<close>

lemma parse_question_eq_Inr:
  "parse_question p off = Inr q \<longleftrightarrow>
     (\<exists>name o1 t cls. read_name p off = Inr (name, o1) \<and> read_u16 p o1 = Inr t \<and>
        query_type_is_valid t \<and> read_u16 p (o1 + 2) = Inr cls \<and>
        q = \<lparr>q_name = name, q_rr_type = t, q_class = cls, q_next_offset = o1 + 4\<rparr>)"
  by (auto simp: parse_question_def result_simps)

interpretation questions: packet_reader parse_question q_next_offset 5
  by unfold_locales (auto simp: parse_question_eq_Inr slice_simps dest!: read_name_bounds)

lemma parse_record_Inr:
  assumes "parse_record p off = Inr r"
  obtains o1 t len where "read_name p off = Inr (rr_name r, o1)"
    and "read_u16 p o1 = Inr (rr_rr_type r)" and "read_u16 p (o1 + 2) = Inr (rr_class r)"
    and "read_u32 p (o1 + 4) = Inr t"
    and "rr_ttl r = (if rr_rr_type r \<noteq> TYPE_OPT \<and> t AND 0x80000000 \<noteq> 0 then 0 else t)"
    and "read_u16 p (o1 + 8) = Inr len" and "length (rr_rdata r) = unat len"
    and "rr_ttl_offset r = o1 + 4" and "rr_rdata_offset r = o1 + 10"
    and "rr_next_offset r = o1 + 10 + unat len"
    and "rr_next_offset r \<le> length p" and "rr_next_offset r \<le> USIZE_MAX"
    and "rr_rdata r = take (unat len) (drop (o1 + 10) p)"
    and "rr_class r \<noteq> CLASS_ANY" and "rr_rr_type r \<notin> {TYPE_IXFR, TYPE_AXFR, TYPE_ANY}"
    and "validate_record_rdata p r = Inr ()"
proof -
  from assms obtain name o1 ty cls t len where
    rn: "read_name p off = Inr (name, o1)" "read_u16 p o1 = Inr ty" "read_u16 p (o1 + 2) = Inr cls"
      "read_u32 p (o1 + 4) = Inr t" "read_u16 p (o1 + 8) = Inr len"
      "\<not> (cls = CLASS_ANY \<or> ty \<in> {TYPE_IXFR, TYPE_AXFR, TYPE_ANY})"
    and stop: "o1 + 10 + unat len \<le> length p" "o1 + 10 + unat len \<le> USIZE_MAX"
    and r: "r = \<lparr>rr_name = name, rr_rr_type = ty, rr_class = cls,
          rr_ttl = (if ty \<noteq> TYPE_OPT \<and> t AND 0x80000000 \<noteq> 0 then 0 else t),
          rr_ttl_offset = o1 + 4, rr_rdata_offset = o1 + 10,
          rr_rdata = take (unat len) (drop (o1 + 10) p), rr_next_offset = o1 + 10 + unat len\<rparr>"
    and v: "validate_record_rdata p r = Inr ()"
    unfolding parse_record_def
    by (auto simp: result_simps checked_end_eq_Inr get_range_eq_Some Let_def)
  then show ?thesis by (intro that [of o1 t len]) auto
qed

interpretation records: packet_reader parse_record rr_next_offset 11
proof
  fix p off r assume "parse_record p off = Inr r"
  then obtain o1 and len :: u16 where "read_name p off = Inr (rr_name r, o1)"
    "rr_next_offset r = o1 + 10 + unat len" "rr_next_offset r \<le> length p"
    by (elim parse_record_Inr) blast
  then show "off + 11 \<le> rr_next_offset r \<and> rr_next_offset r \<le> length p"
    using read_name_bounds by fastforce
qed simp

section \<open>Lemmas: uncompressed names\<close>

lemma validate_uncompressed_loop_sound:
  assumes "validate_uncompressed_loop p off limit e = Inr ()" and "e \<le> 255"
  shows "\<exists>ls. list_all valid_label ls \<and> e + length (wire_of_labels ls) \<le> 256 \<and>
    off + length (wire_of_labels ls) \<le> min limit (length p) \<and>
    p = take off p @ wire_of_labels ls @ drop (off + length (wire_of_labels ls)) p"
  using assms
proof (induction p off limit e rule: validate_uncompressed_loop.induct)
  case (1 p off limit e)
  from "1.prems"(1) obtain b where b: "get_at p off = Some b"
    by (auto simp: validate_uncompressed_loop.simps [of p off] result_simps)
  then have off: "off < length p" "p ! off = b" by (auto simp: slice_simps)
  show ?case
  proof (cases "b = 0")
    case True
    with b "1.prems" have "off < limit"
      by (simp add: validate_uncompressed_loop.simps [of p off] split: if_splits)
    moreover have "p = take off p @ [0] @ drop (off + 1) p"
      using id_take_nth_drop [OF off(1)] off(2) True by simp
    ultimately show ?thesis using off "1.prems" by (intro exI [of _ "[]"]) auto
  next
    case False
    let ?o = "off + (unat b + 1)"
    from False b "1.prems" have ok: "\<not> (b AND 0xc0 \<noteq> 0 \<or> b > 63)" "e + (unat b + 1) \<le> 255"
        "usize_checked_add e (unat b + 1) = Some (e + (unat b + 1))"
      and ro: "require_offset off (unat b + 1) limit = Inr ?o"
      and rec: "validate_uncompressed_loop p ?o limit (e + (unat b + 1)) = Inr ()"
      by (auto simp: validate_uncompressed_loop.simps [of p off] result_simps slice_simps not_less
          split: if_splits)
    have ub: "0 < unat b" "unat b \<le> 63"
      using ok False by (auto simp: unat_gt_0 not_less word_le_nat_alt)
    from "1.IH" [OF _ False ok(1) _ _ ro rec] b ok(2,3) obtain ls where
      ls: "list_all valid_label ls" "e + (unat b + 1) + length (wire_of_labels ls) \<le> 256"
        "?o + length (wire_of_labels ls) \<le> min limit (length p)"
        "p = take ?o p @ wire_of_labels ls @ drop (?o + length (wire_of_labels ls)) p"
      by auto
    let ?l = "take (unat b) (drop (off + 1) p)"
    have len: "length ?l = unat b" using ls(3) by auto
    have "take ?o p = take off p @ take (unat b + 1) (drop off p)"
      by (rule take_add)
    also have "drop off p = b # drop (off + 1) p" using off by (simp add: Cons_nth_drop_Suc [symmetric])
    finally have tk: "take ?o p = take off p @ b # ?l" by simp
    have bl: "of_nat (length ?l) = b" using len by simp
    have "p = take off p @ wire_of_labels (?l # ls) @ drop (off + length (wire_of_labels (?l # ls))) p"
      using ls(4) tk len bl by (simp add: ac_simps)
    moreover have "valid_label ?l" using len ub unfolding valid_label_def by auto
    ultimately show ?thesis using ls len bl
      by (intro exI [of _ "?l # ls"]) auto
  qed
qed

lemma validate_uncompressed_name_decompose:
  assumes "validate_uncompressed_name p off limit = Inr ()"
  obtains ls where "valid_labels ls" and "off + length (wire_of_labels ls) \<le> min limit (length p)"
    and "p = take off p @ wire_of_labels ls @ drop (off + length (wire_of_labels ls)) p"
  using validate_uncompressed_loop_sound [of p off limit 1] assms
  by (auto simp: validate_uncompressed_name_def valid_labels_def)

lemma read_name_uncompressed:
  assumes "validate_uncompressed_name p off limit = Inr ()" and "addressable p"
  obtains ls where "valid_labels ls" and "expands p off 0 ls (off + length (wire_of_labels ls))"
    and "read_name p off = Inr (name_of_labels ls, off + length (wire_of_labels ls))"
    and "off + length (wire_of_labels ls) \<le> limit"
proof -
  from assms(1) obtain ls where ls: "valid_labels ls" "off + length (wire_of_labels ls) \<le> min limit (length p)"
    "p = take off p @ wire_of_labels ls @ drop (off + length (wire_of_labels ls)) p"
    by (rule validate_uncompressed_name_decompose)
  have "length (take off p) = off" using ls(2) by simp
  then have "expands p off 0 ls (off + length (wire_of_labels ls))"
    using expands_wire [of ls "take off p" "drop (off + length (wire_of_labels ls)) p"] ls
    by (simp add: valid_labels_def)
  with ls assms(2) show ?thesis by (intro that) (auto dest: read_name_complete)
qed

lemma parse_question_wire:
  assumes "valid_labels ls" and "query_type_is_valid t"
    and "addressable (pre @ wire_of_labels ls @ u16_to_be t @ u16_to_be c @ post)"
  shows "parse_question (pre @ wire_of_labels ls @ u16_to_be t @ u16_to_be c @ post) (length pre) =
    Inr \<lparr>q_name = name_of_labels ls, q_rr_type = t, q_class = c,
         q_next_offset = length pre + length (wire_of_labels ls) + 4\<rparr>"
proof -
  let ?p = "pre @ wire_of_labels ls @ u16_to_be t @ u16_to_be c @ post"
  let ?o = "length pre + length (wire_of_labels ls)"
  have "read_name ?p (length pre) = Inr (name_of_labels ls, ?o)"
    using read_name_wire [OF assms(1), of pre "u16_to_be t @ u16_to_be c @ post"] assms(3) by simp
  moreover have "read_u16 ?p ?o = Inr t"
    using assms(3) by (auto simp: slice_simps nth_append u16_to_be_def be_simps)
  moreover have "read_u16 ?p (?o + 2) = Inr c"
    using assms(3) by (auto simp: slice_simps nth_append u16_to_be_def be_simps)
  ultimately show ?thesis using assms(2) by (auto simp: parse_question_eq_Inr)
qed

lemma parse_sections_eq_Inr:
  "parse_sections p = Inr (h, qs, rs, e) \<longleftrightarrow>
     (\<exists>o1. header_parse p = Inr h \<and>
        parse_many parse_question q_next_offset p (unat (h_question_count h)) 12 = Inr (qs, o1) \<and>
        parse_many parse_record rr_next_offset p (total_records h) o1 = Inr (rs, e))"
  by (auto simp: parse_sections_def result_simps DNS_HEADER_LEN_def)

lemma validate_type_windows_indices:
  assumes "require_offset offset 2 stop = Inr header_end" and "stop \<le> length p"
    and "0 < len" and "require_offset header_end len stop = Inr window_end"
  shows "offset + 1 < length p" and "window_end - 1 < length p"
  using assms by (auto simp: slice_simps)

lemma u32_top_bit_clear: "t AND 0x80000000 = (0 :: u32) \<Longrightarrow> unat t < 2 ^ 31"
proof -
  assume "t AND 0x80000000 = 0"
  then have "\<not> bit (t AND 0x80000000) 31" by simp
  moreover have "bit (0x80000000 :: u32) 31" by code_simp
  ultimately have "\<not> bit t 31" by (simp add: bit_and_iff)
  then have "\<not> bit (unat t) 31" by (simp add: bit_unsigned_iff)
  then have "even (unat t div 2 ^ 31)" by (simp add: bit_iff_odd)
  moreover have "unat t div 2 ^ 31 < 2"
    using unat_u32_less [of t] by (simp add: less_mult_imp_div_less)
  ultimately have "unat t div 2 ^ 31 = 0"
    by (metis less_2_cases odd_one One_nat_def)
  then show ?thesis by (simp add: div_eq_0_iff)
qed

lemma parse_record_rdata_lengths:
  assumes "parse_record p off = Inr r"
  shows "rr_rr_type r = TYPE_A \<Longrightarrow> length (rr_rdata r) = 4"
    and "rr_rr_type r = TYPE_AAAA \<Longrightarrow> length (rr_rdata r) = 16"
  using assms
  by (auto elim!: parse_record_Inr simp: validate_record_rdata_def Let_def require_rdata_length_def
      wire_type_defs split: if_splits)


lemma parse_many_rec:
  "parse_many parse nxt packet n offset =
     (if n = 0 then Inr ([], offset)
      else and_then (parse packet offset) (\<lambda>x.
        and_then (parse_many parse nxt packet (n - 1) (nxt x)) (\<lambda>(xs, offset). Inr (x # xs, offset))))"
  by (cases n) simp_all

lemmas codec_eval =
  name_eval header_parse_def parse_question_def query_type_is_valid_def parse_record_def
  validate_record_rdata_def require_rdata_length_def wire_type_defs total_records_def Let_def
  parse_sections_def parse_many_rec [of _ _ _ 1] parse_many_rec [of _ _ _ "Suc 0"]

section \<open>Properties\<close>

text \<open>A response with one question and one address record, whose owner is a compression pointer.\<close>

definition ex_response :: bytes where
  "ex_response =
    [0, 7, 0x81, 0x80, 0, 1, 0, 1, 0, 0, 0, 0,
     1, 97, 0, 0, 1, 0, 1,
     0xc0, 12, 0, 1, 0, 1, 0, 0, 0, 30, 0, 4, 192, 0, 2, 1]"




text \<open>
  C5: A parsed record has the layout of RFC 1035: its TTL, length and data fields follow the owner name
  in order, its data is the slice of the packet the record names and ends inside the packet; a TTL with
  the top bit set is read as 0 except for OPT; address records hold exactly 4 or 16 octets.
\<close>

theorem parse_record_bounds:
  assumes "parse_record p off = Inr r"
  shows "off < rr_ttl_offset r \<and> rr_ttl_offset r + 6 = rr_rdata_offset r \<and>
    rr_next_offset r = rr_rdata_offset r + length (rr_rdata r) \<and> rr_next_offset r \<le> length p \<and>
    rr_rdata r = take (length (rr_rdata r)) (drop (rr_rdata_offset r) p) \<and>
    (rr_rr_type r \<noteq> TYPE_OPT \<longrightarrow> unat (rr_ttl r) < 2 ^ 31) \<and>
    (rr_rr_type r = TYPE_A \<longrightarrow> length (rr_rdata r) = 4) \<and>
    (rr_rr_type r = TYPE_AAAA \<longrightarrow> length (rr_rdata r) = 16)"
proof -
  from assms obtain o1 t len where f: "read_name p off = Inr (rr_name r, o1)"
    "rr_ttl r = (if rr_rr_type r \<noteq> TYPE_OPT \<and> t AND 0x80000000 \<noteq> 0 then 0 else t)"
    "length (rr_rdata r) = unat len" "rr_ttl_offset r = o1 + 4" "rr_rdata_offset r = o1 + 10"
    "rr_next_offset r = o1 + 10 + unat len" "rr_next_offset r \<le> length p"
    "rr_rdata r = take (unat (len :: u16)) (drop (o1 + 10) p)"
    by (elim parse_record_Inr) blast
  show ?thesis
    using f read_name_bounds [OF f(1)] parse_record_rdata_lengths [OF assms] u32_top_bit_clear [of t] by auto
qed

theorem parse_record_bounds_witness:
  "\<exists>r. parse_record ex_response 19 = Inr r \<and> rr_rr_type r = TYPE_A \<and> length (rr_rdata r) = 4 \<and>
     rr_next_offset r \<le> length ex_response"
proof -
  obtain r where r: "parse_record ex_response 19 = Inr r" and t: "rr_rr_type r = TYPE_A"
    by (simp add: codec_eval ex_response_def)
  from r t parse_record_bounds [OF r] show ?thesis by blast
qed

text \<open>
  A record accepted by \<open>parse_uncompressed_record\<close> is the record \<open>parse_record\<close> reads there, and its
  owner name was read without following any compression pointer.
\<close>

theorem parse_uncompressed_record_no_pointer:
  assumes "parse_uncompressed_record p off = Inr r" and "addressable p"
  shows "parse_record p off = Inr r \<and> (\<exists>ls n. expands p off 0 ls n \<and> rr_name r = name_of_labels ls)"
proof -
  from assms(1) have u: "validate_uncompressed_name p off (length p) = Inr ()"
    and r: "parse_record p off = Inr r"
    by (auto simp: parse_uncompressed_record_def result_simps)
  from u assms(2) obtain ls where
    "expands p off 0 ls (off + length (wire_of_labels ls))"
    "read_name p off = Inr (name_of_labels ls, off + length (wire_of_labels ls))"
    by (rule read_name_uncompressed)
  moreover from r obtain o1 where "read_name p off = Inr (rr_name r, o1)"
    by (elim parse_record_Inr) blast
  ultimately show ?thesis using r by auto
qed

theorem parse_uncompressed_record_no_pointer_witness:
  "\<exists>r. parse_uncompressed_record [1, 97, 0, 0, 1, 0, 1, 0, 0, 0, 30, 0, 4, 192, 0, 2, 1] 0 = Inr r \<and>
     (\<exists>ls n. expands [1, 97, 0, 0, 1, 0, 1, 0, 0, 0, 30, 0, 4, 192, 0, 2, 1] 0 0 ls n \<and>
        rr_name r = name_of_labels ls)"
proof -
  let ?p = "[1, 97, 0, 0, 1, 0, 1, 0, 0, 0, 30, 0, 4, 192, 0, 2, 1] :: bytes"
  obtain r where r: "parse_uncompressed_record ?p 0 = Inr r"
    by (simp add: codec_eval parse_uncompressed_record_def validate_uncompressed_name_def
        validate_uncompressed_loop.simps require_offset_def validate_uncompressed_record_names_def)
  have "addressable ?p" by (simp add: USIZE_MAX_def)
  from r parse_uncompressed_record_no_pointer [OF r this] show ?thesis by blast
qed

end
