(* ===== verification/Wire_Packet.thy ===== *)
theory Wire_Packet
  imports Wire_Codec
begin

text \<open>
  Whole packets (\<open>src/src/wire/packet.rs\<close> and \<open>src/src/wire/error_response.rs\<close>): validation, queries,
  synthesized answers and error responses, cache lifetimes and TTL ageing. The properties follow a
  query through the codec: what \<open>make_query\<close> builds is valid and asks what was meant, and every
  response built for a valid query is itself valid and passes \<open>response_matches\<close> against that query.
\<close>

section \<open>Validation and questions\<close>

definition validate :: "bytes \<Rightarrow> bool \<Rightarrow> wire_error + unit" where
  "validate packet expect_response =
     and_then (parse_sections packet) (\<lambda>(header, questions, _, stop).
     if is_response header \<noteq> expect_response then Inl WrongDirection
     else if opcode header \<noteq> 0 then Inl (UnsupportedOpcode (opcode header))
     else if questions = [] then Inl NoQuestion
     else if \<not> expect_response \<and> h_question_count header \<noteq> 1
       then Inl (WrongQuestionCount (h_question_count header))
     else if \<not> expect_response \<and> truncated header then Inl TruncatedQuery
     else if \<not> expect_response \<and> h_answer_count header \<noteq> 0
       then Inl (QueryContainsAnswers (h_answer_count header))
     else if stop \<noteq> length packet then Inl TrailingData
     else Inr ())"

definition validate_native :: "bytes \<Rightarrow> bool \<Rightarrow> wire_error + unit" where
  "validate_native packet expect_response = validate packet expect_response"

definition first_question :: "bytes \<Rightarrow> wire_error + question" where
  "first_question packet =
     and_then (header_parse packet) (\<lambda>header.
     if h_question_count header = 0 then Inl NoQuestion
     else parse_question packet DNS_HEADER_LEN)"

definition question_end :: "bytes \<Rightarrow> wire_error + nat" where
  "question_end packet =
     and_then (header_parse packet) (\<lambda>header.
     if h_question_count header = 0 then Inl NoQuestion
     else
       and_then (parse_many parse_question q_next_offset packet (unat (h_question_count header))
                   DNS_HEADER_LEN) (\<lambda>(_, offset).
       Inr offset))"

definition response_matches :: "bytes \<Rightarrow> bytes \<Rightarrow> wire_error + unit" where
  "response_matches query response =
     and_then (validate query False) (\<lambda>_.
     and_then (validate response True) (\<lambda>_.
     and_then (header_parse query) (\<lambda>query_header.
     and_then (header_parse response) (\<lambda>response_header.
     if h_id query_header \<noteq> h_id response_header then Inl QuestionMismatch
     else
       and_then (first_question query) (\<lambda>query_question.
       and_then (first_question response) (\<lambda>response_question.
       if dn_canonical_wire (q_name query_question) \<noteq> dn_canonical_wire (q_name response_question)
          \<or> q_rr_type query_question \<noteq> q_rr_type response_question
          \<or> q_class query_question \<noteq> q_class response_question
       then Inl QuestionMismatch
       else Inr ()))))))"

section \<open>Queries\<close>

definition make_query_with_class :: "string \<Rightarrow> u16 \<Rightarrow> u16 \<Rightarrow> u16 \<Rightarrow> wire_error + bytes" where
  "make_query_with_class name rr_type cls qid =
     (if \<not> query_type_is_valid rr_type then Inl (InvalidQuestionType rr_type)
      else
        and_then (encode_name name) (\<lambda>encoded_name.
        Inr (u16_to_be qid @ u16_to_be FLAG_RD @ u16_to_be 1 @ replicate 6 0 @ encoded_name @
             u16_to_be rr_type @ u16_to_be cls)))"

definition make_query :: "string \<Rightarrow> u16 \<Rightarrow> u16 \<Rightarrow> wire_error + bytes" where
  "make_query name rr_type qid = make_query_with_class name rr_type CLASS_IN qid"

definition rewrite_id :: "bytes \<Rightarrow> u16 \<Rightarrow> wire_error + bytes" where
  "rewrite_id packet qid = write_u16 packet 0 qid"

section \<open>Error responses\<close>

definition servfail_for :: "bytes \<Rightarrow> wire_error + bytes" where
  "servfail_for query =
     and_then (validate query False) (\<lambda>_.
     and_then (question_end query) (\<lambda>qend.
     let response = take qend query in
     and_then (read_u16 response 2) (\<lambda>flags.
     let flags = flags OR (FLAG_QR OR FLAG_RA);
         flags = flags AND NOT (FLAG_AA OR FLAG_TC OR FLAG_AD OR RCODE_MASK);
         flags = flags OR 2 in
     and_then (write_u16 response 2 flags) (\<lambda>response.
     Inr (overwrite response 6 (replicate 6 0))))))"

definition response_with_code :: "bytes \<Rightarrow> u16 \<Rightarrow> bool \<Rightarrow> wire_error + bytes" where
  "response_with_code query code authoritative =
     and_then (validate query False) (\<lambda>_.
     and_then (question_end query) (\<lambda>qend.
     let response = take qend query in
     and_then (read_u16 response 2) (\<lambda>flags.
     let flags = flags OR (FLAG_QR OR FLAG_RA);
         flags = flags AND NOT (FLAG_AA OR FLAG_TC OR RCODE_MASK);
         flags = (if authoritative then flags OR FLAG_AA else flags);
         flags = flags OR code in
     and_then (write_u16 response 2 flags) (\<lambda>response.
     Inr (overwrite response 6 (replicate 6 0))))))"

definition refused_for :: "bytes \<Rightarrow> wire_error + bytes" where
  "refused_for query = response_with_code query 5 False"

definition nxdomain_for :: "bytes \<Rightarrow> wire_error + bytes" where
  "nxdomain_for query = response_with_code query 3 False"

definition authoritative_nxdomain_for :: "bytes \<Rightarrow> wire_error + bytes" where
  "authoritative_nxdomain_for query = response_with_code query 3 True"

section \<open>Synthesized answers\<close>

definition local_record_matches :: "question \<Rightarrow> local_record \<Rightarrow> bool" where
  "local_record_matches question record \<longleftrightarrow>
     \<not> (lr_rr_type record \<noteq> q_rr_type question \<and> lr_rr_type record \<noteq> TYPE_CNAME
        \<and> q_rr_type question \<noteq> 255)"

fun local_record_owner :: "local_record \<Rightarrow> wire_error + bytes" where
  "local_record_owner (LR_NamedA name _) = encode_name name"
| "local_record_owner (LR_NamedAaaa name _) = encode_name name"
| "local_record_owner _ = Inr [0xc0, 0x0c]"

fun local_record_rdata :: "local_record \<Rightarrow> wire_error + bytes" where
  "local_record_rdata (LR_A address) = Inr (ipv4_octets address)"
| "local_record_rdata (LR_Aaaa address) = Inr (ipv6_octets address)"
| "local_record_rdata (LR_NamedA _ address) = Inr (ipv4_octets address)"
| "local_record_rdata (LR_NamedAaaa _ address) = Inr (ipv6_octets address)"
| "local_record_rdata (LR_Cname name) = encode_name name"
| "local_record_rdata (LR_Ptr name) = encode_name name"

text \<open>The octets one turn of the loop of \<open>local_response\<close> appends, and the loop.\<close>

definition local_record_bytes :: "local_record \<Rightarrow> u32 \<Rightarrow> wire_error + bytes" where
  "local_record_bytes record ttl =
     and_then (local_record_owner record) (\<lambda>owner.
     and_then (local_record_rdata record) (\<lambda>rdata.
     and_then (ok_or (u16_try_from (length rdata)) ResponseTooLarge) (\<lambda>len.
     Inr (owner @ u16_to_be (lr_rr_type record) @ u16_to_be CLASS_IN @ u32_to_be ttl @
          u16_to_be len @ rdata))))"

fun local_response_loop ::
  "question \<Rightarrow> u32 \<Rightarrow> local_record list \<Rightarrow> bytes \<Rightarrow> wire_error + bytes" where
  "local_response_loop question ttl [] response = Inr response"
| "local_response_loop question ttl (record # records) response =
     (if \<not> local_record_matches question record
      then local_response_loop question ttl records response
      else
        and_then (local_record_bytes record ttl) (\<lambda>bs.
        let response = response @ bs in
        if length response > 65535 then Inl ResponseTooLarge
        else local_response_loop question ttl records response))"

text \<open>
  \<open>count_records_after_question\<close>: parse records up to the end of the packet, counting them in a
  \<open>u16\<close> with a checked addition.
\<close>

function count_records_loop :: "bytes \<Rightarrow> nat \<Rightarrow> u16 \<Rightarrow> wire_error + u16" where
  "count_records_loop packet offset count =
     (if offset < length packet then
        and_then (parse_record packet offset) (\<lambda>record.
        if unat count = 65535 then Inl ResponseTooLarge
        else count_records_loop packet (rr_next_offset record) (count + 1))
      else Inr count)"
  by pat_completeness auto

termination
  by (relation "measure (\<lambda>(p, off, c). length p - off)") (auto dest!: records.parse_progress)

declare count_records_loop.simps [simp del]

definition count_records_after_question :: "bytes \<Rightarrow> nat \<Rightarrow> wire_error + u16" where
  "count_records_after_question packet offset = count_records_loop packet offset 0"

definition local_response :: "bytes \<Rightarrow> local_record list \<Rightarrow> u32 \<Rightarrow> wire_error + bytes" where
  "local_response query records ttl =
     and_then (validate query False) (\<lambda>_.
     and_then (first_question query) (\<lambda>question.
     and_then (question_end query) (\<lambda>qend.
     let response = take qend query in
     and_then (read_u16 response 2) (\<lambda>flags.
     let flags = flags OR (FLAG_QR OR FLAG_AA OR FLAG_RA);
         flags = flags AND NOT (FLAG_TC OR RCODE_MASK) in
     and_then (write_u16 response 2 flags) (\<lambda>response.
     and_then (ok_or (u16_try_from (length records)) ResponseTooLarge) (\<lambda>n.
     and_then (write_u16 response 6 n) (\<lambda>response.
     let response = overwrite response 8 (replicate 4 0) in
     and_then (local_response_loop question ttl records response) (\<lambda>response.
     and_then (count_records_after_question response qend) (\<lambda>actual_answers.
     write_u16 response 6 actual_answers)))))))))"

section \<open>Lifetimes\<close>

definition soa_minimum :: "bytes \<Rightarrow> resource_record \<Rightarrow> wire_error + u32" where
  "soa_minimum packet record =
     and_then (read_name packet (rr_rdata_offset record)) (\<lambda>(_, first_end).
     and_then (read_name packet first_end) (\<lambda>(_, second_end).
     and_then (checked_end second_end 20) (\<lambda>fixed_end.
     if fixed_end \<noteq> rr_next_offset record then Inl InvalidRecord
     else read_u32 packet (second_end + 16))))"

definition range_or_empty :: "'a list \<Rightarrow> nat \<Rightarrow> nat \<Rightarrow> 'a list" where
  "range_or_empty xs a b = (case get_range xs a b of None \<Rightarrow> [] | Some ys \<Rightarrow> ys)"

definition soa_negative_ttl :: "bytes \<Rightarrow> resource_record \<Rightarrow> u32 option" where
  "soa_negative_ttl packet record =
     (case soa_minimum packet record of Inl _ \<Rightarrow> None | Inr minimum \<Rightarrow> Some (min (rr_ttl record) minimum))"

definition cache_lifetime :: "bytes \<Rightarrow> wire_error + u32 option" where
  "cache_lifetime packet =
     and_then (parse_sections packet) (\<lambda>(header, _, records, _).
     if \<not> is_response header then Inl WrongDirection
     else if list_ex (\<lambda>record. rr_rr_type record = TYPE_TSIG) records then Inr None
     else
       let answer_end = unat (h_answer_count header) in
       if response_code header = 3 \<or> h_answer_count header = 0 then
         let authority_end = answer_end + unat (h_authority_count header) in
         Inr (iter_min (List.map_filter (soa_negative_ttl packet)
                (filter (\<lambda>record. rr_rr_type record = TYPE_SOA)
                  (range_or_empty records answer_end authority_end))))
       else
         Inr (iter_min (map rr_ttl
                (filter (\<lambda>record. rr_rr_type record \<noteq> TYPE_OPT \<and> rr_rr_type record \<noteq> TYPE_TSIG)
                  (range_or_empty records 0 answer_end)))))"

fun age_ttls_loop :: "bytes \<Rightarrow> u32 \<Rightarrow> bool \<Rightarrow> (nat \<times> u32 \<times> u16) list \<Rightarrow> wire_error + bytes" where
  "age_ttls_loop packet elapsed_seconds stale [] = Inr packet"
| "age_ttls_loop packet elapsed_seconds stale ((offset, ttl, rr_type) # rest) =
     (if rr_type = TYPE_OPT then age_ttls_loop packet elapsed_seconds stale rest
      else
        let aged = (if stale then 0 else u32_saturating_sub ttl elapsed_seconds) in
        and_then (write_u32 packet offset aged) (\<lambda>packet.
        age_ttls_loop packet elapsed_seconds stale rest))"

definition age_ttls :: "bytes \<Rightarrow> u32 \<Rightarrow> bool \<Rightarrow> wire_error + bytes" where
  "age_ttls packet elapsed_seconds stale =
     and_then (parse_sections packet) (\<lambda>(_, _, records, _).
     age_ttls_loop packet elapsed_seconds stale
       (map (\<lambda>record. (rr_ttl_offset record, rr_ttl record, rr_rr_type record)) records))"

section \<open>Lemmas: layout of packets\<close>

lemma read_u16_drop:
  assumes "read_u16 p i = Inr w"
  shows "drop i p = u16_to_be w @ drop (i + 2) p"
  using assms by (simp add: slice_simps be_simps Cons_nth_drop_Suc)

lemma header_parse_words:
  "header_parse (u16_to_be a @ u16_to_be b @ u16_to_be c @ u16_to_be d @ u16_to_be e @ u16_to_be f @ rest) =
     Inr \<lparr>h_id = a, h_flags = b, h_question_count = c, h_answer_count = d, h_authority_count = e,
          h_additional_count = f\<rparr>"
  by (simp add: header_parse_eq_Inr u16_to_be_def be_simps)

lemma header_words:
  assumes "header_parse p = Inr h"
  shows "take 12 p = u16_to_be (h_id h) @ u16_to_be (h_flags h) @ u16_to_be (h_question_count h) @
    u16_to_be (h_answer_count h) @ u16_to_be (h_authority_count h) @ u16_to_be (h_additional_count h)"
proof -
  from assms have l: "12 \<le> length p" by (simp add: header_parse_eq_Inr)
  have "take 12 p = map ((!) p) [0..<12]"
    using l by (intro nth_equalityI) auto
  also have "[0..<12] = [0, 1, 2, 3, 4, 5, 6, 7, 8, 9, 10, 11]" by (simp add: upt_rec)
  finally show ?thesis using assms by (auto simp: header_parse_eq_Inr be_simps)
qed

lemma validate_eq_Inr:
  "validate p b = Inr () \<longleftrightarrow>
     (\<exists>h qs rs. parse_sections p = Inr (h, qs, rs, length p) \<and> is_response h = b \<and> opcode h = 0 \<and>
        qs \<noteq> [] \<and> (b \<or> h_question_count h = 1 \<and> \<not> truncated h \<and> h_answer_count h = 0))"
  by (cases "parse_sections p") (auto simp: validate_def split: if_splits)

lemma parse_many_one:
  "parse_many parse nxt p 1 off = Inr (xs, e) \<longleftrightarrow> (\<exists>x. parse p off = Inr x \<and> xs = [x] \<and> e = nxt x)"
  by (auto simp: parse_many_rec [of _ _ _ 1] result_simps)

lemma validate_query_question:
  assumes "validate q False = Inr ()"
  obtains h qn rs where "header_parse q = Inr h" and "h_question_count h = 1" and "is_response h = False"
    and "opcode h = 0" and "\<not> truncated h" and "h_answer_count h = 0"
    and "parse_question q 12 = Inr qn" and "first_question q = Inr qn"
    and "question_end q = Inr (q_next_offset qn)" and "q_next_offset qn \<le> length q"
    and "parse_many parse_record rr_next_offset q (total_records h) (q_next_offset qn) = Inr (rs, length q)"
proof -
  from assms obtain h qs rs where s: "parse_sections q = Inr (h, qs, rs, length q)"
    and h: "is_response h = False" "opcode h = 0" "h_question_count h = 1" "\<not> truncated h" "h_answer_count h = 0"
    by (auto simp: validate_eq_Inr)
  from s obtain o1 where hp: "header_parse q = Inr h"
    and m: "parse_many parse_question q_next_offset q 1 12 = Inr (qs, o1)"
    and r: "parse_many parse_record rr_next_offset q (total_records h) o1 = Inr (rs, length q)"
    by (auto simp: parse_sections_eq_Inr h)
  from m [unfolded parse_many_one] obtain qn
    where qn: "parse_question q 12 = Inr qn" "qs = [qn]" "o1 = q_next_offset qn" by blast
  have fq: "first_question q = Inr qn" "question_end q = Inr (q_next_offset qn)"
    using hp h(3) qn m by (simp_all add: first_question_def question_end_def DNS_HEADER_LEN_def)
  show ?thesis
    using that [OF hp h(3,1,2,4,5) qn(1) fq _ r [unfolded qn]] questions.parse_progress [OF qn(1)] by simp
qed

text \<open>A validated query whose question name uses no compression, taken apart.\<close>

lemma query_decompose:
  assumes "validate q False = Inr ()" and "validate_uncompressed_name q 12 (length q) = Inr ()"
    and "addressable q"
  obtains h ls t c rest where "header_parse q = Inr h" and "h_question_count h = 1" and "opcode h = 0"
    and "valid_labels ls" and "query_type_is_valid t"
    and "q = take 12 q @ wire_of_labels ls @ u16_to_be t @ u16_to_be c @ rest"
    and "first_question q = Inr \<lparr>q_name = name_of_labels ls, q_rr_type = t, q_class = c,
           q_next_offset = 12 + length (wire_of_labels ls) + 4\<rparr>"
    and "question_end q = Inr (12 + length (wire_of_labels ls) + 4)"
proof -
  from assms(1) obtain h qn where h: "header_parse q = Inr h" "h_question_count h = 1" "opcode h = 0"
    and qn: "parse_question q 12 = Inr qn" "first_question q = Inr qn" "question_end q = Inr (q_next_offset qn)"
    by (rule validate_query_question)
  from assms(2) obtain ls where ls: "valid_labels ls"
    and q: "q = take 12 q @ wire_of_labels ls @ drop (12 + length (wire_of_labels ls)) q"
    by (rule validate_uncompressed_name_decompose)
  let ?o = "12 + length (wire_of_labels ls)"
  have l12: "length (take 12 q) = 12" using h(1) by (simp add: header_parse_eq_Inr)
  have rn: "read_name q 12 = Inr (name_of_labels ls, ?o)"
    using read_name_wire [OF ls, of "take 12 q" "drop ?o q"] assms(3) q l12 by simp
  with qn(1) obtain t c where t: "read_u16 q ?o = Inr t" "query_type_is_valid t" "read_u16 q (?o + 2) = Inr c"
    and qneq: "qn = \<lparr>q_name = name_of_labels ls, q_rr_type = t, q_class = c, q_next_offset = ?o + 4\<rparr>"
    by (auto simp: parse_question_eq_Inr)
  have "drop ?o q = u16_to_be t @ u16_to_be c @ drop (?o + 2 + 2) q"
    using read_u16_drop [OF t(1)] read_u16_drop [OF t(3)] by simp
  with q have "q = take 12 q @ wire_of_labels ls @ u16_to_be t @ u16_to_be c @ drop (?o + 2 + 2) q"
    by metis
  then show ?thesis using that [OF h ls t(2)] qn qneq by simp
qed

text \<open>A header followed by one uncompressed question.\<close>

lemma parse_question_packet:
  assumes "length hdr = 12" and "header_parse hdr = Inr h" and "h_question_count h = 1"
    and "valid_labels ls" and "query_type_is_valid t"
    and "addressable (hdr @ wire_of_labels ls @ u16_to_be t @ u16_to_be c @ post)"
  defines "p \<equiv> hdr @ wire_of_labels ls @ u16_to_be t @ u16_to_be c @ post"
  defines "qn \<equiv> \<lparr>q_name = name_of_labels ls, q_rr_type = t, q_class = c,
                  q_next_offset = 12 + length (wire_of_labels ls) + 4\<rparr>"
  shows "header_parse p = Inr h" and "first_question p = Inr qn"
    and "question_end p = Inr (q_next_offset qn)"
    and "parse_sections p = and_then
      (parse_many parse_record rr_next_offset p (total_records h) (q_next_offset qn))
      (\<lambda>(rs, e). Inr (h, [qn], rs, e))"
proof -
  show hp: "header_parse p = Inr h"
    using header_parse_append [of hdr] assms(1,2) by (simp add: p_def)
  have pq: "parse_question p 12 = Inr qn"
    using parse_question_wire [OF assms(4,5,6)] assms(1) by (simp add: p_def qn_def)
  then have m: "parse_many parse_question q_next_offset p 1 12 = Inr ([qn], q_next_offset qn)"
    unfolding parse_many_one by blast
  show "first_question p = Inr qn" "question_end p = Inr (q_next_offset qn)"
    using hp pq m assms(3) by (simp_all add: first_question_def question_end_def DNS_HEADER_LEN_def)
  show "parse_sections p = and_then
      (parse_many parse_record rr_next_offset p (total_records h) (q_next_offset qn))
      (\<lambda>(rs, e). Inr (h, [qn], rs, e))"
    using hp m assms(3) by (simp add: parse_sections_def DNS_HEADER_LEN_def)
qed

section \<open>Lemmas: flags of responses\<close>

lemma u16_nibble: "c \<le> 15 \<Longrightarrow> c AND 15 = (c :: u16)"
proof -
  assume "c \<le> 15"
  then have "unat c < 2 ^ 4" by (simp add: word_le_nat_alt)
  then have "take_bit 4 c = c" by (simp add: word_unat_eq_iff unsigned_take_bit_eq take_bit_nat_eq_self)
  moreover have "(15 :: u16) = mask 4" by (simp add: mask_eq_exp_minus_1)
  ultimately show ?thesis by (simp add: take_bit_eq_mask)
qed

lemma u16_nibble_high:
  assumes "c \<le> (15 :: u16)" and "15 AND m = (0 :: u16)"
  shows "c AND m = 0"
proof -
  have "c AND m = (c AND 15) AND m" using u16_nibble [OF assms(1)] by simp
  also have "\<dots> = c AND (15 AND m)" by (simp only: and.assoc)
  finally show ?thesis using assms(2) by simp
qed

text \<open>
  What a flag word answers under a mask after \<open>flags |= on; flags &= keep; flags |= code\<close>.
\<close>

lemma reply_flags_and:
  fixes f on keep code m :: u16
  shows "((f OR on) AND keep OR code) AND m =
    (f AND (keep AND m)) OR (on AND (keep AND m)) OR (code AND m)"
  by (simp only: bit.conj_disj_distrib2 and.assoc or.assoc)

lemmas flag_eval = header_flag_defs wire_flag_defs reply_flags_and

text \<open>
  The flag words of the error responses: \<open>servfail_for\<close> clears AD as well, \<open>response_with_code\<close> sets AA
  on demand.
\<close>

definition error_flags :: "u16 \<Rightarrow> u16 \<Rightarrow> u16 \<Rightarrow> u16" where
  "error_flags clear code f = (f OR (FLAG_QR OR FLAG_RA)) AND NOT (FLAG_AA OR FLAG_TC OR clear OR RCODE_MASK) OR code"

lemma error_flags_header:
  assumes "opcode h = 0" and "code \<le> 15 \<or> (\<exists>c \<le> 15. code = FLAG_AA OR c)" and "clear \<in> {0, FLAG_AD}"
  defines "h' \<equiv> h\<lparr>h_flags := error_flags clear code (h_flags h)\<rparr>"
  shows "is_response h'" and "opcode h' = 0" and "response_code h' = code AND 15"
    and "\<not> truncated h'" and "authentic_data h' \<longleftrightarrow> authentic_data h \<and> clear = 0"
    and "recursion_desired h' = recursion_desired h" and "checking_disabled h' = checking_disabled h"
    and "h_flags h' AND FLAG_AA = code AND FLAG_AA"
proof -
  have code: "code AND m = 0" if "15 AND m = 0" "FLAG_AA AND m = 0" for m :: u16
    using assms(2) that u16_nibble_high [of _ m] by (auto simp: bit.conj_disj_distrib2)
  note e = h'_def error_flags_def flag_eval
  have "h_flags h' AND 0x7800 = h_flags h AND 0x7800" using assms(3) code by (auto simp: e)
  then show "opcode h' = 0" using assms(1) by (simp only: opcode_def FLAG_OPCODE_def)
  show "\<not> truncated h'" "response_code h' = code AND 15"
    "authentic_data h' \<longleftrightarrow> authentic_data h \<and> clear = 0"
    "recursion_desired h' = recursion_desired h" "checking_disabled h' = checking_disabled h"
    "h_flags h' AND FLAG_AA = code AND FLAG_AA"
    using assms(3) code by (auto simp: e)
  have "h_flags h' AND 0x8000 = 0x8000" using assms(3) code by (auto simp: e)
  then show "is_response h'" by (simp add: flag_eval)
qed

lemma overwrite_append:
  "length a = i \<Longrightarrow> length b = length v \<Longrightarrow> overwrite (a @ b @ c) i v = a @ v @ c"
  by (simp add: overwrite_def)

lemma six_zeros: "replicate 6 0 = u16_to_be 0 @ u16_to_be 0 @ u16_to_be 0"
proof -
  have "u16_to_be 0 = [0, 0]" by (simp add: u16_to_be_def)
  then show ?thesis by (simp add: numeral_eq_Suc)
qed

text \<open>The bytes of an error response: the question of the query under a rewritten header.\<close>

definition error_reply :: "bytes \<Rightarrow> nat \<Rightarrow> u16 \<Rightarrow> bytes" where
  "error_reply q qend f = overwrite (overwrite (take qend q) 2 (u16_to_be f)) 6 (replicate 6 0)"

definition error_header :: "header \<Rightarrow> u16 \<Rightarrow> header" where
  "error_header h f = h\<lparr>h_flags := f, h_answer_count := 0, h_authority_count := 0, h_additional_count := 0\<rparr>"

lemma error_reply_matches:
  assumes "validate q False = Inr ()" and "validate_uncompressed_name q 12 (length q) = Inr ()"
    and "addressable q" and "header_parse q = Inr h" and "question_end q = Inr qend"
    and op: "opcode (h\<lparr>h_flags := f\<rparr>) = 0" and resp: "is_response (h\<lparr>h_flags := f\<rparr>)"
  shows "response_matches q (error_reply q qend f) = Inr ()"
    and "header_parse (error_reply q qend f) = Inr (error_header h f)"
proof -
  obtain h' ls t c rest where hq': "header_parse q = Inr h'" "h_question_count h' = 1" "opcode h' = 0"
    and ls: "valid_labels ls" and t: "query_type_is_valid t"
    and q: "q = take 12 q @ wire_of_labels ls @ u16_to_be t @ u16_to_be c @ rest"
    and fq: "first_question q = Inr \<lparr>q_name = name_of_labels ls, q_rr_type = t, q_class = c,
           q_next_offset = 12 + length (wire_of_labels ls) + 4\<rparr>"
    and qe: "question_end q = Inr (12 + length (wire_of_labels ls) + 4)"
    by (rule query_decompose [OF assms(1-3)])
  from hq' assms(4) have hq: "h_question_count h = 1" by simp
  let ?body = "wire_of_labels ls @ u16_to_be t @ u16_to_be c"
  have n: "qend = 12 + length (wire_of_labels ls) + 4" using qe assms(5) by simp
  have l12: "length (take 12 q) = 12" using assms(4) by (simp add: header_parse_eq_Inr)
  have lq: "qend \<le> length q" using arg_cong [OF q, of length] l12 n by simp
  have tk: "take qend q = take 12 q @ ?body" using l12 n by (subst q) simp
  let ?rest = "u16_to_be (h_answer_count h) @ u16_to_be (h_authority_count h) @ u16_to_be (h_additional_count h)"
  have hw: "take 12 q = u16_to_be (h_id h) @ u16_to_be (h_flags h) @ u16_to_be 1 @ ?rest"
    using header_words [OF assms(4)] hq by simp
  let ?hdr = "u16_to_be (h_id h) @ u16_to_be f @ u16_to_be 1 @ u16_to_be 0 @ u16_to_be 0 @ u16_to_be 0"
  have "overwrite (take qend q) 2 (u16_to_be f) = u16_to_be (h_id h) @ u16_to_be f @ u16_to_be 1 @ ?rest @ ?body"
    unfolding tk hw by (simp add: overwrite_append [of "u16_to_be (h_id h)" _ "u16_to_be (h_flags h)"])
  then have r: "error_reply q qend f = ?hdr @ ?body"
    using overwrite_append [of "u16_to_be (h_id h) @ u16_to_be f @ u16_to_be 1" 6 ?rest "replicate 6 0" ?body]
    by (simp add: six_zeros error_reply_def)
  have hp: "header_parse ?hdr = Inr (error_header h f)"
    using header_parse_words [of "h_id h" f 1 0 0 0 "[]"] hq by (cases h) (simp add: error_header_def)
  have addr: "addressable (?hdr @ wire_of_labels ls @ u16_to_be t @ u16_to_be c @ [])"
    using lq assms(3) n by simp
  have qc: "h_question_count (error_header h f) = 1" using hq by (simp add: error_header_def)
  note pk = parse_question_packet [OF _ hp qc ls t addr, simplified]
  have "validate (?hdr @ ?body) True = Inr ()"
    using pk(4) op resp by (auto simp: validate_eq_Inr total_records_def header_flag_defs error_header_def)
  then show "response_matches q (error_reply q qend f) = Inr ()"
    using assms(1,4) pk fq unfolding r by (simp add: response_matches_def error_header_def)
  show "header_parse (error_reply q qend f) = Inr (error_header h f)" using pk(1) unfolding r by simp
qed

text \<open>The steps \<open>servfail_for\<close> and \<open>response_with_code\<close> share: the flags of the query are readable and writable.\<close>

lemma error_reply_steps:
  assumes "validate q False = Inr ()" and "header_parse q = Inr h"
  obtains qend where "question_end q = Inr qend" and "opcode h = 0"
    and "read_u16 (take qend q) 2 = Inr (h_flags h)"
    and "\<forall>f. write_u16 (take qend q) 2 f = Inr (overwrite (take qend q) 2 (u16_to_be f))"
proof -
  from assms obtain qn where qn: "parse_question q 12 = Inr qn" "question_end q = Inr (q_next_offset qn)"
    and op: "opcode h = 0" by (auto elim: validate_query_question)
  have b: "17 \<le> q_next_offset qn" "q_next_offset qn \<le> length q"
    using questions.parse_progress [OF qn(1)] by simp_all
  then have "read_u16 (take (q_next_offset qn) q) 2 = Inr (h_flags h)"
    using assms(2) by (simp add: read_u16_eq_Inr header_parse_eq_Inr USIZE_MAX_def)
  moreover have "4 \<le> q_next_offset qn" using b(1) by linarith
  ultimately show ?thesis using b(2) qn(2) op by (intro that) (simp_all add: write_u16_eq_Inr USIZE_MAX_def)
qed

section \<open>Lemmas: error responses\<close>

lemma servfail_for_eq:
  assumes "validate q False = Inr ()" and "header_parse q = Inr h"
  obtains qend where "question_end q = Inr qend" and "opcode h = 0"
    and "servfail_for q = Inr (error_reply q qend (error_flags FLAG_AD 2 (h_flags h)))"
proof -
  obtain qend where qe: "question_end q = Inr qend" "opcode h = 0" "read_u16 (take qend q) 2 = Inr (h_flags h)"
    and w: "\<forall>f. write_u16 (take qend q) 2 f = Inr (overwrite (take qend q) 2 (u16_to_be f))"
    by (rule error_reply_steps [OF assms])
  then show ?thesis using assms(1)
    by (intro that) (simp_all only: servfail_for_def error_reply_def error_flags_def and_then_Inr Let_def)
qed

lemma response_with_code_eq:
  assumes "validate q False = Inr ()" and "header_parse q = Inr h"
  obtains qend where "question_end q = Inr qend" and "opcode h = 0"
    and "response_with_code q code aa =
      Inr (error_reply q qend (error_flags 0 (if aa then FLAG_AA OR code else code) (h_flags h)))"
proof -
  obtain qend where qe: "question_end q = Inr qend" "opcode h = 0" "read_u16 (take qend q) 2 = Inr (h_flags h)"
    and w: "\<forall>f. write_u16 (take qend q) 2 f = Inr (overwrite (take qend q) 2 (u16_to_be f))"
    by (rule error_reply_steps [OF assms])
  let ?g = "(h_flags h OR (FLAG_QR OR FLAG_RA)) AND NOT (FLAG_AA OR FLAG_TC OR RCODE_MASK)"
  have "(if aa then ?g OR FLAG_AA else ?g) OR code =
      error_flags 0 (if aa then FLAG_AA OR code else code) (h_flags h)"
    by (simp add: error_flags_def or.assoc)
  with qe w show ?thesis using assms(1)
    by (intro that) (simp_all only: response_with_code_def error_reply_def and_then_Inr Let_def)
qed

section \<open>Properties: queries and error responses\<close>

lemmas packet_eval =
  codec_eval validate_def first_question_def question_end_def header_flag_defs wire_flag_defs
  validate_uncompressed_name_def validate_uncompressed_loop.simps require_offset_def

text \<open>
  A query that \<open>make_query_with_class\<close> builds passes \<open>validate\<close>, asks for recursion under the given
  id, and its first question is the given name, type and class: the name read back has the canonical
  form of the encoded name, and the question ends where the packet ends.
\<close>

theorem make_query_valid:
  assumes "make_query_with_class name t c i = Inr p"
  shows "validate p False = Inr () \<and>
    (\<exists>h. header_parse p = Inr h \<and> h_id h = i \<and> recursion_desired h \<and> \<not> checking_disabled h) \<and>
    (\<exists>n w. encode_name name = Inr w \<and> dn_canonical_wire n = map ascii_lower w \<and>
       encode_name (dn_text n) = Inr w \<and>
       first_question p = Inr \<lparr>q_name = n, q_rr_type = t, q_class = c, q_next_offset = length p\<rparr>)"
proof -
  from assms have t: "query_type_is_valid t" by (simp add: make_query_with_class_def split: if_splits)
  with assms obtain w where w: "encode_name name = Inr w"
    and p: "p = u16_to_be i @ u16_to_be FLAG_RD @ u16_to_be 1 @ replicate 6 0 @ w @ u16_to_be t @ u16_to_be c"
    by (auto simp: make_query_with_class_def result_simps)
  from w obtain ls where ls: "valid_labels ls" "w = wire_of_labels ls" by (auto simp: encode_name_eq_Inr)
  let ?hdr = "u16_to_be i @ u16_to_be FLAG_RD @ u16_to_be 1 @ u16_to_be 0 @ u16_to_be 0 @ u16_to_be 0"
  let ?h = "\<lparr>h_id = i, h_flags = FLAG_RD, h_question_count = 1, h_answer_count = 0,
    h_authority_count = 0, h_additional_count = 0\<rparr>"
  have hp: "header_parse ?hdr = Inr ?h" using header_parse_words [of i FLAG_RD 1 0 0 0 "[]"] by simp
  have addr: "addressable (?hdr @ wire_of_labels ls @ u16_to_be t @ u16_to_be c @ [])"
    using ls(1) by (simp add: valid_labels_def USIZE_MAX_def)
  have p': "p = ?hdr @ wire_of_labels ls @ u16_to_be t @ u16_to_be c" using p ls(2) by (simp add: six_zeros)
  note pk = parse_question_packet [OF _ hp _ ls(1) t addr, simplified, folded p' [simplified]]
  have lp: "length p = 12 + length (wire_of_labels ls) + 4" by (simp add: p')
  have v: "validate p False = Inr ()"
    using pk(4) lp by (auto simp: validate_eq_Inr total_records_def header_flag_defs wire_flag_defs)
  have "dn_canonical_wire (name_of_labels ls) = map ascii_lower w" "encode_name (dn_text (name_of_labels ls)) = Inr w"
    using ls encode_name_text canonical_of_labels_lower
    by (simp_all add: name_of_labels_def valid_labels_def)
  with v pk(1,2) w lp show ?thesis by (auto simp: header_flag_defs wire_flag_defs)
qed

theorem make_query_valid_witness:
  "\<exists>p. make_query_with_class ''Ab.c'' TYPE_AAAA CLASS_IN 7 = Inr p \<and> validate p False = Inr ()"
proof -
  obtain p where p: "make_query_with_class ''Ab.c'' TYPE_AAAA CLASS_IN 7 = Inr p"
    by (simp add: make_query_with_class_def encode_eval query_type_is_valid_def wire_type_defs)
  from p make_query_valid [OF p] show ?thesis by blast
qed


definition ex_query :: bytes where
  "ex_query = [0, 7, 1, 0, 0, 1, 0, 0, 0, 0, 0, 0, 1, 97, 0, 0, 1, 0, 1]"

lemma ex_query_valid:
  "validate ex_query False = Inr ()" "validate_uncompressed_name ex_query 12 (length ex_query) = Inr ()"
  "addressable ex_query" "\<exists>h. header_parse ex_query = Inr h"
  by (simp_all add: packet_eval ex_query_def)




section \<open>Lemmas: records in a packet\<close>

text \<open>A record written field by field after a readable owner name is parsed back.\<close>

lemma parse_record_layout:
  assumes "read_name p off = Inr (name, length pre)"
    and p: "p = pre @ u16_to_be t @ u16_to_be c @ u32_to_be ttl @ u16_to_be len @ rdata @ post"
    and "length rdata = unat len" and "c \<noteq> CLASS_ANY" and "t \<notin> {TYPE_IXFR, TYPE_AXFR, TYPE_ANY}"
    and "addressable p"
    and r: "r = \<lparr>rr_name = name, rr_rr_type = t, rr_class = c,
      rr_ttl = (if t \<noteq> TYPE_OPT \<and> ttl AND 0x80000000 \<noteq> 0 then 0 else ttl),
      rr_ttl_offset = length pre + 4, rr_rdata_offset = length pre + 10, rr_rdata = rdata,
      rr_next_offset = length pre + 10 + unat len\<rparr>"
    and "validate_record_rdata p r = Inr ()"
  shows "parse_record p off = Inr r"
proof -
  let ?o = "length pre"
  have len: "?o + 10 + unat len \<le> length p" "?o + 10 + unat len \<le> USIZE_MAX"
    using p assms(3,6) by simp_all
  have "read_u16 p ?o = Inr t" "read_u16 p (?o + 2) = Inr c" "read_u32 p (?o + 4) = Inr ttl"
    "read_u16 p (?o + 8) = Inr len"
    using len unfolding p
    by (simp_all add: read_u16_eq_Inr read_u32_eq_Inr nth_append u16_to_be_def u32_to_be_def be_simps)
  moreover have "checked_end (?o + 10) (unat len) = Inr (?o + 10 + unat len)"
    using len by (simp add: checked_end_eq_Inr)
  moreover have "get_range p (?o + 10) (?o + 10 + unat len) = Some rdata"
    using len assms(3) unfolding p by (simp add: get_range_eq_Some)
  ultimately show ?thesis
    using assms(1,4,5,8) r unfolding parse_record_def by (simp add: Let_def)
qed

lemma read_name_pointer:
  assumes "expands p 12 0 ls n" and "valid_labels ls" and "addressable p"
    and "p = pre @ [0xc0, 0x0c] @ post" and "12 < length pre"
  shows "read_name p (length pre) = Inr (name_of_labels ls, length pre + 2)"
proof -
  have b: "p ! length pre = 0xc0" "p ! Suc (length pre) = 0x0c" "Suc (length pre) < length p"
    using assms(4) by (simp_all add: nth_append)
  have "12 = push_bit 8 (unat ((0xc0 :: u8) AND 0x3f)) OR unat (0x0c :: u8)" by simp
  then have "expands p (length pre) (Suc 0) ls (Suc (Suc (length pre)))"
    using assms(1,5) b by (intro expands_pointer) simp_all
  then show ?thesis using read_name_complete assms(2,3) by fastforce
qed

lemma length_be_octets [simp]: "length (be_octets k n) = k"
  by (induction k arbitrary: n) auto

lemma local_record_rdata_valid:
  assumes "local_record_rdata lr = Inr rdata" and "addressable (pre @ rdata @ post)"
    and "rr_rr_type r = lr_rr_type lr" and "rr_rdata r = rdata"
    and "rr_rdata_offset r = length pre" and "rr_next_offset r = length pre + length rdata"
  shows "validate_record_rdata (pre @ rdata @ post) r = Inr ()"
proof -
  have name: "require_name_end (pre @ rdata @ post) (length pre) (length pre + length rdata) True = Inr ()"
    if "encode_name s = Inr rdata" for s
    using dns.decode_encoded [OF that assms(2)]
    by (auto simp: require_name_end_def read_bounded_name_def require_exact_end_def)
  show ?thesis using assms name
    by (cases lr) (auto simp: validate_record_rdata_def Let_def wire_type_defs require_rdata_length_def
        ipv4_octets_def ipv6_octets_def)
qed

lemma local_record_bytes_eq_Inr:
  "local_record_bytes lr ttl = Inr bs \<longleftrightarrow>
     (\<exists>owner rdata. local_record_owner lr = Inr owner \<and> local_record_rdata lr = Inr rdata \<and>
        length rdata \<le> 65535 \<and>
        bs = owner @ u16_to_be (lr_rr_type lr) @ u16_to_be CLASS_IN @ u32_to_be ttl @
          u16_to_be (of_nat (length rdata)) @ rdata)"
  by (auto simp: local_record_bytes_def result_simps be_simps)

text \<open>What the answers of \<open>local_response\<close> parse to.\<close>

definition answers_record :: "u32 \<Rightarrow> local_record \<Rightarrow> resource_record \<Rightarrow> bool" where
  "answers_record ttl lr r \<longleftrightarrow> rr_rr_type r = lr_rr_type lr \<and> rr_class r = CLASS_IN \<and>
     local_record_rdata lr = Inr (rr_rdata r) \<and>
     rr_ttl r = (if ttl AND 0x80000000 \<noteq> 0 then 0 else ttl)"

lemma local_record_parsed:
  assumes "local_record_bytes lr ttl = Inr bs"
    and p: "p = pre @ bs @ post" and "12 < length pre" and "addressable p"
    and "expands p 12 0 ls n" and "valid_labels ls"
  obtains r where "parse_record p (length pre) = Inr r" and "answers_record ttl lr r"
    and "rr_next_offset r = length pre + length bs"
proof -
  from assms(1) obtain owner rdata where o: "local_record_owner lr = Inr owner"
    and rd: "local_record_rdata lr = Inr rdata" "length rdata \<le> 65535"
    and bs: "bs = owner @ u16_to_be (lr_rr_type lr) @ u16_to_be CLASS_IN @ u32_to_be ttl @
          u16_to_be (of_nat (length rdata)) @ rdata"
    by (auto simp: local_record_bytes_eq_Inr)
  have "\<exists>name. read_name p (length pre) = Inr (name, length pre + length owner)"
  proof (cases "\<exists>s. encode_name s = Inr owner")
    case True
    then obtain s where s: "encode_name s = Inr owner" ..
    let ?post = "drop (length owner) bs @ post"
    have "p = pre @ owner @ ?post" by (simp add: p bs)
    then show ?thesis using dns.decode_encoded [OF s, of pre ?post] assms(4) by auto
  next
    case False
    with o have ow: "owner = [0xc0, 0x0c]" by (cases lr) auto
    show ?thesis
      using read_name_pointer [OF assms(5,6,4), of pre] assms(3) unfolding p bs ow by auto
  qed
  then obtain name where rn: "read_name p (length pre) = Inr (name, length (pre @ owner))" by auto
  let ?len = "of_nat (length rdata) :: u16" and ?t = "lr_rr_type lr"
  have len: "unat ?len = length rdata" using rd(2) by (simp add: unat_of_nat_u16)
  have ty: "?t \<notin> {TYPE_IXFR, TYPE_AXFR, TYPE_ANY, TYPE_OPT}" by (cases lr) (auto simp: wire_type_defs)
  let ?r = "\<lparr>rr_name = name, rr_rr_type = ?t, rr_class = CLASS_IN,
      rr_ttl = (if ?t \<noteq> TYPE_OPT \<and> ttl AND 0x80000000 \<noteq> 0 then 0 else ttl),
      rr_ttl_offset = length (pre @ owner) + 4, rr_rdata_offset = length (pre @ owner) + 10,
      rr_rdata = rdata, rr_next_offset = length (pre @ owner) + 10 + unat ?len\<rparr>"
  have p': "p = (pre @ owner) @ u16_to_be ?t @ u16_to_be CLASS_IN @ u32_to_be ttl @ u16_to_be ?len @ rdata @ post"
    by (simp add: p bs)
  let ?pre = "(pre @ owner) @ u16_to_be ?t @ u16_to_be CLASS_IN @ u32_to_be ttl @ u16_to_be ?len"
  have "validate_record_rdata (?pre @ rdata @ post) ?r = Inr ()"
    using assms(4) p' by (intro local_record_rdata_valid [OF rd(1)]) (simp_all add: len)
  then have "parse_record p (length pre) = Inr ?r"
    using ty assms(4) len p'
    by (intro parse_record_layout [OF rn p' _ _ _ _ refl]) (auto simp: wire_type_defs)
  then show ?thesis by (rule that) (use ty rd(1) in \<open>auto simp: answers_record_def bs len\<close>)
qed

lemma local_records_parsed:
  assumes "list_all2 (\<lambda>lr bs. local_record_bytes lr ttl = Inr bs) lrs bss"
    and p: "p = pre @ concat bss" and "12 < length pre" and "addressable p"
    and "expands p 12 0 ls n" and "valid_labels ls"
  shows "\<exists>rs. parse_many parse_record rr_next_offset p (length lrs) (length pre) = Inr (rs, length p) \<and>
    list_all2 (answers_record ttl) lrs rs"
  using assms(1-3)
proof (induction arbitrary: pre rule: list_all2_induct)
  case (Cons lr lrs bs bss)
  obtain r where r: "parse_record p (length pre) = Inr r" "answers_record ttl lr r"
    "rr_next_offset r = length pre + length bs"
    using Cons.prems Cons.hyps(1) assms(4,5,6) by (auto elim: local_record_parsed)
  have "p = (pre @ bs) @ concat bss" "12 < length (pre @ bs)" using Cons.prems by auto
  from Cons.IH [OF this] obtain rs where
    "parse_many parse_record rr_next_offset p (length lrs) (length pre + length bs) = Inr (rs, length p)"
    "list_all2 (answers_record ttl) lrs rs" by auto
  with r show ?case by auto
qed (simp add: p)

lemma count_records_loop_many:
  assumes "parse_many parse_record rr_next_offset p n off = Inr (rs, length p)" and "unat c + n \<le> 65535"
  shows "count_records_loop p off c = Inr (c + of_nat n)"
  using assms
proof (induction n arbitrary: off c rs)
  case 0
  then show ?case by (simp add: count_records_loop.simps [of p "length p"])
next
  case (Suc n)
  then obtain r rs' where r: "parse_record p off = Inr r"
    and rest: "parse_many parse_record rr_next_offset p n (rr_next_offset r) = Inr (rs', length p)"
    by (auto simp: result_simps)
  have off: "off < length p" using records.parse_progress [OF r] by simp
  have "unat (c + 1) = unat c + 1"
    using Suc.prems(2) by (simp add: unat_word_ariths)
  with Suc.prems(2) have "count_records_loop p (rr_next_offset r) (c + 1) = Inr (c + 1 + of_nat n)"
    by (intro Suc.IH [OF rest]) simp
  then show ?case
    using r off Suc.prems(2) by (simp add: count_records_loop.simps [of p off] ac_simps)
qed

lemma local_response_loop_eq:
  assumes "map_result (\<lambda>lr. local_record_bytes lr ttl) (filter (local_record_matches qn) lrs) = Inr bss"
    and "length resp + length (concat bss) \<le> 65535"
  shows "local_response_loop qn ttl lrs resp = Inr (resp @ concat bss)"
  using assms
proof (induction lrs arbitrary: bss resp)
  case (Cons lr lrs)
  show ?case
  proof (cases "local_record_matches qn lr")
    case True
    with Cons.prems(1) obtain bs bss' where b: "local_record_bytes lr ttl = Inr bs" "bss = bs # bss'"
      "map_result (\<lambda>lr. local_record_bytes lr ttl) (filter (local_record_matches qn) lrs) = Inr bss'"
      by (auto simp: result_simps)
    with Cons.IH [OF b(3), of "resp @ bs"] Cons.prems(2) True show ?thesis by simp
  next
    case False
    with Cons show ?thesis by simp
  qed
qed simp

lemma local_flags_header:
  assumes "opcode h = 0"
  defines "h' \<equiv> h\<lparr>h_flags := (h_flags h OR (FLAG_QR OR FLAG_AA OR FLAG_RA)) AND NOT (FLAG_TC OR RCODE_MASK)\<rparr>"
  shows "is_response h'" and "opcode h' = 0" and "response_code h' = 0" and "\<not> truncated h'"
    and "h_flags h' AND FLAG_AA \<noteq> 0"
proof -
  have and_eq: "((f OR on) AND keep) AND m = (f AND (keep AND m)) OR (on AND (keep AND m))" for f on keep m :: u16
    by (simp only: bit.conj_disj_distrib2 and.assoc)
  note e = h'_def header_flag_defs wire_flag_defs and_eq
  have "h_flags h' AND 0x8000 = 0x8000" by (simp add: e)
  then show "is_response h'" by (simp add: is_response_def FLAG_QR_def)
  have "h_flags h' AND 0x7800 = h_flags h AND 0x7800" by (simp add: e)
  then show "opcode h' = 0" using assms(1) by (simp only: opcode_def FLAG_OPCODE_def)
  show "response_code h' = 0" "\<not> truncated h'" "h_flags h' AND FLAG_AA \<noteq> 0" by (simp_all add: e)
qed

lemma four_zeros: "replicate 4 0 = u16_to_be 0 @ u16_to_be 0"
proof -
  have "u16_to_be 0 = [0, 0]" by (simp add: u16_to_be_def)
  then show ?thesis by (simp add: numeral_eq_Suc)
qed

text \<open>
  The packet \<open>local_response\<close> builds: the header with the answer flags and \<open>n\<close> as the answer count, the
  question, and the records.
\<close>

definition answer_flags :: "u16 \<Rightarrow> u16" where
  "answer_flags f = (f OR (FLAG_QR OR FLAG_AA OR FLAG_RA)) AND NOT (FLAG_TC OR RCODE_MASK)"

definition answer_header_bytes :: "header \<Rightarrow> u16 \<Rightarrow> bytes" where
  "answer_header_bytes h n = u16_to_be (h_id h) @ u16_to_be (answer_flags (h_flags h)) @ u16_to_be 1 @
     u16_to_be n @ u16_to_be 0 @ u16_to_be 0"

lemma length_answer_header_bytes [simp]: "length (answer_header_bytes h n) = 12"
  by (simp add: answer_header_bytes_def)

lemma answer_header_parse:
  assumes "h_question_count h = 1"
  shows "header_parse (answer_header_bytes h n) = Inr (h\<lparr>h_flags := answer_flags (h_flags h),
    h_answer_count := n, h_authority_count := 0, h_additional_count := 0\<rparr>)"
  using header_parse_words [of "h_id h" "answer_flags (h_flags h)" 1 n 0 0 "[]"] assms
  by (cases h) (simp add: answer_header_bytes_def)

lemma answer_header_steps:
  assumes "header_parse q = Inr h" and "h_question_count h = 1" and "take qend q = take 12 q @ body"
  shows "read_u16 (take qend q) 2 = Inr (h_flags h)"
    and "\<exists>r. write_u16 (take qend q) 2 (answer_flags (h_flags h)) = Inr r \<and>
      (\<exists>r'. write_u16 r 6 n = Inr r' \<and> overwrite r' 8 (replicate 4 0) = answer_header_bytes h n @ body)"
    and "write_u16 (answer_header_bytes h n @ bs) 6 m = Inr (answer_header_bytes h m @ bs)"
proof -
  let ?rest = "u16_to_be (h_authority_count h) @ u16_to_be (h_additional_count h)"
  have hw: "take 12 q = u16_to_be (h_id h) @ u16_to_be (h_flags h) @ u16_to_be 1 @ u16_to_be (h_answer_count h) @ ?rest"
    using header_words [OF assms(1)] assms(2) by simp
  show "read_u16 (take qend q) 2 = Inr (h_flags h)"
    unfolding assms(3) hw by (simp add: slice_simps u16_to_be_def be_simps USIZE_MAX_def)
  let ?i = "u16_to_be (h_id h) @ u16_to_be (answer_flags (h_flags h)) @ u16_to_be 1"
  have "write_u16 (take qend q) 2 (answer_flags (h_flags h)) =
      Inr (?i @ u16_to_be (h_answer_count h) @ ?rest @ body)"
    unfolding assms(3) hw
    by (simp add: write_u16_eq_Inr USIZE_MAX_def overwrite_append [of "u16_to_be (h_id h)" _ "u16_to_be (h_flags h)"])
  moreover have w6: "write_u16 (?i @ u16_to_be v @ xs) 6 m = Inr (?i @ u16_to_be m @ xs)" for v m xs
    using overwrite_append [of ?i 6 "u16_to_be v" "u16_to_be m" xs] by (simp add: write_u16_eq_Inr USIZE_MAX_def)
  moreover have "overwrite (?i @ u16_to_be n @ ?rest @ body) 8 (replicate 4 0) = answer_header_bytes h n @ body"
    using overwrite_append [of "?i @ u16_to_be n" 8 ?rest "replicate 4 0" body]
    by (simp add: four_zeros answer_header_bytes_def)
  ultimately show "\<exists>r. write_u16 (take qend q) 2 (answer_flags (h_flags h)) = Inr r \<and>
      (\<exists>r'. write_u16 r 6 n = Inr r' \<and> overwrite r' 8 (replicate 4 0) = answer_header_bytes h n @ body)"
    by auto
  show "write_u16 (answer_header_bytes h n @ bs) 6 m = Inr (answer_header_bytes h m @ bs)"
    using w6 by (simp add: answer_header_bytes_def)
qed

text \<open>The answers parse wherever the question is uncompressed, whatever the answer count says.\<close>

lemma answers_parsed:
  assumes "list_all2 (\<lambda>lr bs. local_record_bytes lr ttl = Inr bs) lrs bss" and "valid_labels ls"
    and "p = answer_header_bytes h n @ wire_of_labels ls @ u16_to_be t @ u16_to_be c @ concat bss"
    and "addressable p"
  shows "\<exists>rs. parse_many parse_record rr_next_offset p (length lrs) (12 + length (wire_of_labels ls) + 4) =
      Inr (rs, length p) \<and> list_all2 (answers_record ttl) lrs rs"
proof -
  let ?pre = "answer_header_bytes h n @ wire_of_labels ls @ u16_to_be t @ u16_to_be c"
  have "expands p 12 0 ls (12 + length (wire_of_labels ls))"
    using expands_wire [of ls "answer_header_bytes h n" "u16_to_be t @ u16_to_be c @ concat bss"] assms(2,3)
    by (simp add: valid_labels_def)
  moreover have "p = ?pre @ concat bss" "12 < length ?pre" using assms(3) by simp_all
  ultimately show ?thesis
    using local_records_parsed [OF assms(1), of p ?pre] assms(2,4) by (simp add: ac_simps)
qed

lemma local_response_eq:
  assumes "validate q False = Inr ()" and "header_parse q = Inr h" and "h_question_count h = 1"
    and "first_question q = Inr qn" and "question_end q = Inr (12 + length (wire_of_labels ls) + 4)"
    and "take (12 + length (wire_of_labels ls) + 4) q = take 12 q @ wire_of_labels ls @ u16_to_be t @ u16_to_be c"
    and "valid_labels ls"
    and "map_result (\<lambda>lr. local_record_bytes lr ttl) (filter (local_record_matches qn) lrs) = Inr bss"
    and "12 + length (wire_of_labels ls) + 4 + length (concat bss) \<le> 65535" and "length lrs \<le> 65535"
  shows "local_response q lrs ttl =
    Inr (answer_header_bytes h (of_nat (length (filter (local_record_matches qn) lrs))) @
         wire_of_labels ls @ u16_to_be t @ u16_to_be c @ concat bss)"
proof -
  let ?m = "filter (local_record_matches qn) lrs" and ?n = "of_nat (length lrs) :: u16"
  let ?body = "wire_of_labels ls @ u16_to_be t @ u16_to_be c"
  let ?p = "\<lambda>n. answer_header_bytes h n @ ?body @ concat bss"
  have lr: "length ?m \<le> 65535"
    using assms(10) length_filter_le [of "local_record_matches qn" lrs] by linarith
  note st = answer_header_steps [OF assms(2,3,6)]
  obtain r r' where r: "write_u16 (take (12 + length (wire_of_labels ls) + 4) q) 2 (answer_flags (h_flags h)) = Inr r"
    "write_u16 r 6 ?n = Inr r'" "overwrite r' 8 (replicate 4 0) = answer_header_bytes h ?n @ ?body"
    using st(2) [of ?n] by blast
  have loop: "local_response_loop qn ttl lrs (answer_header_bytes h ?n @ ?body) = Inr (?p ?n)"
    using local_response_loop_eq [OF assms(8), of "answer_header_bytes h ?n @ ?body"] assms(9) by simp
  have "addressable (?p ?n)" using assms(9) by (simp add: USIZE_MAX_def)
  then have cnt: "count_records_after_question (?p ?n) (12 + length (wire_of_labels ls) + 4) = Inr (of_nat (length ?m))"
    using answers_parsed [OF assms(8) [unfolded map_result_Inr_iff] assms(7), of "?p ?n" h ?n t c]
      count_records_loop_many [of "?p ?n" "length ?m" _ _ 0] lr
    unfolding count_records_after_question_def by fastforce
  have conv: "ok_or (u16_try_from (length lrs)) ResponseTooLarge = Inr ?n"
    using assms(10) by (simp add: u16_try_from_def)
  show ?thesis
    unfolding local_response_def assms(1,4,5) and_then_Inr Let_def st(1) answer_flags_def [symmetric] r conv loop cnt
    by (simp add: st(3))
qed



section \<open>Lemmas: lifetimes\<close>

lemma parsed_record_item:
  assumes "parse_sections p = Inr (h, qs, rs, e)" and "r \<in> set rs"
  obtains off where "parse_record p off = Inr r"
  using assms records.many_item by (auto simp: parse_sections_eq_Inr) metis

lemma soa_minimum_parsed:
  assumes "parse_record p off = Inr r" and "rr_rr_type r = TYPE_SOA"
  shows "\<exists>v. soa_minimum p r = Inr v"
proof -
  from assms obtain "validate_record_rdata p r = Inr ()" "rr_next_offset r \<le> length p"
    by (auto elim: parse_record_Inr)
  with assms(2) obtain n1 n2 o1 o2 where "read_name p (rr_rdata_offset r) = Inr (n1, o1)"
    "read_name p o1 = Inr (n2, o2)" "o2 + 20 = rr_next_offset r" "o2 + 20 \<le> USIZE_MAX" "o2 + 20 \<le> length p"
    by (auto simp: validate_record_rdata_def Let_def wire_type_defs validate_soa_def read_bounded_name_def
        result_simps slice_simps require_exact_end_def)
  then show ?thesis
    by (auto simp: soa_minimum_def checked_end_def usize_checked_add_def read_u32_eq_Inr)
qed

lemma range_or_empty_eq: "a \<le> b \<Longrightarrow> b \<le> length xs \<Longrightarrow> range_or_empty xs a b = take (b - a) (drop a xs)"
  by (simp add: range_or_empty_def get_range_def)

lemma set_soa_negative_ttl:
  "set (List.map_filter (soa_negative_ttl p) (filter (\<lambda>r. rr_rr_type r = TYPE_SOA) xs)) =
     {min (rr_ttl r) v | r v. r \<in> set xs \<and> rr_rr_type r = TYPE_SOA \<and> soa_minimum p r = Inr v}"
proof (induction xs)
  case (Cons x xs)
  then show ?case
    by (cases "soa_minimum p x") (auto simp: map_filter_simps soa_negative_ttl_def)
qed (simp add: map_filter_simps)

lemma answer_sections_length:
  assumes "parse_sections p = Inr (h, qs, rs, e)"
  shows "length rs = total_records h"
  using assms records.many_length by (auto simp: parse_sections_eq_Inr)

lemma age_ttls_loop_spec:
  assumes "sorted_wrt (\<lambda>x y. fst x + 4 \<le> fst y) ts"
    and "\<forall>(a, _, _) \<in> set ts. a + 4 \<le> length p \<and> a + 4 \<le> USIZE_MAX"
  shows "\<exists>p'. age_ttls_loop p el st ts = Inr p' \<and> length p' = length p \<and>
    (\<forall>(a, t, ty) \<in> set ts. ty \<noteq> TYPE_OPT \<longrightarrow>
       read_u32 p' a = Inr (if st then 0 else u32_saturating_sub t el)) \<and>
    (\<forall>i < length p. (\<forall>(a, t, ty) \<in> set ts. ty = TYPE_OPT \<or> i < a \<or> a + 4 \<le> i) \<longrightarrow> p' ! i = p ! i)"
  using assms
proof (induction ts arbitrary: p)
  case (Cons x ts)
  obtain a t ty where x: "x = (a, t, ty)" by (cases x)
  have a: "a + 4 \<le> length p" "a + 4 \<le> USIZE_MAX" using Cons.prems(2) x by auto
  have later: "\<forall>y \<in> set ts. a + 4 \<le> fst y" using Cons.prems(1) x by auto
  let ?v = "if st then 0 else u32_saturating_sub t el"
  let ?q = "if ty = TYPE_OPT then p else overwrite p a (u32_to_be ?v)"
  have lq: "length ?q = length p" using a by simp
  have srt: "sorted_wrt (\<lambda>x y. fst x + 4 \<le> fst y) ts" using Cons.prems(1) by simp
  have bnd: "\<forall>(a, _, _) \<in> set ts. a + 4 \<le> length ?q \<and> a + 4 \<le> USIZE_MAX"
    using Cons.prems(2) lq by auto
  from Cons.IH [OF srt bnd] obtain p' where
    p': "age_ttls_loop ?q el st ts = Inr p'" "length p' = length ?q"
    and rd: "\<forall>(a, t, ty) \<in> set ts. ty \<noteq> TYPE_OPT \<longrightarrow>
       read_u32 p' a = Inr (if st then 0 else u32_saturating_sub t el)"
    and keep: "\<forall>i < length ?q. (\<forall>(a, t, ty) \<in> set ts. ty = TYPE_OPT \<or> i < a \<or> a + 4 \<le> i) \<longrightarrow> p' ! i = ?q ! i"
    by blast
  have loop: "age_ttls_loop p el st (x # ts) = Inr p'"
    using p'(1) a x
    by (cases "ty = TYPE_OPT"; cases st)
      (auto simp: write_u32_def checked_end_def usize_checked_add_def get_range_def)
  have head: "read_u32 p' a = Inr ?v" if "ty \<noteq> TYPE_OPT"
  proof -
    have "p' ! i = ?q ! i" if "a \<le> i" "i < a + 4" for i
    proof -
      have "\<forall>(b, t, ty) \<in> set ts. ty = TYPE_OPT \<or> i < b \<or> b + 4 \<le> i" using later that(2) by fastforce
      then show ?thesis using keep that(2) a(1) lq by simp
    qed
    moreover have "read_u32 ?q a = Inr ?v" using that a by (simp add: read_u32_overwrite_same)
    ultimately show ?thesis using a p'(2) lq by (simp add: read_u32_eq_Inr)
  qed
  have rest: "p' ! i = p ! i" if "i < length p" "\<forall>(a, t, ty) \<in> set (x # ts). ty = TYPE_OPT \<or> i < a \<or> a + 4 \<le> i" for i
  proof -
    have "p' ! i = ?q ! i" using keep that lq by auto
    also have "\<dots> = p ! i" using that a x by (auto simp: nth_overwrite)
    finally show ?thesis .
  qed
  show ?case using loop p'(2) lq rd head rest x by auto
qed simp

lemma ttl_fields_ordered:
  assumes "parse_sections p = Inr (h, qs, rs, e)"
  shows "sorted_wrt (\<lambda>x y. fst x + 4 \<le> fst y)
      (map (\<lambda>r. (rr_ttl_offset r, rr_ttl r, rr_rr_type r)) rs)"
    and "\<forall>r \<in> set rs. rr_ttl_offset r + 4 \<le> length p \<and> rr_ttl_offset r + 4 \<le> USIZE_MAX"
proof -
  have field: "off < rr_ttl_offset r \<and> rr_ttl_offset r + 6 \<le> rr_next_offset r \<and> rr_next_offset r \<le> length p
      \<and> rr_next_offset r \<le> USIZE_MAX" if "parse_record p off = Inr r" for off r
    using that by (elim parse_record_Inr) (auto dest: read_name_bounds)
  from assms obtain o1 n where m: "parse_many parse_record rr_next_offset p n o1 = Inr (rs, e)"
    by (auto simp: parse_sections_eq_Inr)
  have "sorted_wrt (\<lambda>x y. \<exists>o'. rr_next_offset x \<le> o' \<and> parse_record p o' = Inr y) rs"
    by (rule records.many_ordered [OF m])
  then have "sorted_wrt (\<lambda>x y. rr_ttl_offset x + 4 \<le> rr_ttl_offset y) rs"
  proof (rule sorted_wrt_mono_rel [rotated])
    fix x y assume x: "x \<in> set rs" and "\<exists>o'. rr_next_offset x \<le> o' \<and> parse_record p o' = Inr y"
    then obtain o' o'' where "rr_next_offset x \<le> o'" "parse_record p o' = Inr y" "parse_record p o'' = Inr x"
      using records.many_item [OF m x] by blast
    then show "rr_ttl_offset x + 4 \<le> rr_ttl_offset y"
      using field [of o' y] field [of o'' x] by linarith
  qed
  then show "sorted_wrt (\<lambda>x y. fst x + 4 \<le> fst y)
      (map (\<lambda>r. (rr_ttl_offset r, rr_ttl r, rr_rr_type r)) rs)"
    by (simp add: sorted_wrt_map)
  show "\<forall>r \<in> set rs. rr_ttl_offset r + 4 \<le> length p \<and> rr_ttl_offset r + 4 \<le> USIZE_MAX"
    using records.many_item [OF m] field by fastforce
qed

text \<open>The sections of a parsed packet, and the least element of a set.\<close>

definition answer_section :: "header \<Rightarrow> resource_record list \<Rightarrow> resource_record list" where
  "answer_section h rs = take (unat (h_answer_count h)) rs"

definition authority_section :: "header \<Rightarrow> resource_record list \<Rightarrow> resource_record list" where
  "authority_section h rs = take (unat (h_authority_count h)) (drop (unat (h_answer_count h)) rs)"

definition is_least :: "'a :: linorder \<Rightarrow> 'a set \<Rightarrow> bool" where
  "is_least m S \<longleftrightarrow> m \<in> S \<and> (\<forall>x \<in> S. m \<le> x)"

section \<open>Properties: lifetimes\<close>



text \<open>
  C10: Ageing rewrites exactly the TTL fields: for a packet that parses, \<open>age_ttls\<close> succeeds, keeps the
  length, writes into the TTL field of every record but OPT the parsed TTL less the elapsed seconds
  (never below 0, and 0 for a stale answer), and changes no other octet.
\<close>

theorem age_ttls_exact:
  assumes "parse_sections p = Inr (h, qs, rs, e)"
  shows "\<exists>p'. age_ttls p el st = Inr p' \<and> length p' = length p \<and>
    (\<forall>r \<in> set rs. rr_rr_type r \<noteq> TYPE_OPT \<longrightarrow>
       (\<exists>t. read_u32 p' (rr_ttl_offset r) = Inr t \<and>
          unat t = (if st then 0 else unat (rr_ttl r) - unat el))) \<and>
    (\<forall>i < length p. (\<forall>r \<in> set rs. rr_rr_type r = TYPE_OPT \<or> i < rr_ttl_offset r \<or> rr_ttl_offset r + 4 \<le> i) \<longrightarrow>
       p' ! i = p ! i)"
proof -
  let ?ts = "map (\<lambda>r. (rr_ttl_offset r, rr_ttl r, rr_rr_type r)) rs"
  have "\<forall>(a, _, _) \<in> set ?ts. a + 4 \<le> length p \<and> a + 4 \<le> USIZE_MAX"
    using ttl_fields_ordered(2) [OF assms] by auto
  from age_ttls_loop_spec [OF ttl_fields_ordered(1) [OF assms] this, of el st]
  obtain p' where "age_ttls_loop p el st ?ts = Inr p'" "length p' = length p"
    and "\<forall>(a, t, ty) \<in> set ?ts. ty \<noteq> TYPE_OPT \<longrightarrow>
       read_u32 p' a = Inr (if st then 0 else u32_saturating_sub t el)"
    and "\<forall>i < length p. (\<forall>(a, t, ty) \<in> set ?ts. ty = TYPE_OPT \<or> i < a \<or> a + 4 \<le> i) \<longrightarrow> p' ! i = p ! i"
    by blast
  then show ?thesis using assms
    by (auto simp: age_ttls_def unat_u32_saturating_sub)
qed

theorem age_ttls_exact_witness:
  "\<exists>p'. age_ttls ex_response 10 False = Inr p' \<and> length p' = length ex_response"
proof -
  obtain h qs rs e where "parse_sections ex_response = Inr (h, qs, rs, e)"
    by (simp add: codec_eval ex_response_def)
  from age_ttls_exact [OF this, of 10 False] show ?thesis by blast
qed

text \<open>
  The hypothesis on the question name in the properties above is needed: \<open>read_name\<close> follows a pointer
  into the header, and the header is what an error response rewrites. For this query, whose name starts
  at its own flag word, the response does not even parse.
\<close>

definition ex_header_pointer_query :: bytes where
  "ex_header_pointer_query = [0, 7, 1, 0, 0, 1, 0, 0, 0, 0, 0, 0, 0xc0, 2, 0, 1, 0, 1]"

lemma servfail_for_header_pointer:
  "validate ex_header_pointer_query False = Inr () \<and>
   (\<exists>r. servfail_for ex_header_pointer_query = Inr r \<and> validate r True = Inl InvalidLabel)"
proof -
  have v: "validate ex_header_pointer_query False = Inr ()"
    by (simp add: packet_eval ex_header_pointer_query_def)
  have q: "question_end ex_header_pointer_query = Inr 18"
    by (simp add: packet_eval ex_header_pointer_query_def)
  have "servfail_for ex_header_pointer_query =
      Inr [0, 7, 0x81, 0x82, 0, 1, 0, 0, 0, 0, 0, 0, 0xc0, 2, 0, 1, 0, 1]"
    unfolding servfail_for_def v q
    by (simp add: ex_header_pointer_query_def wire_eval wire_flag_defs Let_def six_zeros)
  moreover have "validate [0, 7, 0x81, 0x82, 0, 1, 0, 0, 0, 0, 0, 0, 0xc0, 2, 0, 1, 0, 1] True = Inl InvalidLabel"
    by (simp add: packet_eval)
  ultimately show ?thesis using v by blast
qed

end
