(* ===== verification/Rust_Str.thy ===== *)
theory Rust_Str
  imports Resolved_Prelude
begin

text \<open>
  What the sources use of Rust's \<open>str\<close>, on strings as UTF-8 octets: splitting, trimming, prefixes and
  suffixes, ASCII case, and decimal and hexadecimal numbers. White space is Unicode's \<open>White_Space\<close>, as
  octet sequences: in valid UTF-8 such a sequence at a character boundary is that character.
\<close>

section \<open>Splitting at dots\<close>

text \<open>\<open>str::split('.')\<close>.\<close>

fun split_dots :: "string \<Rightarrow> string list" where
  "split_dots [] = [[]]"
| "split_dots (c # s) =
     (if c = CHR ''.'' then [] # split_dots s
      else case split_dots s of [] \<Rightarrow> [[c]] | l # ls \<Rightarrow> (c # l) # ls)"

lemma split_dots_append:
  "CHR ''.'' \<notin> set l \<Longrightarrow> split_dots (l @ CHR ''.'' # s) = l # split_dots s"
  by (induction l) auto

lemma split_dots_no_dot: "CHR ''.'' \<notin> set l \<Longrightarrow> split_dots l = [l]"
  by (induction l) auto

lemma split_dots_nonempty [simp]: "split_dots s \<noteq> []"
  by (cases s) (auto split: list.splits)

text \<open>A dot anywhere separates the labels before it from those after it.\<close>

lemma split_dots_at_dot: "split_dots (s @ CHR ''.'' # t) = split_dots s @ split_dots t"
proof (induction s)
  case (Cons c s)
  then show ?case by (cases "split_dots s") auto
qed simp

lemma split_dots_inject: "split_dots s = split_dots t \<longleftrightarrow> s = t"
proof
  show "s = t" if "split_dots s = split_dots t"
    using that
  proof (induction s arbitrary: t)
    case Nil
    have "split_dots x \<noteq> [] \<and> [] \<noteq> split_dots x" for x by (metis split_dots_nonempty)
    with Nil show ?case by (cases t) (auto split: if_splits list.splits)
  next
    case (Cons c s)
    then show ?case by (cases t; cases "split_dots s"; cases "split_dots (tl t)") (auto split: if_splits)
  qed
qed simp

lemma split_dots_no_dots: "l \<in> set (split_dots s) \<Longrightarrow> CHR ''.'' \<notin> set l"
proof (induction s arbitrary: l)
  case (Cons c s)
  show ?case
  proof (cases "split_dots s")
    case (Cons l' ls)
    then have "CHR ''.'' \<notin> set l'" "\<forall>x \<in> set ls. CHR ''.'' \<notin> set x" using Cons.IH by auto
    then show ?thesis using Cons.prems Cons by (auto split: if_splits)
  qed simp
qed simp

lemma split_dots_surj: "p \<noteq> [] \<Longrightarrow> \<forall>l \<in> set p. CHR ''.'' \<notin> set l \<Longrightarrow> \<exists>t. split_dots t = p"
proof (induction p)
  case (Cons l p)
  show ?case
  proof (cases "p = []")
    case True
    then show ?thesis using Cons.prems split_dots_no_dot by auto
  next
    case False
    then obtain t where "split_dots t = p" using Cons by auto
    then show ?thesis using Cons.prems split_dots_append [of l t] by auto
  qed
qed simp

text \<open>A name ends in another, at a dot or as a whole, exactly when its labels end in the other's labels.\<close>

lemma split_dots_suffix_iff:
  "(name = domain \<or> (\<exists>q. name = (q @ ''.'') @ domain)) \<longleftrightarrow> (\<exists>p. split_dots name = p @ split_dots domain)"
proof
  assume "name = domain \<or> (\<exists>q. name = (q @ ''.'') @ domain)"
  then show "\<exists>p. split_dots name = p @ split_dots domain"
  proof
    assume "\<exists>q. name = (q @ ''.'') @ domain"
    then obtain q where "name = q @ CHR ''.'' # domain" by auto
    then show ?thesis using split_dots_at_dot by blast
  qed auto
next
  assume "\<exists>p. split_dots name = p @ split_dots domain"
  then obtain p where p: "split_dots name = p @ split_dots domain" by blast
  show "name = domain \<or> (\<exists>q. name = (q @ ''.'') @ domain)"
  proof (cases "p = []")
    case True
    then show ?thesis using p by (simp add: split_dots_inject)
  next
    case False
    have "\<forall>l \<in> set p. CHR ''.'' \<notin> set l" using split_dots_no_dots [of _ name] p by simp
    then obtain q where q: "split_dots q = p" using split_dots_surj [OF False] by blast
    then have "split_dots name = split_dots (q @ CHR ''.'' # domain)" using p by (simp add: split_dots_at_dot)
    then show ?thesis by (auto simp: split_dots_inject)
  qed
qed

section \<open>Case, prefixes and suffixes\<close>

definition to_ascii_lowercase :: "string \<Rightarrow> string" where
  "to_ascii_lowercase s = map (\<lambda>c. char_of_byte (ascii_lower (byte_of c))) s"

definition eq_ignore_ascii_case :: "string \<Rightarrow> string \<Rightarrow> bool" where
  "eq_ignore_ascii_case s t \<longleftrightarrow> to_ascii_lowercase s = to_ascii_lowercase t"

definition is_ascii :: "string \<Rightarrow> bool" where
  "is_ascii s \<longleftrightarrow> list_all (\<lambda>c. unat (byte_of c) < 128) s"

definition trim_end_dots :: "string \<Rightarrow> string" where
  "trim_end_dots s = rev (dropWhile (\<lambda>c. c = CHR ''.'') (rev s))"

definition strip_suffix :: "string \<Rightarrow> string \<Rightarrow> string option" where
  "strip_suffix suffix s =
     (if length suffix \<le> length s \<and> drop (length s - length suffix) s = suffix
      then Some (take (length s - length suffix) s) else None)"

definition strip_prefix :: "string \<Rightarrow> string \<Rightarrow> string option" where
  "strip_prefix prefix s =
     (if take (length prefix) s = prefix then Some (drop (length prefix) s) else None)"

definition starts_with :: "string \<Rightarrow> string \<Rightarrow> bool" where
  "starts_with prefix s \<longleftrightarrow> strip_prefix prefix s \<noteq> None"

definition ends_with :: "string \<Rightarrow> string \<Rightarrow> bool" where
  "ends_with suffix s \<longleftrightarrow> strip_suffix suffix s \<noteq> None"

text \<open>\<open>str::split_once\<close> with a character.\<close>

definition split_once :: "char \<Rightarrow> string \<Rightarrow> (string \<times> string) option" where
  "split_once c s =
     (case dropWhile (\<lambda>x. x \<noteq> c) s of
        [] \<Rightarrow> None
      | _ # rest \<Rightarrow> Some (takeWhile (\<lambda>x. x \<noteq> c) s, rest))"

lemma strip_suffix_append: "strip_suffix suffix (s @ suffix) = Some s"
  by (simp add: strip_suffix_def)

lemma strip_suffix_eq_Some: "strip_suffix suffix s = Some p \<longleftrightarrow> s = p @ suffix"
proof
  assume "strip_suffix suffix s = Some p"
  then have "p = take (length s - length suffix) s" "drop (length s - length suffix) s = suffix"
    by (auto simp: strip_suffix_def split: if_splits)
  then show "s = p @ suffix" by (metis append_take_drop_id)
qed (simp add: strip_suffix_append)

lemma strip_suffix_eq_None: "strip_suffix suffix s = None \<longleftrightarrow> (\<nexists>p. s = p @ suffix)"
  using strip_suffix_eq_Some [of suffix s] by (cases "strip_suffix suffix s") auto

lemma strip_prefix_eq_Some: "strip_prefix prefix s = Some t \<longleftrightarrow> s = prefix @ t"
  by (auto simp: strip_prefix_def) (metis append_take_drop_id)

lemma starts_with_iff: "starts_with prefix s \<longleftrightarrow> (\<exists>t. s = prefix @ t)"
  by (auto simp: starts_with_def strip_prefix_eq_Some)

lemma ends_with_iff: "ends_with suffix s \<longleftrightarrow> (\<exists>p. s = p @ suffix)"
  by (auto simp: ends_with_def strip_suffix_eq_None)

lemma to_ascii_lowercase_append: "to_ascii_lowercase (s @ t) = to_ascii_lowercase s @ to_ascii_lowercase t"
  by (simp add: to_ascii_lowercase_def)

lemma to_ascii_lowercase_idem [simp]: "to_ascii_lowercase (to_ascii_lowercase s) = to_ascii_lowercase s"
  by (simp add: to_ascii_lowercase_def comp_def)

lemma length_to_ascii_lowercase [simp]: "length (to_ascii_lowercase s) = length s"
  by (simp add: to_ascii_lowercase_def)

lemma to_ascii_lowercase_Nil [simp]: "to_ascii_lowercase s = [] \<longleftrightarrow> s = []" "to_ascii_lowercase [] = []"
  by (simp_all add: to_ascii_lowercase_def)

lemma lowercase_eq_dot: "char_of_byte (ascii_lower (byte_of c)) = CHR ''.'' \<longleftrightarrow> c = CHR ''.''"
proof -
  have b: "byte_of (CHR ''.'') = 46" by (simp add: byte_of_def)
  have "ascii_lower x = 46 \<longleftrightarrow> x = 46" for x
  proof -
    have "ascii_lower x = 46 \<longleftrightarrow> unat (ascii_lower x) = 46" "x = 46 \<longleftrightarrow> unat x = 46"
      by (simp_all add: word_unat_eq_iff)
    then show ?thesis using unat_ascii_lower [of x] by (auto split: if_splits)
  qed
  then show ?thesis using b by (metis byte_of_char_of_byte char_of_byte_byte_of)
qed

lemma to_ascii_lowercase_dot [simp]: "to_ascii_lowercase ''.'' = ''.''"
  by (simp add: to_ascii_lowercase_def lowercase_eq_dot)

lemma split_dots_lowercase: "split_dots (to_ascii_lowercase s) = map to_ascii_lowercase (split_dots s)"
proof (induction s)
  case (Cons c s)
  then show ?case by (cases "split_dots s") (auto simp: to_ascii_lowercase_def lowercase_eq_dot)
qed simp

lemma is_ascii_lowercase [simp]: "is_ascii (to_ascii_lowercase s) \<longleftrightarrow> is_ascii s"
  by (auto simp: is_ascii_def to_ascii_lowercase_def list_all_iff unat_ascii_lower split: if_splits)

lemma trim_end_dots_keep: "s \<noteq> [] \<Longrightarrow> last s \<noteq> CHR ''.'' \<Longrightarrow> trim_end_dots (t @ s) = t @ s"
  by (cases s rule: rev_cases) (simp_all add: trim_end_dots_def)

section \<open>White space\<close>

definition whitespace_chars :: "string list" where
  "whitespace_chars =
     [[CHR 0x09], [CHR 0x0a], [CHR 0x0b], [CHR 0x0c], [CHR 0x0d], [CHR 0x20], [CHR 0xc2, CHR 0x85], [CHR 0xc2, CHR 0xa0],
      [CHR 0xe1, CHR 0x9a, CHR 0x80], [CHR 0xe2, CHR 0x80, CHR 0x80], [CHR 0xe2, CHR 0x80, CHR 0x81],
      [CHR 0xe2, CHR 0x80, CHR 0x82], [CHR 0xe2, CHR 0x80, CHR 0x83], [CHR 0xe2, CHR 0x80, CHR 0x84],
      [CHR 0xe2, CHR 0x80, CHR 0x85], [CHR 0xe2, CHR 0x80, CHR 0x86], [CHR 0xe2, CHR 0x80, CHR 0x87],
      [CHR 0xe2, CHR 0x80, CHR 0x88], [CHR 0xe2, CHR 0x80, CHR 0x89], [CHR 0xe2, CHR 0x80, CHR 0x8a],
      [CHR 0xe2, CHR 0x80, CHR 0xa8], [CHR 0xe2, CHR 0x80, CHR 0xa9], [CHR 0xe2, CHR 0x80, CHR 0xaf],
      [CHR 0xe2, CHR 0x81, CHR 0x9f], [CHR 0xe3, CHR 0x80, CHR 0x80]]"

text \<open>The first of the given octet sequences that the string starts with.\<close>

definition leading :: "string list \<Rightarrow> string \<Rightarrow> string option" where
  "leading ws s = find (\<lambda>w. w \<noteq> [] \<and> take (length w) s = w) ws"

lemma leading_SomeD: "leading ws s = Some w \<Longrightarrow> w \<noteq> [] \<and> take (length w) s = w"
  by (auto simp: leading_def find_Some_iff)

lemma leading_less: "leading ws s = Some w \<Longrightarrow> length (drop (length w) s) < length s"
  using leading_SomeD [of ws s w] by (cases s) auto

function trim_leading :: "string list \<Rightarrow> string \<Rightarrow> string" where
  "trim_leading ws s = (case leading ws s of None \<Rightarrow> s | Some w \<Rightarrow> trim_leading ws (drop (length w) s))"
  by pat_completeness auto

termination
  by (relation "measure (length \<circ> snd)") (use leading_less in \<open>auto simp: comp_def\<close>)

declare trim_leading.simps [simp del]

definition trim :: "string \<Rightarrow> string" where
  "trim s = rev (trim_leading (map rev whitespace_chars) (rev (trim_leading whitespace_chars s)))"

text \<open>\<open>str::split_whitespace\<close>: the maximal runs without white space, with the current run as accumulator.\<close>

function ws_tokens :: "string \<Rightarrow> string \<Rightarrow> string list" where
  "ws_tokens acc s =
     (case leading whitespace_chars s of
        Some w \<Rightarrow> (if acc = [] then [] else [acc]) @ ws_tokens [] (drop (length w) s)
      | None \<Rightarrow> (case s of [] \<Rightarrow> if acc = [] then [] else [acc] | c # s' \<Rightarrow> ws_tokens (acc @ [c]) s'))"
  by pat_completeness auto

termination
  by (relation "measure (length \<circ> snd)") (use leading_less in \<open>auto simp: comp_def\<close>)

declare ws_tokens.simps [simp del]

definition split_whitespace :: "string \<Rightarrow> string list" where
  "split_whitespace s = ws_tokens [] s"

text \<open>\<open>str::lines\<close>: a final line ending does not start a line, and a carriage return before a line feed goes with it.\<close>

fun split_lines :: "string \<Rightarrow> string \<Rightarrow> (string \<times> bool) list" where
  "split_lines acc [] = (if acc = [] then [] else [(acc, False)])"
| "split_lines acc (c # s) = (if c = CHR 0x0a then (acc, True) # split_lines [] s else split_lines (acc @ [c]) s)"

definition lines :: "string \<Rightarrow> string list" where
  "lines s = map (\<lambda>(l, ended). if ended \<and> l \<noteq> [] \<and> last l = CHR 0x0d then butlast l else l) (split_lines [] s)"

text \<open>A string that starts and ends with no white space is its own trimming.\<close>

lemma trim_leading_None: "leading ws s = None \<Longrightarrow> trim_leading ws s = s"
  by (simp add: trim_leading.simps)

lemma leading_trim_leading: "leading ws (trim_leading ws s) = None"
proof (induction ws s rule: trim_leading.induct)
  case (1 ws s)
  then show ?case by (cases "leading ws s") (simp_all add: trim_leading.simps [of ws s])
qed

lemma suffix_trim_leading: "\<exists>p. s = p @ trim_leading ws s"
proof (induction ws s rule: trim_leading.induct)
  case (1 ws s)
  show ?case
  proof (cases "leading ws s")
    case (Some w)
    from 1 [OF Some] obtain p where "drop (length w) s = p @ trim_leading ws (drop (length w) s)" by blast
    then have "s = (take (length w) s @ p) @ trim_leading ws (drop (length w) s)"
      by (metis append.assoc append_take_drop_id)
    moreover have "trim_leading ws s = trim_leading ws (drop (length w) s)"
      using Some by (simp add: trim_leading.simps [of ws s])
    ultimately show ?thesis by metis
  qed (simp add: trim_leading_None)
qed

lemma leading_eq_None: "leading ws s = None \<longleftrightarrow> (\<forall>w \<in> set ws. w \<noteq> [] \<longrightarrow> take (length w) s \<noteq> w)"
  by (auto simp: leading_def find_None_iff)

lemma leading_prefix: "leading ws (s @ t) = None \<Longrightarrow> leading ws s = None"
  unfolding leading_eq_None
proof (intro ballI impI notI)
  fix w assume *: "\<forall>w\<in>set ws. w \<noteq> [] \<longrightarrow> take (length w) (s @ t) \<noteq> w" "w \<in> set ws" "w \<noteq> []" "take (length w) s = w"
  then have "length w \<le> length s" by (metis nat_le_linear take_all)
  with * show False by auto
qed

lemma whitespace_plain:
  "\<forall>w \<in> set whitespace_chars. \<forall>c \<in> set w. c \<noteq> CHR ''.'' \<and> \<not> (97 \<le> unat (byte_of c) \<and> unat (byte_of c) \<le> 122)"
  by code_simp

lemma leading_trim: "leading whitespace_chars (trim s) = None"
proof -
  obtain q where "rev (trim_leading whitespace_chars s) = q @ rev (trim s)"
    using suffix_trim_leading [of "rev (trim_leading whitespace_chars s)" "map rev whitespace_chars"] by (auto simp: trim_def)
  then have "trim_leading whitespace_chars s = trim s @ rev q"
    by (metis rev_append rev_rev_ident)
  then show ?thesis using leading_trim_leading [of whitespace_chars s] by (auto intro: leading_prefix)
qed

lemma lowercase_same:
  "map (\<lambda>c. char_of_byte (ascii_lower (byte_of c))) t = u \<Longrightarrow>
   \<forall>c \<in> set u. \<not> (97 \<le> unat (byte_of c) \<and> unat (byte_of c) \<le> 122) \<Longrightarrow> t = u"
proof (induction t arbitrary: u)
  case (Cons c t)
  then obtain d v where u: "u = d # v" "char_of_byte (ascii_lower (byte_of c)) = d" by auto
  then have "byte_of d = ascii_lower (byte_of c)" by auto
  then have "unat (byte_of d) = (if 65 \<le> unat (byte_of c) \<and> unat (byte_of c) \<le> 90 then unat (byte_of c) + 32 else unat (byte_of c))"
    by (simp add: unat_ascii_lower)
  moreover have "\<not> (97 \<le> unat (byte_of d) \<and> unat (byte_of d) \<le> 122)" using Cons.prems(2) u(1) by simp
  ultimately have "\<not> (65 \<le> unat (byte_of c) \<and> unat (byte_of c) \<le> 90)" by (auto split: if_splits)
  then have "ascii_lower (byte_of c) = byte_of c" by (auto simp: ascii_lower_nat)
  with u have "c = d" by simp
  moreover have "t = v" using Cons.prems u(1) by (intro Cons.IH) simp_all
  ultimately show ?case using u(1) by simp
qed simp

lemma leading_lowercase: "leading whitespace_chars s = None \<Longrightarrow> leading whitespace_chars (to_ascii_lowercase s) = None"
proof (unfold leading_eq_None, intro ballI impI notI)
  fix w assume s: "\<forall>w\<in>set whitespace_chars. w \<noteq> [] \<longrightarrow> take (length w) s \<noteq> w"
    and w: "w \<in> set whitespace_chars" "w \<noteq> []" "take (length w) (to_ascii_lowercase s) = w"
  have low: "to_ascii_lowercase (take (length w) s) = w"
    using w(3) by (simp add: to_ascii_lowercase_def take_map)
  have "take (length w) s = w"
    by (rule lowercase_same) (use low in \<open>simp add: to_ascii_lowercase_def\<close>, use whitespace_plain w(1) in blast)
  with s w show False by blast
qed

lemma trim_dot:
  assumes "leading whitespace_chars s = None" "s \<noteq> []"
  shows "trim (s @ ''.'') = s @ ''.''"
proof -
  have "leading whitespace_chars (s @ ''.'') = None"
    unfolding leading_eq_None
  proof (intro ballI impI notI)
    fix w assume w: "w \<in> set whitespace_chars" "w \<noteq> []" "take (length w) (s @ ''.'') = w"
    show False
    proof (cases "length w \<le> length s")
      case True
      with w assms(1) show False by (auto simp: leading_eq_None)
    next
      case False
      with w(3) have "CHR ''.'' \<in> set w" by (metis Suc_leI append_Nil2 in_set_conv_decomp length_append_singleton not_less take_all)
      with whitespace_plain w(1) show False by blast
    qed
  qed
  moreover have "leading (map rev whitespace_chars) (rev (s @ ''.'')) = None"
    unfolding leading_eq_None
  proof (intro ballI impI notI)
    fix w assume w: "w \<in> set (map rev whitespace_chars)" "w \<noteq> []" "take (length w) (rev (s @ ''.'')) = w"
    from w(2) obtain c v where v: "w = c # v" by (cases w) auto
    with w(3) have "c = CHR ''.''" by simp
    with v have dot: "CHR ''.'' \<in> set w" by simp
    from w(1) obtain u where "u \<in> set whitespace_chars" "w = rev u" by auto
    with dot whitespace_plain show False by auto
  qed
  ultimately show ?thesis by (simp add: trim_def trim_leading_None)
qed

lemma trim_end_dots_prefix: "\<exists>q. s = trim_end_dots s @ q"
  unfolding trim_end_dots_def by (metis rev_append rev_rev_ident takeWhile_dropWhile_id)

lemma trim_end_dots_last: "trim_end_dots s \<noteq> [] \<Longrightarrow> last (trim_end_dots s) \<noteq> CHR ''.''"
  using hd_dropWhile [of "\<lambda>c. c = CHR ''.''" "rev s"] by (auto simp: trim_end_dots_def last_rev)

lemma last_lowercase_dot: "s \<noteq> [] \<Longrightarrow> last s \<noteq> CHR ''.'' \<Longrightarrow> last (to_ascii_lowercase s) \<noteq> CHR ''.''"
  by (simp add: to_ascii_lowercase_def last_map lowercase_eq_dot)

lemma trim_end_dots_dot: "s \<noteq> [] \<Longrightarrow> last s \<noteq> CHR ''.'' \<Longrightarrow> trim_end_dots (s @ ''.'') = s"
  by (cases s rule: rev_cases) (auto simp: trim_end_dots_def)

lemma set_trim: "set (trim s) \<subseteq> set s"
proof -
  obtain p q where "s = p @ trim_leading whitespace_chars s"
    "rev (trim_leading whitespace_chars s) = q @ trim_leading (map rev whitespace_chars) (rev (trim_leading whitespace_chars s))"
    using suffix_trim_leading by blast
  then have "set (trim s) \<subseteq> set (rev (trim_leading whitespace_chars s))" "set (trim_leading whitespace_chars s) \<subseteq> set s"
    unfolding trim_def by (metis Un_upper2 set_append set_rev)+
  then show ?thesis by auto
qed

section \<open>Numbers\<close>

text \<open>\<open>char::to_digit\<close>, and \<open>from_str_radix\<close> of an unsigned type: an optional plus sign, at least one digit, no overflow.\<close>

definition to_digit :: "nat \<Rightarrow> char \<Rightarrow> nat option" where
  "to_digit radix c =
     (let b = unat (byte_of c);
          d = (if 48 \<le> b \<and> b \<le> 57 then Some (b - 48)
               else if 97 \<le> b \<and> b \<le> 122 then Some (b - 87)
               else if 65 \<le> b \<and> b \<le> 90 then Some (b - 55)
               else None)
      in case d of Some n \<Rightarrow> if n < radix then Some n else None | None \<Rightarrow> None)"

fun digits_value :: "nat \<Rightarrow> nat \<Rightarrow> nat \<Rightarrow> string \<Rightarrow> nat option" where
  "digits_value limit radix acc [] = Some acc"
| "digits_value limit radix acc (c # s) =
     (case to_digit radix c of
        None \<Rightarrow> None
      | Some d \<Rightarrow> if acc * radix + d \<le> limit then digits_value limit radix (acc * radix + d) s else None)"

definition unsigned_from_str_radix :: "nat \<Rightarrow> nat \<Rightarrow> string \<Rightarrow> nat option" where
  "unsigned_from_str_radix limit radix s =
     (let digits = (case s of c # s' \<Rightarrow> if c = CHR ''+'' then s' else s | [] \<Rightarrow> [])
      in if digits = [] then None else digits_value limit radix 0 digits)"

lemma digits_value_le: "digits_value limit radix acc s = Some n \<Longrightarrow> acc \<le> limit \<Longrightarrow> n \<le> limit"
  by (induction s arbitrary: acc) (auto split: option.splits if_splits)

lemma unsigned_from_str_radix_le: "unsigned_from_str_radix limit radix s = Some n \<Longrightarrow> n \<le> limit"
  using digits_value_le by (auto simp: unsigned_from_str_radix_def Let_def split: if_splits)

text \<open>\<open>to_string\<close> of an unsigned number.\<close>

fun show_nat :: "nat \<Rightarrow> string" where
  "show_nat n = (if n < 10 then [char_of (48 + n)] else show_nat (n div 10) @ [char_of (48 + n mod 10)])"

declare show_nat.simps [simp del]

section \<open>UTF-8\<close>

text \<open>
  The first chunk of an octet string: how many octets it takes and whether they are a character. An
  invalid chunk is a maximal prefix of a character, or one octet. An octet past the end counts as 0.
\<close>

definition is_cont :: "u8 \<Rightarrow> bool" where
  "is_cont b \<longleftrightarrow> 0x80 \<le> b \<and> b \<le> 0xbf"

definition second_octet_ok :: "u8 \<Rightarrow> u8 \<Rightarrow> bool" where
  "second_octet_ok a b \<longleftrightarrow>
     (if a = 0xe0 then 0xa0 \<le> b \<and> b \<le> 0xbf
      else if a = 0xed then 0x80 \<le> b \<and> b \<le> 0x9f
      else if a = 0xf0 then 0x90 \<le> b \<and> b \<le> 0xbf
      else if a = 0xf4 then 0x80 \<le> b \<and> b \<le> 0x8f
      else is_cont b)"

definition utf8_chunk :: "bytes \<Rightarrow> nat \<times> bool" where
  "utf8_chunk bs =
     (let at = (\<lambda>i. if i < length bs then bs ! i else 0);
          a = at 0
      in if a < 0x80 then (1, True)
         else if a < 0xc2 \<or> 0xf4 < a \<or> \<not> second_octet_ok a (at 1) then (1, False)
         else if a < 0xe0 then (2, True)
         else if \<not> is_cont (at 2) then (2, False)
         else if a < 0xf0 then (3, True)
         else if \<not> is_cont (at 3) then (3, False)
         else (4, True))"

lemma utf8_chunk_pos: "utf8_chunk bs = (n, ok) \<Longrightarrow> 0 < n" "(n, ok) = utf8_chunk bs \<Longrightarrow> 0 < n"
  by (auto simp: utf8_chunk_def Let_def split: if_splits)

text \<open>\<open>String::from_utf8_lossy\<close>: every invalid chunk becomes U+FFFD.\<close>

function from_utf8_lossy :: "bytes \<Rightarrow> string" where
  "from_utf8_lossy bs =
     (if bs = [] then []
      else case utf8_chunk bs of (n, ok) \<Rightarrow>
        (if ok then map char_of_byte (take n bs) else [CHR 0xef, CHR 0xbf, CHR 0xbd]) @ from_utf8_lossy (drop n bs))"
  by pat_completeness auto

termination
  by (relation "measure length") (auto dest: utf8_chunk_pos)

declare from_utf8_lossy.simps [simp del]

fun valid_utf8_fuel :: "nat \<Rightarrow> bytes \<Rightarrow> bool" where
  "valid_utf8_fuel 0 bs \<longleftrightarrow> bs = []"
| "valid_utf8_fuel (Suc k) bs \<longleftrightarrow>
     bs = [] \<or> (case utf8_chunk bs of (n, ok) \<Rightarrow> ok \<and> n \<le> length bs \<and> valid_utf8_fuel k (drop n bs))"

text \<open>\<open>str::from_utf8\<close> accepts; the octets are fuel enough, since a chunk takes at least one.\<close>

definition valid_utf8 :: "bytes \<Rightarrow> bool" where
  "valid_utf8 bs \<longleftrightarrow> valid_utf8_fuel (length bs) bs"

end
