(* ===== verification/Wire_Records.thy ===== *)
theory Wire_Records
  imports Wire_Packet Rust_Str "HOL-Library.AList"
begin

text \<open>
  What clients read from a response (\<open>src/src/wire/records.rs\<close> and \<open>src/src/wire/redirects.rs\<close>): the
  answer records in canonical form, service records, addresses behind CNAME and DNAME redirects,
  pointer names, and the reverse-lookup names. Hash maps are association lists read with \<open>map_of\<close>; the
  code only inserts keys that are absent. The properties give the redirect chain a declarative reading
  (\<open>redirect_chain\<close>) that both resolvers of chains compute within their bounds, show that a DNAME
  rewrite acts on labels, and that reverse names round-trip.
\<close>

section \<open>Answer records\<close>

definition MAX_REDIRECT_CHAIN :: nat where "MAX_REDIRECT_CHAIN = 64"

record address_records =
  adr_addresses :: "ip_addr list"
  adr_canonical_name :: string

type_synonym redirect_map = "(bytes \<times> dns_name) list"

record address_answer_set =
  as_aliases :: redirect_map
  as_dnames :: redirect_map
  as_addresses :: "(bytes \<times> ip_addr list) list"

text \<open>The answer loops: parse a record, run the body on it, move to its end, \<open>n\<close> times.\<close>

fun for_records ::
  "(resource_record \<Rightarrow> 's \<Rightarrow> wire_error + 's) \<Rightarrow> bytes \<Rightarrow> nat \<Rightarrow> nat \<Rightarrow> 's \<Rightarrow> wire_error + 's" where
  "for_records body packet 0 offset s = Inr s"
| "for_records body packet (Suc n) offset s =
     and_then (parse_record packet offset) (\<lambda>rec.
     and_then (body rec s) (\<lambda>s.
     for_records body packet n (rr_next_offset rec) s))"

text \<open>The question loop before them.\<close>

definition skip_questions :: "bytes \<Rightarrow> header \<Rightarrow> wire_error + nat" where
  "skip_questions packet header =
     and_then (parse_many parse_question q_next_offset packet (unat (h_question_count header))
                 DNS_HEADER_LEN) (\<lambda>(_, offset). Inr offset)"

definition slice :: "'a list \<Rightarrow> nat \<Rightarrow> nat \<Rightarrow> 'a list" where
  "slice xs a b = take (b - a) (drop a xs)"

definition canonical_name_rdata :: "bytes \<Rightarrow> nat \<Rightarrow> nat \<Rightarrow> wire_error + bytes" where
  "canonical_name_rdata packet offset expected_end =
     and_then (read_name packet offset) (\<lambda>(name, stop).
     if stop \<noteq> expected_end then Inl InvalidRecord else Inr (dn_canonical_wire name))"

definition canonical_soa_rdata :: "bytes \<Rightarrow> resource_record \<Rightarrow> wire_error + bytes" where
  "canonical_soa_rdata packet rec =
     and_then (read_name packet (rr_rdata_offset rec)) (\<lambda>(mname, after_mname).
     and_then (read_name packet after_mname) (\<lambda>(rname, after_rname).
     and_then (checked_end after_rname 20) (\<lambda>fixed_end.
     if fixed_end \<noteq> rr_next_offset rec then Inl InvalidRecord
     else Inr (dn_canonical_wire mname @ dn_canonical_wire rname @ slice packet after_rname fixed_end))))"

text \<open>
  The arms for MX and SRV (\<open>fixed\<close> octets, then a name that ends the data) and for RRSIG and SVCB
  (\<open>fixed\<close> octets, a name, and more octets up to the end).
\<close>

definition canonical_fixed_name_rdata :: "bytes \<Rightarrow> resource_record \<Rightarrow> nat \<Rightarrow> wire_error + bytes" where
  "canonical_fixed_name_rdata packet rec fixed =
     and_then (checked_end (rr_rdata_offset rec) fixed) (\<lambda>name_offset.
     if name_offset > rr_next_offset rec then Inl InvalidRecord
     else
       and_then (read_name packet name_offset) (\<lambda>(name, stop).
       if stop \<noteq> rr_next_offset rec then Inl InvalidRecord
       else Inr (take fixed (rr_rdata rec) @ dn_canonical_wire name)))"

definition canonical_fixed_name_tail_rdata :: "bytes \<Rightarrow> resource_record \<Rightarrow> nat \<Rightarrow> wire_error + bytes" where
  "canonical_fixed_name_tail_rdata packet rec fixed =
     and_then (checked_end (rr_rdata_offset rec) fixed) (\<lambda>name_offset.
     if name_offset > rr_next_offset rec then Inl InvalidRecord
     else
       and_then (read_name packet name_offset) (\<lambda>(name, stop).
       if stop > rr_next_offset rec then Inl InvalidRecord
       else Inr (take fixed (rr_rdata rec) @ dn_canonical_wire name @ slice packet stop (rr_next_offset rec))))"

definition canonical_nsec_rdata :: "bytes \<Rightarrow> resource_record \<Rightarrow> wire_error + bytes" where
  "canonical_nsec_rdata packet rec =
     and_then (read_name packet (rr_rdata_offset rec)) (\<lambda>(next_domain, bitmap_offset).
     if bitmap_offset > rr_next_offset rec then Inl InvalidRecord
     else Inr (dn_canonical_wire next_domain @ slice packet bitmap_offset (rr_next_offset rec)))"

definition canonical_record_rdata :: "bytes \<Rightarrow> resource_record \<Rightarrow> wire_error + bytes" where
  "canonical_record_rdata packet rec =
     (let t = rr_rr_type rec in
      if t \<in> {TYPE_NS, TYPE_CNAME, TYPE_PTR, TYPE_DNAME}
        then canonical_name_rdata packet (rr_rdata_offset rec) (rr_next_offset rec)
      else if t = 6 then canonical_soa_rdata packet rec
      else if t = 15 then canonical_fixed_name_rdata packet rec 2
      else if t = TYPE_SRV then canonical_fixed_name_rdata packet rec 6
      else if t = TYPE_RRSIG then canonical_fixed_name_tail_rdata packet rec 18
      else if t = 47 then canonical_nsec_rdata packet rec
      else if t = 64 \<or> t = 65 then canonical_fixed_name_tail_rdata packet rec 2
      else Inr (rr_rdata rec))"

text \<open>The body of the answer loop of \<open>extract_answer_records\<close>.\<close>

definition answer_record_of :: "bytes \<Rightarrow> resource_record \<Rightarrow> wire_error + answer_record" where
  "answer_record_of packet rec =
     and_then (canonical_record_rdata packet rec) (\<lambda>rdata.
     and_then (ok_or (u16_try_from (length rdata)) InvalidRecord) (\<lambda>len.
     let raw = dn_canonical_wire (rr_name rec) @ u16_to_be (rr_rr_type rec) @ u16_to_be (rr_class rec) @
               u32_to_be (rr_ttl rec) @ u16_to_be len @ rdata in
     Inr \<lparr>ar_name = rr_name rec, ar_rr_type = rr_rr_type rec, ar_class = rr_class rec,
          ar_ttl = rr_ttl rec, ar_rdata = rdata, ar_raw = raw\<rparr>))"

definition extract_answer_records :: "bytes \<Rightarrow> wire_error + answer_record list" where
  "extract_answer_records packet =
     and_then (header_parse packet) (\<lambda>header.
     if \<not> is_response header then Inl WrongDirection
     else
       and_then (skip_questions packet header) (\<lambda>offset.
       for_records (\<lambda>rec out. and_then (answer_record_of packet rec) (\<lambda>a. Inr (out @ [a])))
         packet (unat (h_answer_count header)) offset []))"

definition extract_matching_answer_records ::
  "bytes \<Rightarrow> string \<Rightarrow> u16 \<Rightarrow> u16 \<Rightarrow> wire_error + answer_record list" where
  "extract_matching_answer_records packet name cls rr_type =
     and_then (canonical_name_wire name) (\<lambda>expected.
     and_then (extract_answer_records packet) (\<lambda>recs.
     Inr (filter (\<lambda>rec. dn_canonical_wire (ar_name rec) = expected
            \<and> (cls = CLASS_ANY \<or> ar_class rec = cls)
            \<and> (rr_type = TYPE_ANY \<or> ar_rr_type rec = rr_type)) recs)))"

section \<open>Service records\<close>

definition srv_record_of :: "bytes \<Rightarrow> resource_record \<Rightarrow> wire_error + srv_record" where
  "srv_record_of packet rec =
     (if length (rr_rdata rec) < 7 then Inl InvalidRecord
      else
        and_then (checked_end (rr_rdata_offset rec) 6) (\<lambda>target_offset.
        and_then (read_name packet target_offset) (\<lambda>(target, target_end).
        if target_end \<noteq> rr_next_offset rec then Inl InvalidRecord
        else
          and_then (read_u16 packet (rr_rdata_offset rec)) (\<lambda>priority.
          and_then (read_u16 packet (rr_rdata_offset rec + 2)) (\<lambda>weight.
          and_then (read_u16 packet (rr_rdata_offset rec + 4)) (\<lambda>port.
          Inr \<lparr>srv_priority = priority, srv_weight = weight, srv_port = port, srv_target = target\<rparr>))))))"

function txt_items :: "bytes \<Rightarrow> nat \<Rightarrow> nat \<Rightarrow> bytes list \<Rightarrow> wire_error + bytes list" where
  "txt_items packet cursor stop txt =
     (if cursor < stop then
        and_then (ok_or (get_at packet cursor) ShortPacket) (\<lambda>len.
        and_then (checked_end cursor 1) (\<lambda>content.
        and_then (checked_end content (unat len)) (\<lambda>item_end.
        and_then (ok_or (case get_range packet content item_end of
                           None \<Rightarrow> None
                         | Some item \<Rightarrow> if item_end \<le> stop then Some item else None) InvalidRecord) (\<lambda>item.
        txt_items packet item_end stop (if item = [] then txt else txt @ [item])))))
      else Inr txt)"
  by pat_completeness auto

termination
  by (relation "measure (\<lambda>(p, c, e, t). e - c)") (auto simp: slice_simps)

declare txt_items.simps [simp del]

definition service_record_step ::
  "bytes \<Rightarrow> bytes option \<Rightarrow> resource_record \<Rightarrow> service_records \<Rightarrow> wire_error + service_records" where
  "service_record_step packet expected_name rec out =
     (if rr_class rec \<noteq> CLASS_IN
         \<or> (case expected_name of None \<Rightarrow> False | Some expected \<Rightarrow> dn_canonical_wire (rr_name rec) \<noteq> expected)
      then Inr out
      else if rr_rr_type rec = TYPE_SRV then
        and_then (srv_record_of packet rec) (\<lambda>srv. Inr (out\<lparr>sr_srv := sr_srv out @ [srv]\<rparr>))
      else if rr_rr_type rec = TYPE_TXT then
        and_then (txt_items packet (rr_rdata_offset rec) (rr_next_offset rec) (sr_txt out)) (\<lambda>txt.
        Inr (out\<lparr>sr_txt := txt\<rparr>))
      else Inr out)"

definition extract_service_records_inner :: "bytes \<Rightarrow> bytes option \<Rightarrow> wire_error + service_records" where
  "extract_service_records_inner packet expected_name =
     and_then (header_parse packet) (\<lambda>header.
     if \<not> is_response header then Inl WrongDirection
     else
       and_then (skip_questions packet header) (\<lambda>offset.
       for_records (service_record_step packet expected_name) packet (unat (h_answer_count header)) offset
         \<lparr>sr_srv = [], sr_txt = []\<rparr>))"

definition extract_service_records :: "bytes \<Rightarrow> wire_error + service_records" where
  "extract_service_records packet = extract_service_records_inner packet None"

definition extract_service_records_for_name :: "bytes \<Rightarrow> string \<Rightarrow> wire_error + service_records" where
  "extract_service_records_for_name packet name =
     and_then (canonical_name_wire name) (\<lambda>expected.
     extract_service_records_inner packet (Some expected))"

section \<open>Addresses behind redirects\<close>

definition insert_redirect ::
  "bytes \<Rightarrow> resource_record \<Rightarrow> bytes \<Rightarrow> redirect_map \<Rightarrow> wire_error + redirect_map" where
  "insert_redirect packet rec owner redirects =
     and_then (read_name packet (rr_rdata_offset rec)) (\<lambda>(target, stop).
     if stop \<noteq> rr_next_offset rec then Inl InvalidRecord
     else case map_of redirects owner of
            Some existing \<Rightarrow>
              if dn_canonical_wire existing \<noteq> dn_canonical_wire target then Inl InvalidRecord
              else Inr redirects
          | None \<Rightarrow> Inr ((owner, target) # redirects))"

definition insert_address :: "address_answer_set \<Rightarrow> bytes \<Rightarrow> ip_addr \<Rightarrow> address_answer_set" where
  "insert_address output owner address =
     (let vals = (case map_of (as_addresses output) owner of None \<Rightarrow> [] | Some vs \<Rightarrow> vs);
          vals = (if address \<in> set vals then vals else vals @ [address])
      in output\<lparr>as_addresses := AList.update owner vals (as_addresses output)\<rparr>)"

definition address_answer_step ::
  "bytes \<Rightarrow> resource_record \<Rightarrow> address_answer_set \<Rightarrow> wire_error + address_answer_set" where
  "address_answer_step packet rec out =
     (if rr_class rec \<noteq> CLASS_IN then Inr out
      else
        let owner = dn_canonical_wire (rr_name rec) in
        if rr_rr_type rec = TYPE_CNAME then
          and_then (insert_redirect packet rec owner (as_aliases out)) (\<lambda>m. Inr (out\<lparr>as_aliases := m\<rparr>))
        else if rr_rr_type rec = TYPE_DNAME then
          and_then (insert_redirect packet rec owner (as_dnames out)) (\<lambda>m. Inr (out\<lparr>as_dnames := m\<rparr>))
        else if rr_rr_type rec = TYPE_A then
          (if length (rr_rdata rec) = 4
           then Inr (insert_address out owner (V4 (ipv4_from_octets (rr_rdata rec))))
           else Inl InvalidRecord)
        else if rr_rr_type rec = TYPE_AAAA then
          (if length (rr_rdata rec) = 16
           then Inr (insert_address out owner (V6 (ipv6_from_octets (rr_rdata rec))))
           else Inl InvalidRecord)
        else Inr out)"

definition has_key :: "('k \<times> 'v) list \<Rightarrow> 'k \<Rightarrow> bool" where
  "has_key m k \<longleftrightarrow> map_of m k \<noteq> None"

definition parse_address_answers :: "bytes \<Rightarrow> u16 \<Rightarrow> nat \<Rightarrow> wire_error + address_answer_set" where
  "parse_address_answers packet answer_count offset =
     and_then (for_records (address_answer_step packet) packet (unat answer_count) offset
                 \<lparr>as_aliases = [], as_dnames = [], as_addresses = []\<rparr>) (\<lambda>out.
     if list_ex (\<lambda>(owner, _). has_key (as_addresses out) owner \<or> has_key (as_dnames out) owner) (as_aliases out)
     then Inl InvalidRecord
     else Inr out)"

definition rewrite_dname_text :: "string \<Rightarrow> nat \<Rightarrow> string \<Rightarrow> wire_error + string" where
  "rewrite_dname_text current prefix_labels target =
     (let labels = (if current = ''.'' then [] else split_dots current) in
      and_then (ok_or (get_range labels 0 prefix_labels) InvalidRecord) (\<lambda>prefix.
      let prefix = join_labels prefix in
      Inr (if prefix = [] then (if target = ''.'' then ''.'' else target)
           else if target = ''.'' then prefix else prefix @ ''.'' @ target)))"

text \<open>What both DNAME loops do when they find a covering owner.\<close>

definition apply_dname :: "dns_name \<Rightarrow> nat \<Rightarrow> nat \<Rightarrow> dns_name \<Rightarrow> wire_error + dns_name option" where
  "apply_dname current suffix_offset prefix_labels target =
     (let prefix = take suffix_offset (dn_canonical_wire current) in
      and_then (ok_or (usize_checked_add (length prefix) (length (dn_canonical_wire target))) NameTooLong) (\<lambda>len.
      if len > 255 then Inl NameTooLong
      else
        and_then (rewrite_dname_text (dn_text current) prefix_labels (dn_text target)) (\<lambda>txt.
        Inr (Some \<lparr>dn_text = txt, dn_canonical_wire = prefix @ dn_canonical_wire target\<rparr>))))"

text \<open>The scan of \<open>rewrite_dname\<close>: it ends because the offset grows towards the end of the name.\<close>

function rewrite_dname_loop ::
  "dns_name \<Rightarrow> redirect_map \<Rightarrow> nat \<Rightarrow> nat \<Rightarrow> wire_error + dns_name option" where
  "rewrite_dname_loop current dnames suffix_offset prefix_labels =
     (let canonical = dn_canonical_wire current in
      case map_of dnames (drop suffix_offset canonical) of
        Some target \<Rightarrow> apply_dname current suffix_offset prefix_labels target
      | None \<Rightarrow>
          and_then (ok_or (get_at canonical suffix_offset) InvalidRecord) (\<lambda>label_length.
          if label_length = 0 then Inr None
          else if unat label_length > 63 then Inl InvalidRecord
          else
            and_then (ok_or (usize_checked_add suffix_offset (unat label_length + 1)) NameTooLong) (\<lambda>suffix_offset.
            if suffix_offset \<ge> length canonical then Inl InvalidRecord
            else rewrite_dname_loop current dnames suffix_offset (prefix_labels + 1))))"
  by pat_completeness auto

termination
  by (relation "measure (\<lambda>(c, d, off, n). length (dn_canonical_wire c) - off)") (auto simp: result_simps slice_simps)

declare rewrite_dname_loop.simps [simp del]

definition rewrite_dname :: "dns_name \<Rightarrow> redirect_map \<Rightarrow> wire_error + dns_name option" where
  "rewrite_dname current dnames = rewrite_dname_loop current dnames 0 0"

fun family_matches :: "int option \<Rightarrow> ip_addr \<Rightarrow> bool" where
  "family_matches None _ = True"
| "family_matches (Some f) (V4 _) = (f = 2)"
| "family_matches (Some f) (V6 _) = (f = 10)"

fun resolve_address_loop ::
  "nat \<Rightarrow> dns_name \<Rightarrow> bytes set \<Rightarrow> address_answer_set \<Rightarrow> int option \<Rightarrow> wire_error + address_records" where
  "resolve_address_loop 0 current visited answers family = Inl InvalidRecord"
| "resolve_address_loop (Suc n) current visited answers family =
     (if dn_canonical_wire current \<in> visited then Inl InvalidRecord
      else
        let visited = insert (dn_canonical_wire current) visited in
        case map_of (as_aliases answers) (dn_canonical_wire current) of
          Some target \<Rightarrow> resolve_address_loop n target visited answers family
        | None \<Rightarrow>
            and_then (rewrite_dname current (as_dnames answers)) (\<lambda>rewritten.
            case rewritten of
              Some target \<Rightarrow> resolve_address_loop n target visited answers family
            | None \<Rightarrow>
                Inr \<lparr>adr_addresses = filter (family_matches family)
                       (case map_of (as_addresses answers) (dn_canonical_wire current) of
                          None \<Rightarrow> [] | Some vs \<Rightarrow> vs),
                     adr_canonical_name = dn_text current\<rparr>))"

definition resolve_address_chain ::
  "dns_name \<Rightarrow> address_answer_set \<Rightarrow> int option \<Rightarrow> wire_error + address_records" where
  "resolve_address_chain question answers family =
     resolve_address_loop MAX_REDIRECT_CHAIN question {} answers family"

definition extract_address_records :: "bytes \<Rightarrow> int option \<Rightarrow> wire_error + address_records" where
  "extract_address_records packet family =
     and_then (header_parse packet) (\<lambda>header.
     if \<not> is_response header then Inl WrongDirection
     else if h_question_count header \<noteq> 1 then Inl (WrongQuestionCount (h_question_count header))
     else
       and_then (parse_question packet DNS_HEADER_LEN) (\<lambda>question.
       and_then (parse_address_answers packet (h_answer_count header) (q_next_offset question)) (\<lambda>answers.
       resolve_address_chain (q_name question) answers family)))"

definition extract_addresses :: "bytes \<Rightarrow> int option \<Rightarrow> wire_error + ip_addr list" where
  "extract_addresses packet family =
     and_then (extract_address_records packet family) (\<lambda>recs. Inr (adr_addresses recs))"

definition extract_ptr_names :: "bytes \<Rightarrow> wire_error + string list" where
  "extract_ptr_names packet =
     and_then (header_parse packet) (\<lambda>header.
     if \<not> is_response header then Inl WrongDirection
     else
       and_then (skip_questions packet header) (\<lambda>offset.
       for_records (\<lambda>rec out.
           if rr_class rec = CLASS_IN \<and> rr_rr_type rec = TYPE_PTR
           then and_then (read_name packet (rr_rdata_offset rec)) (\<lambda>(name, _). Inr (out @ [dn_text name]))
           else Inr out)
         packet (unat (h_answer_count header)) offset []))"

section \<open>Lemmas: DNAME rewriting on labels\<close>

definition wf_name :: "dns_name \<Rightarrow> bool" where
  "wf_name n \<longleftrightarrow> (\<exists>ls. valid_labels ls \<and> n = name_of_labels ls)"

definition wf_redirects :: "redirect_map \<Rightarrow> bool" where
  "wf_redirects m \<longleftrightarrow> (\<forall>x \<in> set m. wf_name (snd x))"

lemma canonical_wire_of_labels [simp]: "dn_canonical_wire (name_of_labels ls) = canonical_of_labels ls"
  by (simp add: name_of_labels_def)

lemma read_name_wf: "read_name p off = Inr (n, e) \<Longrightarrow> wf_name n"
  unfolding wf_name_def by (metis read_name_sound)

lemma wf_redirects_lookup: "wf_redirects m \<Longrightarrow> map_of m k = Some n \<Longrightarrow> wf_name n"
  by (fastforce simp: wf_redirects_def dest: map_of_SomeD)

lemma escape_byte_no_dot: "CHR ''.'' \<notin> set (escape_byte b)"
proof (cases "is_plain_byte b")
  case True
  then have "byte_of (char_of_byte b) \<noteq> 46" using plain_byte_ordinary(1) by simp
  moreover have "byte_of (CHR ''.'') = 46" by (simp add: byte_of_def)
  ultimately show ?thesis using True by (auto simp: escape_byte_def simp del: byte_of_char_of_byte)
next
  case False
  have digit: "CHR ''.'' \<noteq> digit_char d" if "d \<le> 9" for d
  proof
    assume "CHR ''.'' = digit_char d"
    then have "digit_char d = CHR ''.''" ..
    then have "byte_of (digit_char d) = 46" by (simp add: byte_of_def)
    then show False using digit_octet(4) [OF that] by (simp add: digit_char_def del: of_nat_add)
  qed
  moreover have "unat b div 100 \<le> 9" "unat b div 10 mod 10 \<le> 9" "unat b mod 10 \<le> 9"
    using unat_u8_le [of b] by linarith+
  ultimately show ?thesis using False by (simp add: escape_byte_def)
qed

lemma escape_text_no_dot: "CHR ''.'' \<notin> set (escape_text l)"
  using escape_byte_no_dot by (auto simp: escape_text_def)

lemma escape_text_nonempty: "l \<noteq> [] \<Longrightarrow> escape_text l \<noteq> []"
  by (cases l) (simp_all add: escape_text_def)

lemma split_dots_join:
  assumes "ls \<noteq> []" and "\<forall>l \<in> set ls. CHR ''.'' \<notin> set l"
  shows "split_dots (join_labels ls) = ls"
  using assms
proof (induction ls rule: join_labels.induct)
  case (3 l l' ls)
  then show ?case using split_dots_append [of l "join_labels (l' # ls)"] by simp
qed (auto simp: split_dots_no_dot)

lemma join_labels_append:
  "ls \<noteq> [] \<Longrightarrow> ms \<noteq> [] \<Longrightarrow> join_labels (ls @ ms) = join_labels ls @ ''.'' @ join_labels ms"
proof (induction ls rule: join_labels.induct)
  case (2 l)
  then show ?case by (cases ms) auto
qed auto

lemma join_labels_nonempty:
  assumes "ls \<noteq> []" and "\<forall>l \<in> set ls. l \<noteq> []"
  shows "join_labels ls \<noteq> []"
  using assms by (cases ls rule: join_labels.cases) auto

lemma name_text_not_dot:
  assumes "ls \<noteq> []" and "list_all valid_label ls"
  shows "dn_text (name_of_labels ls) \<noteq> ''.''" and "split_dots (dn_text (name_of_labels ls)) = map escape_text ls"
proof -
  show sp: "split_dots (dn_text (name_of_labels ls)) = map escape_text ls"
    using assms(1) escape_text_no_dot by (simp add: name_of_labels_def split_dots_join)
  show "dn_text (name_of_labels ls) \<noteq> ''.''"
  proof
    assume "dn_text (name_of_labels ls) = ''.''"
    with sp have "map escape_text ls = [[], []]" by simp
    then show False using assms(2) escape_text_nonempty by (auto simp: valid_label_def)
  qed
qed

text \<open>The text of a rewritten name is the text of the rewritten labels.\<close>

lemma rewrite_dname_text_labels:
  assumes "list_all valid_label ls" and "list_all valid_label ts" and "k \<le> length ls"
  shows "rewrite_dname_text (dn_text (name_of_labels ls)) k (dn_text (name_of_labels ts)) =
    Inr (dn_text (name_of_labels (take k ls @ ts)))"
proof -
  let ?c = "dn_text (name_of_labels ls)"
  have labels: "(if ?c = ''.'' then [] else split_dots ?c) = map escape_text ls"
    using name_text_not_dot [OF _ assms(1)] by (cases "ls = []") (simp_all add: name_of_labels_def)
  have root: "dn_text (name_of_labels ts) = ''.'' \<longleftrightarrow> ts = []"
    using name_text_not_dot(1) [OF _ assms(2)] by (cases "ts = []") (simp_all add: name_of_labels_def)
  have pre: "join_labels (map escape_text (take k ls)) = [] \<longleftrightarrow> take k ls = []"
  proof (cases "take k ls = []")
    case False
    have "\<forall>l \<in> set (map escape_text (take k ls)). l \<noteq> []"
      using assms(1) escape_text_nonempty by (auto simp: list_all_iff valid_label_def dest: in_set_takeD)
    then show ?thesis using False join_labels_nonempty [of "map escape_text (take k ls)"] by simp
  next
    case True
    show ?thesis unfolding True by simp
  qed
  have tx: "dn_text (name_of_labels xs) = (if xs = [] then ''.'' else join_labels (map escape_text xs))" for xs
    by (simp add: name_of_labels_def)
  have gr: "get_range (map escape_text ls) 0 k = Some (map escape_text (take k ls))"
    using assms(3) by (simp add: get_range_def take_map)
  have "rewrite_dname_text ?c k (dn_text (name_of_labels ts)) =
      Inr (if take k ls = [] then dn_text (name_of_labels ts)
           else if ts = [] then join_labels (map escape_text (take k ls))
           else join_labels (map escape_text (take k ls)) @ ''.'' @ dn_text (name_of_labels ts))"
    unfolding rewrite_dname_text_def Let_def labels gr ok_or_simps and_then_Inr root pre
    by (auto simp: tx)
  also have "\<dots> = Inr (dn_text (name_of_labels (take k ls @ ts)))"
  proof (cases "take k ls = []")
    case True
    show ?thesis unfolding True by simp
  next
    case False
    then show ?thesis
      using join_labels_append [of "map escape_text (take k ls)" "map escape_text ts"] by (simp add: tx)
  qed
  finally show ?thesis .
qed

lemma canonical_of_labels_append:
  "canonical_of_labels (ls @ ms) = concat (map (\<lambda>l. label_wire (map ascii_lower l)) ls) @ canonical_of_labels ms"
  by (induction ls) (simp_all add: label_wire_def)

text \<open>The offset of label \<open>k\<close> in a canonical name.\<close>

definition label_offset :: "bytes list \<Rightarrow> nat \<Rightarrow> nat" where
  "label_offset ls k = length (concat (map label_wire (take k ls)))"

lemma length_concat_label_wire_lower:
  "length (concat (map (\<lambda>l. label_wire (map ascii_lower l)) ls)) = length (concat (map label_wire ls))"
  by (induction ls) (simp_all add: label_wire_def)

lemma canonical_split:
  assumes "k \<le> length ls"
  shows "drop (label_offset ls k) (canonical_of_labels ls) = canonical_of_labels (drop k ls)"
    and "take (label_offset ls k) (canonical_of_labels ls) @ canonical_of_labels ms = canonical_of_labels (take k ls @ ms)"
    and "length (canonical_of_labels ls) = label_offset ls k + length (canonical_of_labels (drop k ls))"
proof -
  let ?pre = "concat (map (\<lambda>l. label_wire (map ascii_lower l)) (take k ls))"
  have c: "canonical_of_labels ls = ?pre @ canonical_of_labels (drop k ls)"
    using canonical_of_labels_append [of "take k ls" "drop k ls"] by simp
  have l: "length ?pre = label_offset ls k"
    by (simp add: label_offset_def length_concat_label_wire_lower)
  show "drop (label_offset ls k) (canonical_of_labels ls) = canonical_of_labels (drop k ls)"
    by (subst c, simp only: l [symmetric], simp)
  show "take (label_offset ls k) (canonical_of_labels ls) @ canonical_of_labels ms = canonical_of_labels (take k ls @ ms)"
    by (subst c, simp only: l [symmetric], simp add: canonical_of_labels_append)
  show "length (canonical_of_labels ls) = label_offset ls k + length (canonical_of_labels (drop k ls))"
    by (metis c l length_append)
qed

lemma label_offset_Suc:
  "k < length ls \<Longrightarrow> label_offset ls (Suc k) = label_offset ls k + (length (ls ! k) + 1)"
  by (simp add: label_offset_def take_Suc_conv_app_nth label_wire_def)

lemma length_wire_append:
  "length (wire_of_labels (ls @ ms)) = length (concat (map label_wire ls)) + length (wire_of_labels ms)"
  by (simp add: wire_of_labels_def)

lemma get_at_label_offset:
  assumes "k \<le> length ls"
  shows "get_at (canonical_of_labels ls) (label_offset ls k) =
    Some (if k = length ls then 0 else of_nat (length (ls ! k)))"
proof -
  have "get_at (canonical_of_labels ls) (label_offset ls k) =
      get_at (drop (label_offset ls k) (canonical_of_labels ls)) 0"
    using canonical_split(3) [OF assms] by (auto simp: get_at_def)
  also have "\<dots> = get_at (canonical_of_labels (drop k ls)) 0" by (simp only: canonical_split(1) [OF assms])
  also have "\<dots> = Some (if k = length ls then 0 else of_nat (length (ls ! k)))"
    using assms by (cases "drop k ls") (auto simp: Cons_nth_drop_Suc [symmetric])
  finally show ?thesis .
qed

text \<open>The first suffix, counted in labels from \<open>k\<close> on, that owns a DNAME.\<close>

definition dname_at :: "redirect_map \<Rightarrow> bytes list \<Rightarrow> nat \<Rightarrow> dns_name option" where
  "dname_at m ls k = map_of m (canonical_of_labels (drop k ls))"

definition rewritten :: "redirect_map \<Rightarrow> bytes list \<Rightarrow> nat list \<Rightarrow> wire_error + dns_name option" where
  "rewritten m ls ks =
     (case find (\<lambda>k. dname_at m ls k \<noteq> None) ks of
        None \<Rightarrow> Inr None
      | Some k \<Rightarrow> apply_dname (name_of_labels ls) (label_offset ls k) k (the (dname_at m ls k)))"

lemma apply_dname_labels:
  assumes "valid_labels ls" and "valid_labels ts" and "k \<le> length ls"
  shows "apply_dname (name_of_labels ls) (label_offset ls k) k (name_of_labels ts) =
    (if length (wire_of_labels (take k ls @ ts)) > 255 then Inl NameTooLong
     else Inr (Some (name_of_labels (take k ls @ ts))))"
proof -
  let ?pre = "take (label_offset ls k) (canonical_of_labels ls)"
  have v: "list_all valid_label ls" "list_all valid_label ts" using assms by (simp_all add: valid_labels_def)
  have pre: "?pre @ canonical_of_labels ts = canonical_of_labels (take k ls @ ts)"
    by (rule canonical_split(2) [OF assms(3)])
  have len: "length ?pre + length (canonical_of_labels ts) = length (wire_of_labels (take k ls @ ts))"
    using arg_cong [OF pre, of length] by (simp del: length_take)
  have "length (wire_of_labels (take k ls @ ts)) \<le> USIZE_MAX"
    using len assms(1,2) canonical_split(3) [OF assms(3)] by (simp add: valid_labels_def USIZE_MAX_def)
  then show ?thesis
    using rewrite_dname_text_labels [OF v assms(3)] pre len
    by (simp add: apply_dname_def Let_def name_of_labels_def usize_checked_add_def del: length_take)
qed

lemma rewrite_dname_loop_labels:
  assumes "valid_labels ls" and "k \<le> length ls"
  shows "rewrite_dname_loop (name_of_labels ls) m (label_offset ls k) k = rewritten m ls [k..<Suc (length ls)]"
  using assms(2)
proof (induction "length ls - k" arbitrary: k)
  case 0
  then have k: "k = length ls" by simp
  then show ?case
    using get_at_label_offset [of k ls] canonical_split(1) [of k ls]
    by (subst rewrite_dname_loop.simps)
      (auto simp: rewritten_def dname_at_def Let_def split: option.splits)
next
  case (Suc n)
  then have k: "k < length ls" by simp
  have lab: "0 < length (ls ! k)" "length (ls ! k) \<le> 63"
    using assms(1) k by (auto simp: valid_labels_def list_all_length valid_label_def)
  have b: "unat (of_nat (length (ls ! k)) :: u8) = length (ls ! k)" using lab(2) by (rule unat_of_nat_label)
  then have nz: "of_nat (length (ls ! k)) \<noteq> (0 :: u8)" using lab(1) by (metis neq0_conv unat_0)
  have off: "label_offset ls (Suc k) = label_offset ls k + (length (ls ! k) + 1)"
    by (rule label_offset_Suc [OF k])
  have lt: "label_offset ls (Suc k) < length (canonical_of_labels ls)"
    using canonical_split(3) [of "Suc k" ls] k wire_of_labels_pos [of "drop (Suc k) ls"] by simp
  moreover have "length (canonical_of_labels ls) \<le> 255" using assms(1) by (simp add: valid_labels_def)
  ultimately have us: "label_offset ls k + (length (ls ! k) + 1) \<le> USIZE_MAX"
    unfolding USIZE_MAX_def off by linarith
  have IH: "rewrite_dname_loop (name_of_labels ls) m (label_offset ls (Suc k)) (Suc k) = rewritten m ls [Suc k..<Suc (length ls)]"
    using Suc k by (intro Suc.hyps(1)) simp_all
  have up: "[k..<Suc (length ls)] = k # [Suc k..<Suc (length ls)]" using k by (simp add: upt_conv_Cons del: upt_Suc)
  have get: "get_at (canonical_of_labels ls) (label_offset ls k) = Some (of_nat (length (ls ! k)))"
    using get_at_label_offset [of k ls] k by simp
  show ?case
  proof (cases "dname_at m ls k")
    case None
    have "rewrite_dname_loop (name_of_labels ls) m (label_offset ls k) k =
        rewrite_dname_loop (name_of_labels ls) m (label_offset ls (Suc k)) (Suc k)"
      using None get nz b lab lt us off canonical_split(1) [of k ls] k
      by (subst rewrite_dname_loop.simps)
        (simp add: dname_at_def Let_def usize_checked_add_def)
    then show ?thesis using None IH by (simp add: rewritten_def up del: upt_Suc)
  next
    case (Some t)
    then show ?thesis using canonical_split(1) [of k ls] k
      by (subst rewrite_dname_loop.simps)
        (simp add: rewritten_def up dname_at_def Let_def del: upt_Suc)
  qed
qed

section \<open>The interface of redirects\<close>

text \<open>
  A redirect chain follows \<open>hop\<close> from a name until no redirect applies; \<open>ks\<close> are the keys of the names
  on the way, the last one included.
\<close>

inductive redirect_chain :: "('n \<Rightarrow> 'e + 'n option) \<Rightarrow> ('n \<Rightarrow> 'k) \<Rightarrow> 'n \<Rightarrow> 'k list \<Rightarrow> 'n \<Rightarrow> bool"
  for hop key where
  chain_end: "hop c = Inr None \<Longrightarrow> redirect_chain hop key c [key c] c"
| chain_hop: "hop c = Inr (Some t) \<Longrightarrow> redirect_chain hop key t ks e \<Longrightarrow> redirect_chain hop key c (key c # ks) e"

inductive_cases redirect_chain_end: "redirect_chain hop key c [k] e"
inductive_cases redirect_chain_cases: "redirect_chain hop key c ks e"

text \<open>
  What both chain resolvers rely on: a hop keeps names well formed, and names with the same key (the
  canonical wire form) are redirected alike. Then a chain that ends never meets a key twice, so the
  \<open>visited\<close> sets of the resolvers reject exactly the chains that do not end.
\<close>

locale redirect_hops =
  fixes hop :: "'m \<Rightarrow> 'n \<Rightarrow> 'e + 'n option"
    and key :: "'n \<Rightarrow> 'k"
    and wf_map :: "'m \<Rightarrow> bool"
    and wf :: "'n \<Rightarrow> bool"
  assumes hop_wf: "wf_map m \<Longrightarrow> wf c \<Longrightarrow> hop m c = Inr (Some t) \<Longrightarrow> wf t"
    and hop_key: "wf_map m \<Longrightarrow> wf c \<Longrightarrow> wf d \<Longrightarrow> key c = key d \<Longrightarrow> hop m c = Inr (Some t) \<Longrightarrow>
      \<exists>u. hop m d = Inr (Some u) \<and> key u = key t"
    and hop_key_end: "wf_map m \<Longrightarrow> wf c \<Longrightarrow> wf d \<Longrightarrow> key c = key d \<Longrightarrow> hop m c = Inr None \<Longrightarrow> hop m d = Inr None"
begin

lemma chain_keys_unique:
  assumes "redirect_chain (hop m) key c ks e" and "redirect_chain (hop m) key d ks' e'"
    and "wf_map m" and "wf c" and "wf d" and "key c = key d"
  shows "ks = ks'"
  using assms
proof (induction arbitrary: d ks' e' rule: redirect_chain.induct)
  case (chain_end c)
  then have "hop m d = Inr None" using hop_key_end by blast
  with chain_end.prems(1,5) show ?case by (auto elim: redirect_chain_cases)
next
  case (chain_hop c t ks e)
  obtain u where u: "hop m d = Inr (Some u)" "key u = key t"
    using hop_key [OF chain_hop.prems(2-5) chain_hop.hyps(1)] by blast
  from chain_hop.prems(1) u(1) obtain ks'' where ks'': "redirect_chain (hop m) key u ks'' e'" "ks' = key d # ks''"
    by (auto elim: redirect_chain_cases)
  have "wf t" "wf u" using chain_hop.prems chain_hop.hyps(1) u(1) hop_wf by blast+
  then show ?case using chain_hop.IH [OF ks''(1)] chain_hop.prems(2,5) u(2) ks''(2) by simp
qed

lemma chain_suffix:
  assumes "redirect_chain (hop m) key c ks e" and "wf_map m" and "wf c" and "k \<in> set ks"
  shows "\<exists>d ks'. redirect_chain (hop m) key d ks' e \<and> wf d \<and> key d = k \<and> length ks' \<le> length ks"
  using assms
proof (induction rule: redirect_chain.induct)
  case (chain_end c)
  then show ?case
    using redirect_chain.chain_end [of "hop m" c key] by (intro exI [of _ c] exI [of _ "[key c]"]) simp
next
  case (chain_hop c t ks e)
  show ?case
  proof (cases "k = key c")
    case True
    have "redirect_chain (hop m) key c (key c # ks) e"
      using chain_hop.hyps by (rule redirect_chain.chain_hop)
    with True chain_hop.prems show ?thesis by blast
  next
    case False
    have "wf t" using chain_hop.prems chain_hop.hyps(1) hop_wf by blast
    with False chain_hop show ?thesis by (metis length_Cons le_Suc_eq set_ConsD)
  qed
qed

lemma chain_keys_distinct:
  assumes "redirect_chain (hop m) key c ks e" and "wf_map m" and "wf c"
  shows "distinct ks"
  using assms
proof (induction rule: redirect_chain.induct)
  case (chain_hop c t ks e)
  have t: "wf t" using chain_hop hop_wf by blast
  have "key c \<notin> set ks"
  proof
    assume "key c \<in> set ks"
    then obtain d ks' where d: "redirect_chain (hop m) key d ks' e" "wf d" "key d = key c" "length ks' \<le> length ks"
      using chain_suffix [OF chain_hop.hyps(2) chain_hop.prems(1) t] by blast
    have "redirect_chain (hop m) key c (key c # ks) e"
      using chain_hop.hyps by (rule redirect_chain.chain_hop)
    then have "key c # ks = ks'"
      using chain_keys_unique [OF _ d(1)] chain_hop.prems d by simp
    with d(4) show False by auto
  qed
  then show ?case using chain_hop t by simp
qed simp

end

text \<open>The hop of the address resolver: an alias of the name, or a DNAME at or above it.\<close>

definition address_hop :: "redirect_map \<times> redirect_map \<Rightarrow> dns_name \<Rightarrow> wire_error + dns_name option" where
  "address_hop m c =
     (case map_of (fst m) (dn_canonical_wire c) of
        Some t \<Rightarrow> Inr (Some t) | None \<Rightarrow> rewrite_dname c (snd m))"

definition wf_redirect_maps :: "redirect_map \<times> redirect_map \<Rightarrow> bool" where
  "wf_redirect_maps m \<longleftrightarrow> wf_redirects (fst m) \<and> wf_redirects (snd m)"

lemma rewrite_dname_labels:
  assumes "valid_labels ls"
  shows "rewrite_dname (name_of_labels ls) m = rewritten m ls [0..<Suc (length ls)]"
  using rewrite_dname_loop_labels [OF assms, of 0 m]
  by (simp add: rewrite_dname_def label_offset_def del: upt_Suc)

lemma rewritten_Some:
  assumes "valid_labels ls" and "wf_redirects m" and "set ks \<subseteq> {0..length ls}"
    and "rewritten m ls ks = Inr (Some t)"
  obtains k ts where "find (\<lambda>k. dname_at m ls k \<noteq> None) ks = Some k" and "k \<le> length ls"
    and "dname_at m ls k = Some (name_of_labels ts)" and "valid_labels ts"
    and "valid_labels (take k ls @ ts)" and "t = name_of_labels (take k ls @ ts)"
proof -
  from assms(4) obtain k where k: "find (\<lambda>k. dname_at m ls k \<noteq> None) ks = Some k"
    by (auto simp: rewritten_def split: option.splits)
  then have kk: "k \<le> length ls" "dname_at m ls k \<noteq> None"
    using assms(3) by (auto simp: find_Some_iff dest: nth_mem)
  then obtain ts where ts: "dname_at m ls k = Some (name_of_labels ts)" "valid_labels ts"
    using wf_redirects_lookup [OF assms(2)] by (fastforce simp: dname_at_def wf_name_def)
  have "length (wire_of_labels (take k ls @ ts)) \<le> 255" "t = name_of_labels (take k ls @ ts)"
    using assms(4) k ts apply_dname_labels [OF assms(1) ts(2) kk(1)]
    by (auto simp: rewritten_def split: if_splits)
  moreover have "list_all valid_label (take k ls @ ts)"
    using assms(1) ts(2) by (auto simp: valid_labels_def list_all_iff dest: in_set_takeD)
  ultimately show ?thesis using that [OF k kk(1) ts] by (simp add: valid_labels_def)
qed

text \<open>Names with the same canonical form have labels that agree up to case, one by one.\<close>

lemma canonical_of_labels_inject:
  assumes "list_all valid_label ls" and "list_all valid_label ms"
    and "canonical_of_labels ls = canonical_of_labels ms"
  shows "map (map ascii_lower) ls = map (map ascii_lower) ms"
  using assms
proof (induction ls arbitrary: ms)
  case Nil
  then show ?case
    by (cases ms) (auto simp: valid_label_def dest: arg_cong [where f = unat] simp: unat_of_nat_label)
next
  case (Cons l ls)
  then obtain m ms' where ms: "ms = m # ms'"
    by (cases ms) (auto simp: valid_label_def dest: arg_cong [where f = unat] simp: unat_of_nat_label)
  have u: "unat (of_nat (length l) :: u8) = length l" "unat (of_nat (length m) :: u8) = length m"
    using Cons.prems by (intro unat_of_nat_label; simp add: ms valid_label_def)+
  have "(of_nat (length l) :: u8) = of_nat (length m)" using Cons.prems(3) ms by simp
  with u have "length l = length m" by metis
  then show ?case using Cons ms by auto
qed

text \<open>A rewrite depends on the canonical form of a name only.\<close>

lemma dname_at_cong:
  assumes "list_all valid_label ls" and "list_all valid_label ms"
    and "canonical_of_labels ls = canonical_of_labels ms"
  shows "length ls = length ms" and "dname_at m ls k = dname_at m ms k"
    and "canonical_of_labels (take k ls @ ts) = canonical_of_labels (take k ms @ ts)"
proof -
  have low: "map (map ascii_lower) ls = map (map ascii_lower) ms"
    using assms by (rule canonical_of_labels_inject)
  then show "length ls = length ms" by (metis length_map)
  have "map (map ascii_lower) (drop k ls) = map (map ascii_lower) (drop k ms)"
    "map (map ascii_lower) (take k ls) = map (map ascii_lower) (take k ms)"
    using low by (metis drop_map) (metis low take_map)
  then show "dname_at m ls k = dname_at m ms k"
    "canonical_of_labels (take k ls @ ts) = canonical_of_labels (take k ms @ ts)"
    by (simp_all add: dname_at_def canonical_of_labels_def)
qed

lemma rewritten_cong:
  assumes "valid_labels ls" and "valid_labels ms" and "canonical_of_labels ls = canonical_of_labels ms"
    and "wf_redirects m" and "set ks \<subseteq> {0..length ls}"
  shows "rewritten m ls ks = Inr (Some t) \<Longrightarrow>
      \<exists>u. rewritten m ms ks = Inr (Some u) \<and> dn_canonical_wire u = dn_canonical_wire t"
    and "rewritten m ls ks = Inr None \<Longrightarrow> rewritten m ms ks = Inr None"
proof -
  have v: "list_all valid_label ls" "list_all valid_label ms" using assms(1,2) by (simp_all add: valid_labels_def)
  note cong = dname_at_cong [OF v assms(3)]
  have f: "find (\<lambda>k. dname_at m ls k \<noteq> None) ks = find (\<lambda>k. dname_at m ms k \<noteq> None) ks"
    using cong(2) by simp
  {
    assume "rewritten m ls ks = Inr (Some t)"
    then obtain k ts where k: "find (\<lambda>k. dname_at m ls k \<noteq> None) ks = Some k" "k \<le> length ls"
      "dname_at m ls k = Some (name_of_labels ts)" "valid_labels ts"
      "valid_labels (take k ls @ ts)" "t = name_of_labels (take k ls @ ts)"
      by (rule rewritten_Some [OF assms(1,4,5)])
    have "length (wire_of_labels (take k ms @ ts)) = length (wire_of_labels (take k ls @ ts))"
      using cong(3) [of k ts] by (metis length_canonical_of_labels)
    then have "rewritten m ms ks = Inr (Some (name_of_labels (take k ms @ ts)))"
      using k f cong(1,2) apply_dname_labels [OF assms(2) k(4), of k]
      by (simp add: rewritten_def valid_labels_def)
    then show "\<exists>u. rewritten m ms ks = Inr (Some u) \<and> dn_canonical_wire u = dn_canonical_wire t"
      using k(6) cong(3) by simp
  }
  {
    assume none: "rewritten m ls ks = Inr None"
    have "find (\<lambda>k. dname_at m ls k \<noteq> None) ks = None"
    proof (rule ccontr)
      assume "find (\<lambda>k. dname_at m ls k \<noteq> None) ks \<noteq> None"
      with none show False
        by (auto simp: rewritten_def apply_dname_def Let_def result_simps split: if_splits)
    qed
    then show "rewritten m ms ks = Inr None" using f by (simp add: rewritten_def)
  }
qed

interpretation address_redirects: redirect_hops address_hop dn_canonical_wire wf_redirect_maps wf_name
proof
  fix m c t assume m: "wf_redirect_maps m" and c: "wf_name c" and hop: "address_hop m c = Inr (Some t)"
  from c obtain ls where ls: "valid_labels ls" "c = name_of_labels ls" by (auto simp: wf_name_def)
  show "wf_name t"
  proof (cases "map_of (fst m) (dn_canonical_wire c)")
    case None
    with hop ls have "rewritten (snd m) ls [0..<Suc (length ls)] = Inr (Some t)"
      by (simp add: address_hop_def rewrite_dname_labels del: upt_Suc)
    with m ls show ?thesis
      by (elim rewritten_Some [rotated 3]) (auto simp: wf_redirect_maps_def wf_name_def)
  next
    case (Some u)
    with hop m show ?thesis by (auto simp: address_hop_def wf_redirect_maps_def dest: wf_redirects_lookup)
  qed
next
  fix m c d t
  assume m: "wf_redirect_maps m" and c: "wf_name c" and d: "wf_name d"
    and key: "dn_canonical_wire c = dn_canonical_wire d" and hop: "address_hop m c = Inr (Some t)"
  from c d obtain ls ms where ls: "valid_labels ls" "c = name_of_labels ls" "valid_labels ms" "d = name_of_labels ms"
    by (auto simp: wf_name_def)
  have len: "length ls = length ms" using dname_at_cong(1) [of ls ms] ls key by (auto simp: valid_labels_def)
  have sub: "set [0..<Suc (length ls)] \<subseteq> {0..length ls}" by auto
  show "\<exists>u. address_hop m d = Inr (Some u) \<and> dn_canonical_wire u = dn_canonical_wire t"
    using hop key ls m len rewritten_cong(1) [OF ls(1,3) _ _ sub, of "snd m" t]
    by (auto simp: address_hop_def rewrite_dname_labels wf_redirect_maps_def simp del: upt_Suc split: option.splits)
next
  fix m c d
  assume m: "wf_redirect_maps m" and c: "wf_name c" and d: "wf_name d"
    and key: "dn_canonical_wire c = dn_canonical_wire d" and hop: "address_hop m c = Inr None"
  from c d obtain ls ms where ls: "valid_labels ls" "c = name_of_labels ls" "valid_labels ms" "d = name_of_labels ms"
    by (auto simp: wf_name_def)
  have len: "length ls = length ms" using dname_at_cong(1) [of ls ms] ls key by (auto simp: valid_labels_def)
  have sub: "set [0..<Suc (length ls)] \<subseteq> {0..length ls}" by auto
  show "address_hop m d = Inr None"
    using hop key ls m len rewritten_cong(2) [OF ls(1,3) _ _ sub, of "snd m"]
    by (auto simp: address_hop_def rewrite_dname_labels wf_redirect_maps_def simp del: upt_Suc split: option.splits)
qed

section \<open>Lemmas: the address resolver\<close>

definition chain_result :: "address_answer_set \<Rightarrow> int option \<Rightarrow> dns_name \<Rightarrow> address_records" where
  "chain_result answers family e =
     \<lparr>adr_addresses = filter (family_matches family)
        (case map_of (as_addresses answers) (dn_canonical_wire e) of None \<Rightarrow> [] | Some vs \<Rightarrow> vs),
      adr_canonical_name = dn_text e\<rparr>"

abbreviation answer_hop :: "address_answer_set \<Rightarrow> dns_name \<Rightarrow> wire_error + dns_name option" where
  "answer_hop answers \<equiv> address_hop (as_aliases answers, as_dnames answers)"

lemma resolve_address_loop_sound:
  assumes "resolve_address_loop n c vis answers family = Inr r"
  shows "\<exists>ks e. redirect_chain (answer_hop answers) dn_canonical_wire c ks e \<and> length ks \<le> n \<and>
    r = chain_result answers family e"
  using assms
proof (induction n arbitrary: c vis)
  case (Suc n)
  consider (cname) t where "map_of (as_aliases answers) (dn_canonical_wire c) = Some t"
      "resolve_address_loop n t (insert (dn_canonical_wire c) vis) answers family = Inr r"
    | (dname) t where "map_of (as_aliases answers) (dn_canonical_wire c) = None"
      "rewrite_dname c (as_dnames answers) = Inr (Some t)"
      "resolve_address_loop n t (insert (dn_canonical_wire c) vis) answers family = Inr r"
    | (stop) "map_of (as_aliases answers) (dn_canonical_wire c) = None"
      "rewrite_dname c (as_dnames answers) = Inr None" "r = chain_result answers family c"
  proof (cases "map_of (as_aliases answers) (dn_canonical_wire c)")
    case None
    with Suc.prems obtain x where x: "rewrite_dname c (as_dnames answers) = Inr x"
      by (auto simp: result_simps Let_def split: if_splits)
    with None Suc.prems that show ?thesis
      by (cases x) (auto simp: chain_result_def Let_def split: if_splits)
  next
    case (Some t)
    with Suc.prems that show ?thesis by (auto simp: Let_def split: if_splits)
  qed
  then show ?case
  proof cases
    case cname
    then show ?thesis using Suc.IH [OF cname(2)]
      by (fastforce intro: redirect_chain.chain_hop simp: address_hop_def)
  next
    case dname
    then show ?thesis using Suc.IH [OF dname(3)]
      by (fastforce intro: redirect_chain.chain_hop simp: address_hop_def)
  next
    case stop
    then have "redirect_chain (answer_hop answers) dn_canonical_wire c [dn_canonical_wire c] c"
      by (intro redirect_chain.chain_end) (simp add: address_hop_def)
    then show ?thesis using stop(3) by force
  qed
qed simp

lemma resolve_address_loop_complete:
  assumes "redirect_chain (answer_hop answers) dn_canonical_wire c ks e" and "distinct ks"
    and "set ks \<inter> vis = {}" and "length ks \<le> n"
  shows "resolve_address_loop n c vis answers family = Inr (chain_result answers family e)"
  using assms
proof (induction arbitrary: vis n rule: redirect_chain.induct)
  case (chain_end c)
  then show ?case
    by (cases n) (auto simp: address_hop_def chain_result_def Let_def split: option.splits)
next
  case (chain_hop c t ks e)
  then obtain n' where n: "n = Suc n'" by (cases n) auto
  have "resolve_address_loop n' t (insert (dn_canonical_wire c) vis) answers family = Inr (chain_result answers family e)"
    using chain_hop.prems n by (intro chain_hop.IH) auto
  then show ?case
    using chain_hop.hyps(1) chain_hop.prems(2) n
    by (auto simp: address_hop_def Let_def split: option.splits)
qed

section \<open>Lemmas: the answer loops\<close>

lemma for_records_invariant:
  assumes "for_records body p n off s = Inr s'" and "I rs0 s"
    and step: "\<And>rs r s s' o'. I rs s \<Longrightarrow> parse_record p o' = Inr r \<Longrightarrow> body r s = Inr s' \<Longrightarrow> I (rs @ [r]) s'"
  shows "\<exists>rs e. parse_many parse_record rr_next_offset p n off = Inr (rs, e) \<and> I (rs0 @ rs) s'"
  using assms(1,2)
proof (induction n arbitrary: off s rs0)
  case (Suc n)
  then obtain r s1 where r: "parse_record p off = Inr r" "body r s = Inr s1"
    "for_records body p n (rr_next_offset r) s1 = Inr s'" by (auto simp: result_simps)
  have "I (rs0 @ [r]) s1" using step Suc.prems(2) r by blast
  from Suc.IH [OF r(3) this] show ?case using r(1) by auto
qed simp

text \<open>The address a record carries, and what the collected answers say about the records read so far.\<close>

definition address_of :: "resource_record \<Rightarrow> ip_addr option" where
  "address_of r =
     (if rr_rr_type r = TYPE_A then Some (V4 (ipv4_from_octets (rr_rdata r)))
      else if rr_rr_type r = TYPE_AAAA then Some (V6 (ipv6_from_octets (rr_rdata r)))
      else None)"

definition addresses_at :: "resource_record list \<Rightarrow> bytes \<Rightarrow> ip_addr set" where
  "addresses_at rs owner =
     {a. \<exists>r \<in> set rs. rr_class r = CLASS_IN \<and> dn_canonical_wire (rr_name r) = owner \<and> address_of r = Some a}"

definition collected :: "address_answer_set \<Rightarrow> bytes \<Rightarrow> ip_addr list" where
  "collected out owner = (case map_of (as_addresses out) owner of None \<Rightarrow> [] | Some vs \<Rightarrow> vs)"

text \<open>
  \<open>redirects_from p ty rs m\<close>: the map holds exactly the redirects that the records of type \<open>ty\<close> in \<open>rs\<close>
  state, and those agree with each other up to case.
\<close>

definition redirects_from :: "bytes \<Rightarrow> u16 \<Rightarrow> resource_record list \<Rightarrow> redirect_map \<Rightarrow> bool" where
  "redirects_from p ty rs m \<longleftrightarrow>
     (\<forall>(owner, t) \<in> set m. wf_name t \<and> (\<exists>r \<in> set rs. rr_rr_type r = ty \<and> dn_canonical_wire (rr_name r) = owner \<and>
        read_name p (rr_rdata_offset r) = Inr (t, rr_next_offset r))) \<and>
     (\<forall>r \<in> set rs. rr_rr_type r = ty \<longrightarrow>
        (\<exists>t u. map_of m (dn_canonical_wire (rr_name r)) = Some t \<and>
           read_name p (rr_rdata_offset r) = Inr (u, rr_next_offset r) \<and> dn_canonical_wire u = dn_canonical_wire t))"

lemma redirects_from_wf: "redirects_from p ty rs m \<Longrightarrow> wf_redirects m"
  by (auto simp: redirects_from_def wf_redirects_def)

lemma redirects_from_other:
  "redirects_from p ty rs m \<Longrightarrow> rr_rr_type r \<noteq> ty \<Longrightarrow> redirects_from p ty (rs @ [r]) m"
  by (fastforce simp: redirects_from_def)

lemma insert_redirect_from:
  assumes "redirects_from p (rr_rr_type r) rs m"
    and "insert_redirect p r (dn_canonical_wire (rr_name r)) m = Inr m'"
  shows "redirects_from p (rr_rr_type r) (rs @ [r]) m'"
proof -
  let ?owner = "dn_canonical_wire (rr_name r)"
  from assms(2) obtain t where t: "read_name p (rr_rdata_offset r) = Inr (t, rr_next_offset r)"
    by (auto simp: insert_redirect_def result_simps)
  show ?thesis
  proof (cases "map_of m ?owner")
    case None
    with assms(2) t have "m' = (?owner, t) # m" by (simp add: insert_redirect_def)
    with assms(1) t None read_name_wf [OF t] show ?thesis by (fastforce simp: redirects_from_def)
  next
    case (Some u)
    with assms(2) t have "m' = m" "dn_canonical_wire u = dn_canonical_wire t"
      by (auto simp: insert_redirect_def split: if_splits)
    with assms(1) t Some show ?thesis by (fastforce simp: redirects_from_def)
  qed
qed

definition class_in :: "resource_record list \<Rightarrow> resource_record list" where
  "class_in rs = filter (\<lambda>r. rr_class r = CLASS_IN) rs"

definition answers_inv :: "bytes \<Rightarrow> resource_record list \<Rightarrow> address_answer_set \<Rightarrow> bool" where
  "answers_inv p rs out \<longleftrightarrow> redirects_from p TYPE_CNAME (class_in rs) (as_aliases out) \<and>
     redirects_from p TYPE_DNAME (class_in rs) (as_dnames out) \<and>
     (\<forall>owner. distinct (collected out owner) \<and> set (collected out owner) = addresses_at rs owner)"

lemma collected_insert_address:
  "collected (insert_address out owner a) k =
     (if k = owner then (if a \<in> set (collected out owner) then collected out owner else collected out owner @ [a])
      else collected out k)"
  by (auto simp: collected_def insert_address_def Let_def update_conv)

lemma addresses_at_snoc:
  "addresses_at (rs @ [r]) owner = addresses_at rs owner \<union>
     (if rr_class r = CLASS_IN \<and> dn_canonical_wire (rr_name r) = owner then set_option (address_of r) else {})"
  by (auto simp: addresses_at_def)

lemma address_answer_step_inv:
  assumes "answers_inv p rs out" and "address_answer_step p r out = Inr out'"
  shows "answers_inv p (rs @ [r]) out'"
proof -
  have same: "collected (out\<lparr>as_aliases := x\<rparr>) = collected out" "collected (out\<lparr>as_dnames := x\<rparr>) = collected out" for x
    by (auto simp: collected_def)
  have ins: "as_aliases (insert_address out o' a) = as_aliases out" "as_dnames (insert_address out o' a) = as_dnames out" for o' a
    by (simp_all add: insert_address_def Let_def)
  have types: "TYPE_CNAME \<noteq> TYPE_A" "TYPE_CNAME \<noteq> TYPE_AAAA" "TYPE_DNAME \<noteq> TYPE_A" "TYPE_DNAME \<noteq> TYPE_AAAA"
    "TYPE_AAAA \<noteq> TYPE_A" "TYPE_CNAME \<noteq> TYPE_DNAME" "TYPE_DNAME \<noteq> TYPE_CNAME"
    by (simp_all add: wire_type_defs)
  have other: "redirects_from p TYPE_CNAME (class_in rs @ [r]) (as_aliases out)" if "rr_rr_type r \<noteq> TYPE_CNAME"
    using assms(1) that by (intro redirects_from_other) (simp_all add: answers_inv_def)
  have other': "redirects_from p TYPE_DNAME (class_in rs @ [r]) (as_dnames out)" if "rr_rr_type r \<noteq> TYPE_DNAME"
    using assms(1) that by (intro redirects_from_other) (simp_all add: answers_inv_def)
  consider (skip) "rr_class r \<noteq> CLASS_IN" | (cname) "rr_class r = CLASS_IN" "rr_rr_type r = TYPE_CNAME"
    | (dname) "rr_class r = CLASS_IN" "rr_rr_type r = TYPE_DNAME"
    | (addr) "rr_class r = CLASS_IN" "rr_rr_type r = TYPE_A \<or> rr_rr_type r = TYPE_AAAA"
    | (none) "rr_class r = CLASS_IN" "rr_rr_type r \<notin> {TYPE_CNAME, TYPE_DNAME, TYPE_A, TYPE_AAAA}" by auto
  then show ?thesis
  proof cases
    case cname
    with assms types obtain m where "insert_redirect p r (dn_canonical_wire (rr_name r)) (as_aliases out) = Inr m"
      "out' = out\<lparr>as_aliases := m\<rparr>" by (auto simp: address_answer_step_def result_simps Let_def)
    then show ?thesis using assms(1) cname other' types insert_redirect_from [of p r "class_in rs"]
      by (auto simp: answers_inv_def class_in_def addresses_at_snoc address_of_def same)
  next
    case dname
    with assms types obtain m where "insert_redirect p r (dn_canonical_wire (rr_name r)) (as_dnames out) = Inr m"
      "out' = out\<lparr>as_dnames := m\<rparr>" by (auto simp: address_answer_step_def result_simps Let_def)
    then show ?thesis using assms(1) dname other types insert_redirect_from [of p r "class_in rs"]
      by (auto simp: answers_inv_def class_in_def addresses_at_snoc address_of_def same)
  qed (use assms types other other' in \<open>auto simp: address_answer_step_def answers_inv_def addresses_at_snoc
      address_of_def class_in_def ins collected_insert_address Let_def split: if_splits\<close>)
qed

lemma parse_address_answers_inv:
  assumes "parse_address_answers p n off = Inr out"
  shows "\<exists>rs e. parse_many parse_record rr_next_offset p (unat n) off = Inr (rs, e) \<and> answers_inv p rs out"
proof -
  let ?empty = "\<lparr>as_aliases = [], as_dnames = [], as_addresses = []\<rparr>"
  from assms have "for_records (address_answer_step p) p (unat n) off ?empty = Inr out"
    by (auto simp: parse_address_answers_def result_simps)
  moreover have "answers_inv p [] ?empty"
    by (simp add: answers_inv_def redirects_from_def class_in_def collected_def addresses_at_def)
  ultimately show ?thesis
    using for_records_invariant [of _ _ _ _ _ _ "answers_inv p" "[]"] address_answer_step_inv by fastforce
qed

text \<open>The loops with their counter as a number, for evaluation.\<close>

lemma for_records_one:
  "for_records body p 1 off s = and_then (parse_record p off) (\<lambda>r. body r s)"
  by (auto simp: and_then_def split: sum.splits)

lemma resolve_address_loop_rec:
  "0 < n \<Longrightarrow> resolve_address_loop n c vis answers family =
     (if dn_canonical_wire c \<in> vis then Inl InvalidRecord
      else case address_hop (as_aliases answers, as_dnames answers) c of
          Inl e \<Rightarrow> Inl e
        | Inr None \<Rightarrow> Inr (chain_result answers family c)
        | Inr (Some t) \<Rightarrow> resolve_address_loop (n - 1) t (insert (dn_canonical_wire c) vis) answers family)"
  by (cases n) (auto simp: address_hop_def chain_result_def Let_def and_then_def split: option.splits sum.splits)

section \<open>Properties: redirects and addresses\<close>

text \<open>
  C11: A DNAME rewrite acts on labels: \<open>rewrite_dname\<close> finds the longest suffix of the name that owns a
  DNAME, the name itself included, and replaces exactly that suffix by the labels of the target, in the
  wire form and in the text alike; it fails only when the result exceeds 255 octets, and does nothing
  when no suffix owns a DNAME.
\<close>

theorem rewrite_dname_replaces_suffix:
  assumes "valid_labels ls" and "wf_redirects m"
  shows "if \<forall>k \<le> length ls. map_of m (canonical_of_labels (drop k ls)) = None
    then rewrite_dname (name_of_labels ls) m = Inr None
    else \<exists>k ts. k \<le> length ls \<and> (\<forall>j < k. map_of m (canonical_of_labels (drop j ls)) = None) \<and>
      map_of m (canonical_of_labels (drop k ls)) = Some (name_of_labels ts) \<and> valid_labels ts \<and>
      rewrite_dname (name_of_labels ls) m =
        (if length (wire_of_labels (take k ls @ ts)) > 255 then Inl NameTooLong
         else Inr (Some (name_of_labels (take k ls @ ts))))"
proof (cases "find (\<lambda>k. dname_at m ls k \<noteq> None) [0..<Suc (length ls)]")
  case None
  then have "\<forall>k \<le> length ls. dname_at m ls k = None" by (auto simp: find_None_iff simp del: upt_Suc)
  then show ?thesis
    using None assms(1) by (simp add: rewrite_dname_labels rewritten_def dname_at_def del: upt_Suc)
next
  case (Some k)
  then have k: "k \<le> length ls" "dname_at m ls k \<noteq> None" "\<forall>j < k. dname_at m ls j = None"
    by (auto simp: find_Some_iff simp del: upt_Suc)
  then obtain ts where ts: "dname_at m ls k = Some (name_of_labels ts)" "valid_labels ts"
    using wf_redirects_lookup [OF assms(2)] by (fastforce simp: dname_at_def wf_name_def)
  then have "rewrite_dname (name_of_labels ls) m =
      (if length (wire_of_labels (take k ls @ ts)) > 255 then Inl NameTooLong
       else Inr (Some (name_of_labels (take k ls @ ts))))"
    using Some assms(1) apply_dname_labels [OF assms(1) ts(2) k(1)]
    by (simp add: rewrite_dname_labels rewritten_def del: upt_Suc)
  with k ts show ?thesis by (auto simp: dname_at_def)
qed

theorem rewrite_dname_replaces_suffix_witness:
  "\<exists>k ts. map_of [([1, 98, 0], name_of_labels [[99], [100]])] (canonical_of_labels (drop k [[97], [66]])) =
     Some (name_of_labels ts) \<and> k \<le> 2"
proof -
  let ?m = "[([1, 98, 0], name_of_labels [[99], [100]])] :: redirect_map" and ?ls = "[[97], [66]] :: bytes list"
  have v: "valid_labels ?ls" "valid_labels [[99 :: u8], [100]]" by (simp_all add: valid_labels_def valid_label_def)
  have w: "wf_redirects ?m" using v(2) by (auto simp: wf_redirects_def wf_name_def)
  have "map_of ?m (canonical_of_labels (drop 1 ?ls)) \<noteq> None" by (simp add: ascii_lower_nat)
  then have "\<not> (\<forall>k \<le> length ?ls. map_of ?m (canonical_of_labels (drop k ?ls)) = None)" by force
  from rewrite_dname_replaces_suffix [OF v(1) w, unfolded if_not_P [OF this]] obtain k ts where
    "k \<le> length ?ls" "map_of ?m (canonical_of_labels (drop k ?ls)) = Some (name_of_labels ts)" by blast
  moreover have "length ?ls = 2" by simp
  ultimately show ?thesis by metis
qed

text \<open>
  C12: \<open>resolve_address_chain\<close> computes the redirect chain: it returns a result exactly when following
  aliases and DNAMEs from the question ends within 64 names, and the result is the addresses collected
  for the last name, filtered by family, under that name. A chain that revisits a name never ends, so
  the check for visited names rejects nothing else.
\<close>

theorem resolve_address_chain_iff:
  assumes "wf_name q" and "wf_redirects (as_aliases answers)" and "wf_redirects (as_dnames answers)"
  shows "resolve_address_chain q answers family = Inr r \<longleftrightarrow>
    (\<exists>ks e. redirect_chain (answer_hop answers) dn_canonical_wire q ks e \<and> length ks \<le> 64 \<and>
       r = chain_result answers family e)"
proof
  assume "resolve_address_chain q answers family = Inr r"
  then show "\<exists>ks e. redirect_chain (answer_hop answers) dn_canonical_wire q ks e \<and> length ks \<le> 64 \<and>
       r = chain_result answers family e"
    using resolve_address_loop_sound by (fastforce simp: resolve_address_chain_def MAX_REDIRECT_CHAIN_def)
next
  assume "\<exists>ks e. redirect_chain (answer_hop answers) dn_canonical_wire q ks e \<and> length ks \<le> 64 \<and>
       r = chain_result answers family e"
  then obtain ks e where c: "redirect_chain (answer_hop answers) dn_canonical_wire q ks e" "length ks \<le> 64"
    "r = chain_result answers family e" by blast
  have "wf_redirect_maps (as_aliases answers, as_dnames answers)" using assms by (simp add: wf_redirect_maps_def)
  then have "distinct ks" using address_redirects.chain_keys_distinct [OF c(1)] assms(1) by simp
  then show "resolve_address_chain q answers family = Inr r"
    using resolve_address_loop_complete [OF c(1), of "{}"] c
    by (simp add: resolve_address_chain_def MAX_REDIRECT_CHAIN_def)
qed

theorem resolve_address_chain_iff_witness:
  "\<exists>ks e. redirect_chain (answer_hop
       \<lparr>as_aliases = [([1, 97, 0], name_of_labels [[98]])], as_dnames = [], as_addresses = [([1, 98, 0], [V4 7])]\<rparr>)
     dn_canonical_wire (name_of_labels [[97]]) ks e \<and> length ks \<le> 64"
proof -
  let ?a = "\<lparr>as_aliases = [([1, 97, 0], name_of_labels [[98]])], as_dnames = [],
    as_addresses = [([1, 98, 0], [V4 7])]\<rparr>"
  have v: "valid_labels [[97 :: u8]]" "valid_labels [[98 :: u8]]" by (simp_all add: valid_labels_def valid_label_def)
  have w: "wf_name (name_of_labels [[97]])" "wf_redirects (as_aliases ?a)" "wf_redirects (as_dnames ?a)"
    using v by (auto simp: wf_name_def wf_redirects_def)
  have "resolve_address_chain (name_of_labels [[97]]) ?a None = Inr (chain_result ?a None (name_of_labels [[98]]))"
    using v by (simp add: resolve_address_chain_def MAX_REDIRECT_CHAIN_def resolve_address_loop_rec address_hop_def
        rewrite_dname_labels rewritten_def dname_at_def ascii_lower_nat)
  then show ?thesis using resolve_address_chain_iff [OF w, of None] by blast
qed

text \<open>
  C13: \<open>extract_address_records\<close> returns exactly the addresses the response states: the answer section is
  read into the redirects and addresses its class IN records hold, the chain from the question ends at a
  name, and the result lists, without duplicates, the addresses of the requested family that the A and
  AAAA records of that name carry.
\<close>

theorem extract_address_records_exact:
  assumes "extract_address_records p family = Inr r"
  shows "\<exists>h q rs n answers ks e. header_parse p = Inr h \<and> parse_question p 12 = Inr q \<and>
    parse_many parse_record rr_next_offset p (unat (h_answer_count h)) (q_next_offset q) = Inr (rs, n) \<and>
    redirects_from p TYPE_CNAME (class_in rs) (as_aliases answers) \<and>
    redirects_from p TYPE_DNAME (class_in rs) (as_dnames answers) \<and>
    redirect_chain (answer_hop answers) dn_canonical_wire (q_name q) ks e \<and> length ks \<le> 64 \<and>
    adr_canonical_name r = dn_text e \<and> distinct (adr_addresses r) \<and>
    set (adr_addresses r) = {a \<in> addresses_at rs (dn_canonical_wire e). family_matches family a}"
proof -
  from assms obtain h q answers where h: "header_parse p = Inr h" and q: "parse_question p 12 = Inr q"
    and a: "parse_address_answers p (h_answer_count h) (q_next_offset q) = Inr answers"
    and r: "resolve_address_chain (q_name q) answers family = Inr r"
    by (auto simp: extract_address_records_def result_simps DNS_HEADER_LEN_def)
  from parse_address_answers_inv [OF a] obtain rs n where
    rs: "parse_many parse_record rr_next_offset p (unat (h_answer_count h)) (q_next_offset q) = Inr (rs, n)"
    and inv: "answers_inv p rs answers" by blast
  from resolve_address_loop_sound [OF r [unfolded resolve_address_chain_def]] obtain ks e where
    c: "redirect_chain (answer_hop answers) dn_canonical_wire (q_name q) ks e" "length ks \<le> 64"
      "r = chain_result answers family e"
    by (auto simp: MAX_REDIRECT_CHAIN_def)
  have "adr_canonical_name r = dn_text e" "distinct (adr_addresses r)"
    "set (adr_addresses r) = {a \<in> addresses_at rs (dn_canonical_wire e). family_matches family a}"
    using c(3) inv by (auto simp: chain_result_def answers_inv_def collected_def)
  then show ?thesis using h q rs c(1,2) inv unfolding answers_inv_def by blast
qed

theorem extract_address_records_exact_witness:
  "\<exists>r. extract_address_records ex_response (Some 2) = Inr r \<and> distinct (adr_addresses r)"
proof -
  obtain r where r: "extract_address_records ex_response (Some 2) = Inr r"
    by (simp add: extract_address_records_def codec_eval ex_response_def header_flag_defs wire_flag_defs
        parse_address_answers_def for_records_one [unfolded One_nat_def] address_answer_step_def insert_address_def
        resolve_address_chain_def MAX_REDIRECT_CHAIN_def resolve_address_loop_rec address_hop_def
        rewrite_dname_def rewrite_dname_loop.simps)
  from r extract_address_records_exact [OF r] show ?thesis by blast
qed

section \<open>Lemmas: canonical records\<close>

lemma lower_labels_valid: "valid_labels ls \<Longrightarrow> valid_labels (map (map ascii_lower) ls)"
proof -
  assume "valid_labels ls"
  moreover have "length (wire_of_labels (map (map ascii_lower) ls)) = length (wire_of_labels ls)"
    by (induction ls) auto
  moreover have "list_all valid_label (map (map ascii_lower) ls) = list_all valid_label ls"
    by (induction ls) (auto simp: valid_label_def)
  ultimately show ?thesis by (simp add: valid_labels_def)
qed

text \<open>The canonical form of a name is itself an uncompressed name, with the same canonical form.\<close>

lemma read_canonical_wire:
  assumes "wf_name n" and "addressable (pre @ dn_canonical_wire n @ post)"
  shows "\<exists>n'. read_name (pre @ dn_canonical_wire n @ post) (length pre) =
      Inr (n', length pre + length (dn_canonical_wire n)) \<and> dn_canonical_wire n' = dn_canonical_wire n"
proof -
  from assms(1) obtain ls where ls: "valid_labels ls" "n = name_of_labels ls" by (auto simp: wf_name_def)
  let ?ls = "map (map ascii_lower) ls"
  have c: "dn_canonical_wire n = wire_of_labels ?ls" by (simp add: ls(2) canonical_of_labels_def)
  have "canonical_of_labels ?ls = wire_of_labels ?ls" by (simp add: canonical_of_labels_def comp_def)
  then show ?thesis
    using read_name_wire [OF lower_labels_valid [OF ls(1)], of pre post] assms(2) unfolding c
    by (intro exI [of _ "name_of_labels ?ls"]) simp
qed

text \<open>
  The raw form of an answer record read back, field by field; for the types whose data is one name, that
  name too.
\<close>

definition raw_decodes :: "answer_record \<Rightarrow> bool" where
  "raw_decodes a \<longleftrightarrow> (\<exists>n k. read_name (ar_raw a) 0 = Inr (n, k) \<and>
     dn_canonical_wire n = dn_canonical_wire (ar_name a) \<and>
     read_u16 (ar_raw a) k = Inr (ar_rr_type a) \<and> read_u16 (ar_raw a) (k + 2) = Inr (ar_class a) \<and>
     read_u32 (ar_raw a) (k + 4) = Inr (ar_ttl a) \<and>
     read_u16 (ar_raw a) (k + 8) = Inr (of_nat (length (ar_rdata a))) \<and> length (ar_rdata a) \<le> 65535 \<and>
     drop (k + 10) (ar_raw a) = ar_rdata a \<and>
     (ar_rr_type a \<in> {TYPE_NS, TYPE_CNAME, TYPE_PTR, TYPE_DNAME} \<longrightarrow>
        (\<exists>t. read_name (ar_raw a) (k + 10) = Inr (t, length (ar_raw a)) \<and> dn_canonical_wire t = ar_rdata a)))"

lemma answer_record_raw_decodes:
  assumes "parse_record p off = Inr r" and "answer_record_of p r = Inr a"
  shows "raw_decodes a"
proof -
  let ?n = "dn_canonical_wire (rr_name r)"
  from assms(1) have wf: "wf_name (rr_name r)" by (elim parse_record_Inr) (rule read_name_wf)
  from assms(2) obtain rdata where rd: "canonical_record_rdata p r = Inr rdata" "length rdata \<le> 65535"
    and a: "a = \<lparr>ar_name = rr_name r, ar_rr_type = rr_rr_type r, ar_class = rr_class r, ar_ttl = rr_ttl r,
      ar_rdata = rdata, ar_raw = ?n @ u16_to_be (rr_rr_type r) @ u16_to_be (rr_class r) @
        u32_to_be (rr_ttl r) @ u16_to_be (of_nat (length rdata)) @ rdata\<rparr>"
    by (auto simp: answer_record_of_def result_simps Let_def be_simps)
  have "length ?n \<le> 255" using wf by (auto simp: wf_name_def valid_labels_def)
  then have len: "length (ar_raw a) \<le> 65800" using rd(2) a by simp
  then have addr: "addressable (ar_raw a)" by (simp add: USIZE_MAX_def)
  let ?post = "u16_to_be (rr_rr_type r) @ u16_to_be (rr_class r) @ u32_to_be (rr_ttl r) @
    u16_to_be (of_nat (length rdata)) @ rdata"
  have raw: "ar_raw a = [] @ ?n @ ?post" by (simp add: a)
  obtain n where n: "read_name (ar_raw a) 0 = Inr (n, length ?n)" "dn_canonical_wire n = ?n"
    using read_canonical_wire [OF wf, of "[]" ?post] addr unfolding raw by auto
  have "\<exists>t. read_name (ar_raw a) (length ?n + 10) = Inr (t, length (ar_raw a)) \<and> dn_canonical_wire t = rdata"
    if "rr_rr_type r \<in> {TYPE_NS, TYPE_CNAME, TYPE_PTR, TYPE_DNAME}"
  proof -
    from that rd(1) obtain t0 where "wf_name t0" "dn_canonical_wire t0 = rdata"
      by (auto simp: canonical_record_rdata_def canonical_name_rdata_def result_simps dest: read_name_wf)
    moreover have "ar_raw a = (?n @ take 10 ?post) @ rdata @ []" by (simp add: a)
    moreover have "length (?n @ take 10 ?post) = length ?n + 10" by simp
    ultimately show ?thesis
      using read_canonical_wire [of t0 "?n @ take 10 ?post" "[]"] addr by (metis length_append append_Nil2)
  qed
  moreover have "read_u16 (ar_raw a) (length ?n) = Inr (rr_rr_type r)" "read_u16 (ar_raw a) (length ?n + 2) = Inr (rr_class r)"
    "read_u32 (ar_raw a) (length ?n + 4) = Inr (rr_ttl r)"
    "read_u16 (ar_raw a) (length ?n + 8) = Inr (of_nat (length rdata))" "drop (length ?n + 10) (ar_raw a) = rdata"
    using addr unfolding raw
    by (simp_all add: read_u16_eq_Inr read_u32_eq_Inr nth_append u16_to_be_def u32_to_be_def be_simps)
  ultimately show ?thesis unfolding raw_decodes_def using n rd(2) a by (intro exI [of _ n] exI [of _ "length ?n"]) simp
qed

text \<open>
  C14: Every answer record that \<open>extract_answer_records\<close> returns stands for the record at its place in
  the answer section, and its raw form is a self-contained record: without the packet it decodes to the
  same canonical owner name, type, class, TTL and data, and a name that is the whole data is
  uncompressed there.
\<close>

theorem extract_answer_records_raw:
  assumes "extract_answer_records p = Inr out"
  shows "\<exists>h off rs e. header_parse p = Inr h \<and> skip_questions p h = Inr off \<and>
    parse_many parse_record rr_next_offset p (unat (h_answer_count h)) off = Inr (rs, e) \<and>
    list_all2 (\<lambda>r a. ar_name a = rr_name r \<and> ar_rr_type a = rr_rr_type r \<and> ar_class a = rr_class r \<and>
      ar_ttl a = rr_ttl r \<and> canonical_record_rdata p r = Inr (ar_rdata a) \<and> raw_decodes a) rs out"
proof -
  let ?R = "\<lambda>r a. ar_name a = rr_name r \<and> ar_rr_type a = rr_rr_type r \<and> ar_class a = rr_class r \<and>
      ar_ttl a = rr_ttl r \<and> canonical_record_rdata p r = Inr (ar_rdata a) \<and> raw_decodes a"
  let ?body = "\<lambda>rec out. and_then (answer_record_of p rec) (\<lambda>a. Inr (out @ [a]))"
  from assms obtain h off where h: "header_parse p = Inr h" "skip_questions p h = Inr off"
    and loop: "for_records ?body p (unat (h_answer_count h)) off [] = Inr out"
    by (auto simp: extract_answer_records_def result_simps)
  have "list_all2 ?R (rs @ [r]) s'" if "list_all2 ?R rs s" "parse_record p o' = Inr r" "?body r s = Inr s'" for rs s r s' o'
  proof -
    from that(3) obtain a where a: "answer_record_of p r = Inr a" "s' = s @ [a]" by (auto simp: result_simps)
    then have "?R r a" using answer_record_raw_decodes [OF that(2) a(1)]
      by (auto simp: answer_record_of_def result_simps Let_def)
    with that(1) a(2) show ?thesis by (simp add: list_all2_appendI)
  qed
  from for_records_invariant [OF loop, of "list_all2 ?R" "[]", OF _ this] h show ?thesis by auto
qed

theorem extract_answer_records_raw_witness:
  "\<exists>out. extract_answer_records ex_response = Inr out \<and> list_all raw_decodes out"
proof -
  obtain out where out: "extract_answer_records ex_response = Inr out"
    by (simp add: extract_answer_records_def codec_eval ex_response_def header_flag_defs wire_flag_defs
        skip_questions_def for_records_one [unfolded One_nat_def] answer_record_of_def canonical_record_rdata_def
        u16_try_from_def)
  from extract_answer_records_raw [OF out] obtain rs where
    "list_all2 (\<lambda>r a. ar_name a = rr_name r \<and> ar_rr_type a = rr_rr_type r \<and> ar_class a = rr_class r \<and>
      ar_ttl a = rr_ttl r \<and> canonical_record_rdata ex_response r = Inr (ar_rdata a) \<and> raw_decodes a) rs out" by blast
  then have "list_all raw_decodes out" by (induction rule: list_all2_induct) auto
  with out show ?thesis by blast
qed

end
