(* ===== verification/Wire_Redirects.thy ===== *)
theory Wire_Redirects
  imports Wire_Records
begin

text \<open>
  Classification of a response with respect to redirects (\<open>src/src/wire/redirects.rs\<close>): does it answer
  the question, does it only redirect it, or neither. The DNAME scan here starts below the name itself,
  unlike the one of \<open>rewrite_dname\<close>. The properties show that the classification is the end of the
  redirect chain of at most 16 hops.
\<close>

definition CNAME_REDIRECTS_MAX :: nat where "CNAME_REDIRECTS_MAX = 16"

datatype redirect_answer =
    RA_Direct (ra_canonical_name: string) (ra_redirects: nat)
  | RA_Redirect (ra_canonical_name: string) (ra_redirects: nat)
  | RA_NoData

function rewrite_covering_loop ::
  "dns_name \<Rightarrow> redirect_map \<Rightarrow> nat \<Rightarrow> nat \<Rightarrow> wire_error + dns_name option" where
  "rewrite_covering_loop current dnames suffix_offset prefix_labels =
     (let canonical = dn_canonical_wire current in
      if suffix_offset \<ge> length canonical then Inl InvalidRecord
      else case map_of dnames (drop suffix_offset canonical) of
        Some target \<Rightarrow> apply_dname current suffix_offset prefix_labels target
      | None \<Rightarrow>
          and_then (ok_or (get_at canonical suffix_offset) InvalidRecord) (\<lambda>label_length.
          if label_length = 0 then Inr None
          else if unat label_length > 63 then Inl InvalidRecord
          else
            and_then (ok_or (usize_checked_add suffix_offset (unat label_length + 1)) NameTooLong) (\<lambda>suffix_offset.
            rewrite_covering_loop current dnames suffix_offset (prefix_labels + 1))))"
  by pat_completeness auto

termination
  by (relation "measure (\<lambda>(c, d, off, n). length (dn_canonical_wire c) - off)") (auto simp: result_simps slice_simps)

declare rewrite_covering_loop.simps [simp del]

definition rewrite_covering_dname :: "dns_name \<Rightarrow> redirect_map \<Rightarrow> wire_error + dns_name option" where
  "rewrite_covering_dname current dnames =
     and_then (ok_or (get_at (dn_canonical_wire current) 0) InvalidRecord) (\<lambda>first_label.
     if first_label = 0 \<or> unat first_label > 63 then Inr None
     else
       and_then (ok_or (usize_checked_add (unat first_label) 1) NameTooLong) (\<lambda>suffix_offset.
       rewrite_covering_loop current dnames suffix_offset 1))"

text \<open>The loop of \<open>classify_redirect_chain\<close> counts its redirects and stops after 16.\<close>

function classify_redirect_loop ::
  "dns_name \<Rightarrow> bytes set \<Rightarrow> redirect_map \<Rightarrow> redirect_map \<Rightarrow> bytes set \<Rightarrow> nat \<Rightarrow> wire_error + redirect_answer" where
  "classify_redirect_loop current direct aliases dnames visited redirects =
     (if dn_canonical_wire current \<in> visited then Inl CnameLoop
      else if dn_canonical_wire current \<in> direct then Inr (RA_Direct (dn_text current) redirects)
      else
        and_then (case map_of aliases (dn_canonical_wire current) of
                    Some target \<Rightarrow> Inr (Some target)
                  | None \<Rightarrow> rewrite_covering_dname current dnames) (\<lambda>target.
        case target of
          None \<Rightarrow> Inr (if redirects = 0 then RA_NoData else RA_Redirect (dn_text current) redirects)
        | Some target \<Rightarrow>
            if redirects \<ge> CNAME_REDIRECTS_MAX then Inl CnameLoop
            else classify_redirect_loop target direct aliases dnames
                   (insert (dn_canonical_wire current) visited) (redirects + 1)))"
  by pat_completeness auto

termination
  by (relation "measure (\<lambda>(c, d, a, n, v, k). CNAME_REDIRECTS_MAX - k)") auto

declare classify_redirect_loop.simps [simp del]

definition classify_redirect_chain ::
  "dns_name \<Rightarrow> bytes set \<Rightarrow> redirect_map \<Rightarrow> redirect_map \<Rightarrow> wire_error + redirect_answer" where
  "classify_redirect_chain current direct aliases dnames =
     classify_redirect_loop current direct aliases dnames {} 0"

text \<open>The sets the answer loop of \<open>classify_redirect_answer\<close> fills.\<close>

type_synonym redirect_sets = "bytes set \<times> redirect_map \<times> redirect_map"

definition classify_step ::
  "bytes \<Rightarrow> question \<Rightarrow> resource_record \<Rightarrow> redirect_sets \<Rightarrow> wire_error + redirect_sets" where
  "classify_step packet question rec s =
     (case s of (direct, aliases, dnames) \<Rightarrow>
        if q_class question \<noteq> CLASS_ANY \<and> rr_class rec \<noteq> q_class question then Inr s
        else
          let owner = dn_canonical_wire (rr_name rec) in
          if q_rr_type question = TYPE_ANY \<or> rr_rr_type rec = q_rr_type question
            then Inr (insert owner direct, aliases, dnames)
          else if rr_rr_type rec = TYPE_CNAME then
            and_then (insert_redirect packet rec owner aliases) (\<lambda>m. Inr (direct, m, dnames))
          else if rr_rr_type rec = TYPE_DNAME then
            and_then (insert_redirect packet rec owner dnames) (\<lambda>m. Inr (direct, aliases, m))
          else Inr s)"

definition classify_redirect_answer :: "bytes \<Rightarrow> wire_error + redirect_answer" where
  "classify_redirect_answer packet =
     and_then (header_parse packet) (\<lambda>header.
     if \<not> is_response header then Inl WrongDirection
     else if h_question_count header \<noteq> 1 then Inl (WrongQuestionCount (h_question_count header))
     else if response_code header \<noteq> 0 then Inr RA_NoData
     else
       and_then (parse_question packet DNS_HEADER_LEN) (\<lambda>question.
       and_then (for_records (classify_step packet question) packet (unat (h_answer_count header))
                   (q_next_offset question) ({}, [], [])) (\<lambda>(direct, aliases, dnames).
       if list_ex (\<lambda>(owner, _). owner \<in> direct \<or> has_key dnames owner) aliases then Inl InvalidRecord
       else classify_redirect_chain (q_name question) direct aliases dnames)))"

section \<open>Lemmas: the covering DNAME\<close>

lemma rewrite_covering_loop_labels:
  assumes "valid_labels ls" and "k \<le> length ls"
  shows "rewrite_covering_loop (name_of_labels ls) m (label_offset ls k) k = rewritten m ls [k..<Suc (length ls)]"
  using assms(2)
proof (induction "length ls - k" arbitrary: k)
  case 0
  then have k: "k = length ls" by simp
  have "label_offset ls k < length (canonical_of_labels ls)"
    using canonical_split(3) [of k ls] k by simp
  then show ?case
    using k get_at_label_offset [of k ls] canonical_split(1) [of k ls]
    by (subst rewrite_covering_loop.simps)
      (auto simp: rewritten_def dname_at_def Let_def split: option.splits)
next
  case (Suc n)
  then have k: "k < length ls" by simp
  have lab: "0 < length (ls ! k)" "length (ls ! k) \<le> 63"
    using assms(1) k by (auto simp: valid_labels_def list_all_length valid_label_def)
  have b: "unat (of_nat (length (ls ! k)) :: u8) = length (ls ! k)" using lab(2) by (rule unat_of_nat_label)
  then have nz: "of_nat (length (ls ! k)) \<noteq> (0 :: u8)" using lab(1) by (metis neq0_conv unat_0)
  have off: "label_offset ls (Suc k) = label_offset ls k + (length (ls ! k) + 1)"
    by (rule label_offset_Suc [OF k])
  have lt: "label_offset ls (Suc k) < length (canonical_of_labels ls)"
    using canonical_split(3) [of "Suc k" ls] k wire_of_labels_pos [of "drop (Suc k) ls"] by simp
  moreover have "length (canonical_of_labels ls) \<le> 255" using assms(1) by (simp add: valid_labels_def)
  ultimately have us: "label_offset ls k + (length (ls ! k) + 1) \<le> USIZE_MAX"
    "label_offset ls k < length (canonical_of_labels ls)"
    unfolding USIZE_MAX_def off by linarith+
  have IH: "rewrite_covering_loop (name_of_labels ls) m (label_offset ls (Suc k)) (Suc k) = rewritten m ls [Suc k..<Suc (length ls)]"
    using Suc k by (intro Suc.hyps(1)) simp_all
  have up: "[k..<Suc (length ls)] = k # [Suc k..<Suc (length ls)]" using k by (simp add: upt_conv_Cons del: upt_Suc)
  have get: "get_at (canonical_of_labels ls) (label_offset ls k) = Some (of_nat (length (ls ! k)))"
    using get_at_label_offset [of k ls] k by simp
  show ?case
  proof (cases "dname_at m ls k")
    case None
    have "rewrite_covering_loop (name_of_labels ls) m (label_offset ls k) k =
        rewrite_covering_loop (name_of_labels ls) m (label_offset ls (Suc k)) (Suc k)"
      using None get nz b lab us off canonical_split(1) [of k ls] k
      by (subst rewrite_covering_loop.simps) (simp add: dname_at_def Let_def usize_checked_add_def)
    then show ?thesis using None IH by (simp add: rewritten_def up del: upt_Suc)
  next
    case (Some t)
    then show ?thesis using canonical_split(1) [of k ls] k us
      by (subst rewrite_covering_loop.simps) (simp add: rewritten_def up dname_at_def Let_def del: upt_Suc)
  qed
qed

lemma rewrite_covering_dname_labels:
  assumes "valid_labels ls"
  shows "rewrite_covering_dname (name_of_labels ls) m = rewritten m ls [1..<Suc (length ls)]"
proof (cases "ls = []")
  case True
  then show ?thesis by (simp add: rewrite_covering_dname_def rewritten_def)
next
  case False
  have lab: "0 < length (ls ! 0)" "length (ls ! 0) \<le> 63"
    using assms False by (auto simp: valid_labels_def list_all_length valid_label_def)
  have b: "unat (of_nat (length (ls ! 0)) :: u8) = length (ls ! 0)" using lab(2) by (rule unat_of_nat_label)
  then have nz: "of_nat (length (ls ! 0)) \<noteq> (0 :: u8)" using lab(1) by (metis neq0_conv unat_0)
  have off: "label_offset ls 1 = length (ls ! 0) + 1"
    using label_offset_Suc [of 0 ls] False by (simp add: label_offset_def)
  have "get_at (canonical_of_labels ls) 0 = Some (of_nat (length (ls ! 0)))"
    using get_at_label_offset [of 0 ls] False by (simp add: label_offset_def)
  then have "rewrite_covering_dname (name_of_labels ls) m = rewrite_covering_loop (name_of_labels ls) m (label_offset ls 1) 1"
    using b nz lab off by (simp add: rewrite_covering_dname_def usize_checked_add_def USIZE_MAX_def)
  then show ?thesis using rewrite_covering_loop_labels [OF assms, of 1 m] False
    by (simp add: Suc_le_eq del: upt_Suc)
qed

text \<open>The hop of the classification: it stops at a name the response answers directly.\<close>

definition classify_hop :: "redirect_sets \<Rightarrow> dns_name \<Rightarrow> wire_error + dns_name option" where
  "classify_hop s c =
     (case s of (direct, aliases, dnames) \<Rightarrow>
        if dn_canonical_wire c \<in> direct then Inr None
        else case map_of aliases (dn_canonical_wire c) of
            Some t \<Rightarrow> Inr (Some t) | None \<Rightarrow> rewrite_covering_dname c dnames)"

definition wf_redirect_sets :: "redirect_sets \<Rightarrow> bool" where
  "wf_redirect_sets s \<longleftrightarrow> wf_redirects (fst (snd s)) \<and> wf_redirects (snd (snd s))"

interpretation classified_redirects: redirect_hops classify_hop dn_canonical_wire wf_redirect_sets wf_name
proof
  fix s c t assume s: "wf_redirect_sets s" and c: "wf_name c" and hop: "classify_hop s c = Inr (Some t)"
  obtain d a n where sd: "s = (d, a, n)" by (cases s)
  from c obtain ls where ls: "valid_labels ls" "c = name_of_labels ls" by (auto simp: wf_name_def)
  have sub: "set [1..<Suc (length ls)] \<subseteq> {0..length ls}" by auto
  have wf: "wf_redirects a" "wf_redirects n" using s by (simp_all add: sd wf_redirect_sets_def)
  show "wf_name t"
  proof (cases "map_of a (dn_canonical_wire c)")
    case None
    with hop ls have "rewritten n ls [1..<Suc (length ls)] = Inr (Some t)"
      by (simp add: classify_hop_def sd rewrite_covering_dname_labels del: upt_Suc split: if_splits)
    then show ?thesis by (elim rewritten_Some [OF ls(1) wf(2) sub]) (auto simp: wf_name_def)
  next
    case (Some u)
    with hop wf show ?thesis by (auto simp: classify_hop_def sd dest: wf_redirects_lookup split: if_splits)
  qed
next
  fix s c d t
  assume s: "wf_redirect_sets s" and c: "wf_name c" and d: "wf_name d"
    and key: "dn_canonical_wire c = dn_canonical_wire d" and hop: "classify_hop s c = Inr (Some t)"
  from c d obtain ls ms where ls: "valid_labels ls" "c = name_of_labels ls" "valid_labels ms" "d = name_of_labels ms"
    by (auto simp: wf_name_def)
  have len: "length ls = length ms" using dname_at_cong(1) [of ls ms] ls key by (auto simp: valid_labels_def)
  have sub: "set [1..<Suc (length ls)] \<subseteq> {0..length ls}" by auto
  show "\<exists>u. classify_hop s d = Inr (Some u) \<and> dn_canonical_wire u = dn_canonical_wire t"
    using hop key ls s len rewritten_cong(1) [OF ls(1,3) _ _ sub, of "snd (snd s)" t]
    by (auto simp: classify_hop_def rewrite_covering_dname_labels wf_redirect_sets_def simp del: upt_Suc
        split: option.splits prod.splits if_splits)
next
  fix s c d
  assume s: "wf_redirect_sets s" and c: "wf_name c" and d: "wf_name d"
    and key: "dn_canonical_wire c = dn_canonical_wire d" and hop: "classify_hop s c = Inr None"
  from c d obtain ls ms where ls: "valid_labels ls" "c = name_of_labels ls" "valid_labels ms" "d = name_of_labels ms"
    by (auto simp: wf_name_def)
  have len: "length ls = length ms" using dname_at_cong(1) [of ls ms] ls key by (auto simp: valid_labels_def)
  have sub: "set [1..<Suc (length ls)] \<subseteq> {0..length ls}" by auto
  show "classify_hop s d = Inr None"
    using hop key ls s len rewritten_cong(2) [OF ls(1,3) _ _ sub, of "snd (snd s)"]
    by (auto simp: classify_hop_def rewrite_covering_dname_labels wf_redirect_sets_def simp del: upt_Suc
        split: option.splits prod.splits if_splits)
qed

section \<open>Lemmas: the classification loop\<close>

definition classification :: "bytes set \<Rightarrow> nat \<Rightarrow> dns_name \<Rightarrow> redirect_answer" where
  "classification direct n e =
     (if dn_canonical_wire e \<in> direct then RA_Direct (dn_text e) n
      else if n = 0 then RA_NoData else RA_Redirect (dn_text e) n)"

lemma classify_redirect_loop_step:
  "classify_redirect_loop c direct aliases dnames vis n =
     (if dn_canonical_wire c \<in> vis then Inl CnameLoop
      else case classify_hop (direct, aliases, dnames) c of
          Inl e \<Rightarrow> Inl e
        | Inr None \<Rightarrow> Inr (classification direct n c)
        | Inr (Some t) \<Rightarrow> if n \<ge> 16 then Inl CnameLoop
            else classify_redirect_loop t direct aliases dnames (insert (dn_canonical_wire c) vis) (n + 1))"
  by (subst classify_redirect_loop.simps)
    (auto simp: classify_hop_def classification_def CNAME_REDIRECTS_MAX_def and_then_def
      split: option.splits sum.splits)

lemma classify_redirect_loop_sound:
  assumes "classify_redirect_loop c direct aliases dnames vis n = Inr r" and "n \<le> 16"
  shows "\<exists>ks e. redirect_chain (classify_hop (direct, aliases, dnames)) dn_canonical_wire c ks e \<and>
    n + length ks \<le> 17 \<and> r = classification direct (n + (length ks - 1)) e"
  using assms
proof (induction "16 - n" arbitrary: c vis n)
  case 0
  then have "classify_hop (direct, aliases, dnames) c = Inr None \<and> r = classification direct n c"
    by (subst (asm) classify_redirect_loop_step) (auto split: if_splits sum.splits option.splits)
  then show ?case using 0 by (intro exI [of _ "[dn_canonical_wire c]"] exI [of _ c]) (auto intro: redirect_chain.chain_end)
next
  case (Suc m)
  consider (stop) "classify_hop (direct, aliases, dnames) c = Inr None" "r = classification direct n c"
    | (hop) t where "classify_hop (direct, aliases, dnames) c = Inr (Some t)"
      "classify_redirect_loop t direct aliases dnames (insert (dn_canonical_wire c) vis) (n + 1) = Inr r"
    using Suc.prems(1) Suc.hyps(2)
    by (subst (asm) classify_redirect_loop_step) (auto split: if_splits sum.splits option.splits)
  then show ?case
  proof cases
    case stop
    then show ?thesis using Suc.prems(2)
      by (intro exI [of _ "[dn_canonical_wire c]"] exI [of _ c]) (auto intro: redirect_chain.chain_end)
  next
    case hop
    have n: "m = 16 - (n + 1)" "n + 1 \<le> 16" using Suc.hyps(2) by simp_all
    from Suc.hyps(1) [OF n(1) hop(2) n(2)] obtain ks e where
      c: "redirect_chain (classify_hop (direct, aliases, dnames)) dn_canonical_wire t ks e"
      "n + 1 + length ks \<le> 17" "r = classification direct (n + 1 + (length ks - 1)) e" by blast
    have "ks \<noteq> []" using c(1) by (auto elim: redirect_chain.cases)
    then show ?thesis using c hop(1)
      by (intro exI [of _ "dn_canonical_wire c # ks"] exI [of _ e])
        (auto intro: redirect_chain.chain_hop simp: Suc_le_eq neq_Nil_conv)
  qed
qed

lemma classify_redirect_loop_complete:
  assumes "redirect_chain (classify_hop (direct, aliases, dnames)) dn_canonical_wire c ks e" and "distinct ks"
    and "set ks \<inter> vis = {}" and "n + length ks \<le> 17"
  shows "classify_redirect_loop c direct aliases dnames vis n = Inr (classification direct (n + (length ks - 1)) e)"
  using assms
proof (induction arbitrary: vis n rule: redirect_chain.induct)
  case (chain_end c)
  then show ?case by (subst classify_redirect_loop_step) simp
next
  case (chain_hop c t ks e)
  have ne: "ks \<noteq> []" using chain_hop.hyps(2) by (auto elim: redirect_chain.cases)
  then have n: "\<not> n \<ge> 16" using chain_hop.prems(3) by (cases ks) auto
  have "classify_redirect_loop t direct aliases dnames (insert (dn_canonical_wire c) vis) (n + 1) =
      Inr (classification direct (n + 1 + (length ks - 1)) e)"
    using chain_hop.prems by (intro chain_hop.IH) auto
  then show ?case using chain_hop.hyps(1) chain_hop.prems(2) n ne
    by (subst classify_redirect_loop_step) (simp add: Suc_le_eq)
qed

section \<open>Properties\<close>

text \<open>
  C15: \<open>classify_redirect_chain\<close> classifies a response by the end of its redirect chain: it returns a
  verdict exactly when the chain from the question ends after at most 16 redirects. The verdict is a
  direct answer when the last name has records of the requested type, no data when nothing redirects
  the question, and otherwise a redirect to the last name with the number of redirects followed.
\<close>

theorem classify_redirect_chain_iff:
  assumes "wf_name q" and "wf_redirects aliases" and "wf_redirects dnames"
  shows "classify_redirect_chain q direct aliases dnames = Inr r \<longleftrightarrow>
    (\<exists>ks e. redirect_chain (classify_hop (direct, aliases, dnames)) dn_canonical_wire q ks e \<and>
       length ks - 1 \<le> 16 \<and>
       r = (if dn_canonical_wire e \<in> direct then RA_Direct (dn_text e) (length ks - 1)
            else if length ks - 1 = 0 then RA_NoData else RA_Redirect (dn_text e) (length ks - 1)))"
proof -
  have "classify_redirect_chain q direct aliases dnames = Inr r \<longleftrightarrow>
    (\<exists>ks e. redirect_chain (classify_hop (direct, aliases, dnames)) dn_canonical_wire q ks e \<and>
       length ks \<le> 17 \<and> r = classification direct (length ks - 1) e)"
  proof
    assume "classify_redirect_chain q direct aliases dnames = Inr r"
    then show "\<exists>ks e. redirect_chain (classify_hop (direct, aliases, dnames)) dn_canonical_wire q ks e \<and>
       length ks \<le> 17 \<and> r = classification direct (length ks - 1) e"
      using classify_redirect_loop_sound [of q direct aliases dnames "{}" 0 r]
      by (simp add: classify_redirect_chain_def)
  next
    assume "\<exists>ks e. redirect_chain (classify_hop (direct, aliases, dnames)) dn_canonical_wire q ks e \<and>
       length ks \<le> 17 \<and> r = classification direct (length ks - 1) e"
    then obtain ks e where c: "redirect_chain (classify_hop (direct, aliases, dnames)) dn_canonical_wire q ks e"
      "length ks \<le> 17" "r = classification direct (length ks - 1) e" by blast
    have "distinct ks"
      using classified_redirects.chain_keys_distinct [OF c(1)] assms by (simp add: wf_redirect_sets_def)
    then show "classify_redirect_chain q direct aliases dnames = Inr r"
      using classify_redirect_loop_complete [OF c(1), of "{}" 0] c by (simp add: classify_redirect_chain_def)
  qed
  moreover have "length ks \<le> 17 \<longleftrightarrow> length ks - 1 \<le> 16" for ks :: "bytes list" by auto
  ultimately show ?thesis unfolding classification_def by simp
qed

theorem classify_redirect_chain_iff_witness:
  "\<exists>ks e. redirect_chain (classify_hop ({[1, 98, 0]}, [([1, 97, 0], name_of_labels [[98]])], []))
     dn_canonical_wire (name_of_labels [[97]]) ks e \<and> length ks - 1 \<le> 16"
proof -
  let ?a = "[([1, 97, 0], name_of_labels [[98]])] :: redirect_map"
  have v: "valid_labels [[97 :: u8]]" "valid_labels [[98 :: u8]]" by (simp_all add: valid_labels_def valid_label_def)
  have w: "wf_name (name_of_labels [[97]])" "wf_redirects ?a" "wf_redirects []"
    using v by (auto simp: wf_name_def wf_redirects_def)
  have "classify_redirect_chain (name_of_labels [[97]]) {[1, 98, 0]} ?a [] =
      Inr (RA_Direct (dn_text (name_of_labels [[98]])) 1)"
    by (simp add: classify_redirect_chain_def classify_redirect_loop.simps ascii_lower_nat CNAME_REDIRECTS_MAX_def)
  then show ?thesis using classify_redirect_chain_iff [OF w, of "{[1, 98, 0]}"] by blast
qed

text \<open>
  The two DNAME scans differ at the owner itself: \<open>rewrite_dname\<close> also rewrites the name that owns the
  DNAME, \<open>rewrite_covering_dname\<close> only names below it.
\<close>

lemma dname_at_its_owner:
  "rewrite_dname (name_of_labels [[97]]) [([1, 97, 0], name_of_labels [[98]])] = Inr (Some (name_of_labels [[98]]))"
  "rewrite_covering_dname (name_of_labels [[97]]) [([1, 97, 0], name_of_labels [[98]])] = Inr None"
proof -
  let ?m = "[([1, 97, 0], name_of_labels [[98]])] :: redirect_map"
  have v: "valid_labels [[97 :: u8]]" "valid_labels [[98 :: u8]]" by (simp_all add: valid_labels_def valid_label_def)
  have d: "dname_at ?m [[97]] 0 = Some (name_of_labels [[98]])" "dname_at ?m [[97]] 1 = None"
    by (simp_all add: dname_at_def ascii_lower_nat)
  have "apply_dname (name_of_labels [[97]]) (label_offset [[97]] 0) 0 (name_of_labels [[98]]) =
      Inr (Some (name_of_labels [[98]]))"
    using apply_dname_labels [OF v, of 0] by simp
  then show "rewrite_dname (name_of_labels [[97]]) ?m = Inr (Some (name_of_labels [[98]]))"
    using d by (simp add: rewrite_dname_labels [OF v(1)] rewritten_def)
  show "rewrite_covering_dname (name_of_labels [[97]]) ?m = Inr None"
    using d by (simp add: rewrite_covering_dname_labels [OF v(1)] rewritten_def)
qed

end
