(* ===== verification/Reverse_Name.thy ===== *)
theory Reverse_Name
  imports Wire_Records
begin

text \<open>
  Names for reverse lookups (\<open>reverse_name\<close> and \<open>parse_reverse_name\<close> of \<open>src/src/wire/records.rs\<close>): an
  address as labels under \<open>in-addr.arpa\<close> or \<open>ip6.arpa\<close> and back. The property is the round trip for every
  address of both families.
\<close>

section \<open>Numbers as text\<close>

text \<open>\<open>{}\<close> of a \<open>u8\<close> and \<open>{:x}\<close> of a nibble.\<close>

definition show_u8 :: "u8 \<Rightarrow> string" where
  "show_u8 b =
     (let n = unat b in
      (if n \<ge> 100 then [digit_char (n div 100)] else []) @
      (if n \<ge> 10 then [digit_char (n div 10 mod 10)] else []) @ [digit_char (n mod 10)])"

definition hex_digit :: "u8 \<Rightarrow> char" where
  "hex_digit b = char_of_byte (if unat b < 10 then 48 + b else 87 + b)"

text \<open>\<open>u8::from_str_radix\<close>.\<close>

definition u8_from_str_radix :: "nat \<Rightarrow> string \<Rightarrow> u8 option" where
  "u8_from_str_radix radix s = map_option of_nat (unsigned_from_str_radix 255 radix s)"

text \<open>\<open>map(f).collect::<Result<Vec<_>, _>>().ok()\<close>.\<close>

fun map_all :: "('a \<Rightarrow> 'b option) \<Rightarrow> 'a list \<Rightarrow> 'b list option" where
  "map_all f [] = Some []"
| "map_all f (x # xs) =
     (case f x of None \<Rightarrow> None | Some y \<Rightarrow> (case map_all f xs of None \<Rightarrow> None | Some ys \<Rightarrow> Some (y # ys)))"

section \<open>Reverse names\<close>

fun reverse_name :: "ip_addr \<Rightarrow> string" where
  "reverse_name (V4 address) =
     (let octets = ipv4_octets address in
      show_u8 (octets ! 3) @ ''.'' @ show_u8 (octets ! 2) @ ''.'' @ show_u8 (octets ! 1) @ ''.'' @
      show_u8 (octets ! 0) @ ''.in-addr.arpa'')"
| "reverse_name (V6 address) =
     concat (map (\<lambda>b. [hex_digit (b AND 0x0f)] @ ''.'' @ [hex_digit (drop_bit 4 b)] @ ''.'') (rev (ipv6_octets address))) @
     ''ip6.arpa''"

text \<open>The chunk loop: chunk \<open>index\<close> fills octet \<open>15 - index\<close>, so the octets come out in reverse.\<close>

fun nibble_pairs :: "u8 list \<Rightarrow> bytes" where
  "nibble_pairs (a # b # rest) = (a OR push_bit 4 b) # nibble_pairs rest"
| "nibble_pairs _ = []"

definition parse_reverse_name :: "string \<Rightarrow> ip_addr option" where
  "parse_reverse_name name =
     (let lower = to_ascii_lowercase (trim_end_dots name) in
      case strip_suffix ''.in-addr.arpa'' lower of
        Some prefix \<Rightarrow>
          (case map_all (u8_from_str_radix 10) (split_dots prefix) of
             Some [d, c, b, a] \<Rightarrow> Some (V4 (ipv4_from_octets [a, b, c, d]))
           | _ \<Rightarrow> None)
      | None \<Rightarrow>
          (case strip_suffix ''.ip6.arpa'' lower of
             Some prefix \<Rightarrow>
               (case map_all (u8_from_str_radix 16) (split_dots prefix) of
                  Some nibbles \<Rightarrow>
                    if length nibbles \<noteq> 32 \<or> list_ex (\<lambda>n. n > 0x0f) nibbles then None
                    else Some (V6 (ipv6_from_octets (rev (nibble_pairs nibbles))))
                | None \<Rightarrow> None)
           | None \<Rightarrow> None))"

section \<open>Lemmas: octets and digits\<close>

lemma nat_of_octets_snoc: "nat_of_octets (bs @ [b]) = nat_of_octets bs * 256 + unat b"
  by (simp add: nat_of_octets_def)

lemma nat_of_be_octets: "nat_of_octets (be_octets k n) = n mod 256 ^ k"
proof (induction k arbitrary: n)
  case 0
  then show ?case by (simp add: nat_of_octets_def)
next
  case (Suc k)
  have "n mod 256 ^ Suc k = 256 * (n div 256 mod 256 ^ k) + n mod 256"
    by (simp add: mod_mult2_eq)
  then show ?case using Suc [of "n div 256"] by (simp add: nat_of_octets_snoc unat_of_nat_u8)
qed

lemma ipv4_octets_round_trip: "ipv4_from_octets (ipv4_octets a) = a"
proof -
  have "unat a < 2 ^ LENGTH(32)" by (rule unsigned_less)
  then have "unat a mod 256 ^ 4 = unat a" by simp
  then show ?thesis by (simp add: ipv4_from_octets_def ipv4_octets_def nat_of_be_octets)
qed

lemma ipv6_octets_round_trip: "ipv6_from_octets (ipv6_octets a) = a"
proof -
  have "unat a < 2 ^ LENGTH(128)" by (rule unsigned_less)
  then have "unat a mod 256 ^ 16 = unat a" by simp
  then show ?thesis by (simp add: ipv6_from_octets_def ipv6_octets_def nat_of_be_octets)
qed

text \<open>A digit character in terms of its byte.\<close>

lemma byte_of_digit_char: "d \<le> 9 \<Longrightarrow> unat (byte_of (digit_char d)) = 48 + d"
  by (simp add: digit_char_def unat_of_nat_u8 del: of_nat_add)

lemma byte_of_hex_digit:
  assumes "unat n < 16"
  shows "unat (byte_of (hex_digit n)) = (if unat n < 10 then 48 + unat n else 87 + unat n)"
  using assms by (simp add: hex_digit_def unat_word_ariths)

lemma char_neq_byte: "unat (byte_of c) \<noteq> unat (byte_of d) \<Longrightarrow> c \<noteq> d"
  by auto

lemma byte_of_dot [simp]: "byte_of (CHR ''.'') = 46" and byte_of_plus [simp]: "byte_of (CHR ''+'') = 43"
  by (simp_all add: byte_of_def)

lemma lowercase_char:
  "\<not> (65 \<le> unat (byte_of c) \<and> unat (byte_of c) \<le> 90) \<Longrightarrow> char_of_byte (ascii_lower (byte_of c)) = c"
  by (auto simp: ascii_lower_nat)

lemma digit_char_facts:
  assumes "d \<le> 9"
  shows "to_digit 10 (digit_char d) = Some d" and "digit_char d \<noteq> CHR ''.''" and "digit_char d \<noteq> CHR ''+''"
    and "char_of_byte (ascii_lower (byte_of (digit_char d))) = digit_char d"
proof -
  note b = byte_of_digit_char [OF assms]
  show "to_digit 10 (digit_char d) = Some d" using assms by (simp add: to_digit_def b)
  show "digit_char d \<noteq> CHR ''.''" "digit_char d \<noteq> CHR ''+''" by (rule char_neq_byte; simp add: b)+
  show "char_of_byte (ascii_lower (byte_of (digit_char d))) = digit_char d"
    using assms by (intro lowercase_char) (simp add: b)
qed

lemma hex_digit_facts:
  assumes "unat n < 16"
  shows "to_digit 16 (hex_digit n) = Some (unat n)" and "hex_digit n \<noteq> CHR ''.''" and "hex_digit n \<noteq> CHR ''+''"
    and "char_of_byte (ascii_lower (byte_of (hex_digit n))) = hex_digit n"
    and "u8_from_str_radix 16 [hex_digit n] = Some n"
proof -
  note b = byte_of_hex_digit [OF assms]
  show td: "to_digit 16 (hex_digit n) = Some (unat n)" using assms by (auto simp: to_digit_def b)
  show "hex_digit n \<noteq> CHR ''.''" by (rule char_neq_byte) (simp add: b)
  show np: "hex_digit n \<noteq> CHR ''+''" by (rule char_neq_byte) (simp add: b)
  show "char_of_byte (ascii_lower (byte_of (hex_digit n))) = hex_digit n"
    by (intro lowercase_char) (simp add: b)
  show "u8_from_str_radix 16 [hex_digit n] = Some n"
    using td np assms by (simp add: u8_from_str_radix_def unsigned_from_str_radix_def)
qed

lemma show_u8_facts:
  shows "u8_from_str_radix 10 (show_u8 b) = Some b" and "CHR ''.'' \<notin> set (show_u8 b)"
    and "to_ascii_lowercase (show_u8 b) = show_u8 b" and "show_u8 b \<noteq> []"
proof -
  let ?h = "unat b div 100" and ?t = "unat b div 10 mod 10" and ?u = "unat b mod 10"
  have d: "?h \<le> 9" "?t \<le> 9" "?u \<le> 9" using unat_u8_le [of b] by linarith+
  note f = digit_char_facts [OF d(1)] digit_char_facts [OF d(2)] digit_char_facts [OF d(3)]
  have "unat b div 100 = unat b div 10 div 10" by (simp flip: div_mult2_eq)
  then have sum: "(?h * 10 + ?t) * 10 + ?u = unat b"
    by (simp only: div_mult_mod_eq)
  have le: "?h * 10 + ?t \<le> 255" "?h \<le> 255" using d by linarith+
  have small: "unat b < 100 \<Longrightarrow> ?h = 0" "unat b < 10 \<Longrightarrow> ?t = 0" by simp_all
  have v: "digits_value 255 10 0 (show_u8 b) = Some (unat b)"
    using f sum le small unat_u8_le [of b] by (auto simp: show_u8_def Let_def) (rule le(1))
  moreover have "hd (show_u8 b) \<noteq> CHR ''+''" using f by (auto simp: show_u8_def Let_def)
  moreover show "show_u8 b \<noteq> []" by (simp add: show_u8_def Let_def)
  ultimately show "u8_from_str_radix 10 (show_u8 b) = Some b"
    by (auto simp: u8_from_str_radix_def unsigned_from_str_radix_def Let_def split: list.splits)
  show "CHR ''.'' \<notin> set (show_u8 b)" using f by (auto simp: show_u8_def Let_def)
  show "to_ascii_lowercase (show_u8 b) = show_u8 b"
    using f by (auto simp: show_u8_def Let_def to_ascii_lowercase_def)
qed

lemma split_dots_join_append:
  assumes "ls \<noteq> []" and "\<forall>l \<in> set ls. CHR ''.'' \<notin> set l"
  shows "split_dots (concat (map (\<lambda>l. l @ ''.'') (butlast ls)) @ last ls) = ls"
proof -
  have "join_labels ls = concat (map (\<lambda>l. l @ ''.'') (butlast ls)) @ last ls"
    using assms(1) by (induction ls rule: join_labels.induct) auto
  then show ?thesis using split_dots_join [OF assms] by simp
qed

lemma map_all_eq: "(\<And>x. x \<in> set xs \<Longrightarrow> f x = Some (g x)) \<Longrightarrow> map_all f xs = Some (map g xs)"
  by (induction xs) auto

lemma strip_suffix_other:
  assumes "length u = length v" and "u \<noteq> v"
  shows "strip_suffix (x @ u) (s @ v) = None"
proof -
  have "\<not> (length (x @ u) \<le> length (s @ v) \<and> drop (length (s @ v) - length (x @ u)) (s @ v) = x @ u)"
  proof
    assume a: "length (x @ u) \<le> length (s @ v) \<and> drop (length (s @ v) - length (x @ u)) (s @ v) = x @ u"
    then have "length x \<le> length s" using assms(1) by simp
    with a assms(1) have "drop (length s - length x) s @ v = x @ u" by simp
    with assms show False by (metis append_eq_append_conv)
  qed
  then show ?thesis unfolding strip_suffix_def by (simp only: if_False)
qed

lemma to_ascii_lowercase_Cons_dot: "to_ascii_lowercase (CHR ''.'' # s) = CHR ''.'' # to_ascii_lowercase s"
proof -
  have "char_of_byte (ascii_lower (byte_of (CHR ''.''))) = CHR ''.''" by (rule lowercase_char) simp
  then show ?thesis by (simp add: to_ascii_lowercase_def)
qed

lemma length_4:
  assumes "length xs = 4"
  obtains a b c d where "xs = [a, b, c, d]"
  using assms by (auto simp: length_Suc_conv numeral_eq_Suc)

lemma parse_reverse_name_v4:
  "parse_reverse_name (reverse_name (V4 a)) = Some (V4 a)"
proof -
  have "length (ipv4_octets a) = 4" by (simp add: ipv4_octets_def)
  then obtain o0 o1 o2 o3 where oct: "ipv4_octets a = [o0, o1, o2, o3]" by (rule length_4)
  let ?ls = "[show_u8 o3, show_u8 o2, show_u8 o1, show_u8 o0]"
  let ?prefix = "concat (map (\<lambda>l. l @ ''.'') (butlast ?ls)) @ last ?ls"
  have name: "reverse_name (V4 a) = ?prefix @ ''.in-addr.arpa''" by (simp add: oct)
  have trim: "trim_end_dots (?prefix @ ''.in-addr.arpa'') = ?prefix @ ''.in-addr.arpa''"
    by (rule trim_end_dots_keep) simp_all
  have lows: "to_ascii_lowercase ''.in-addr.arpa'' = ''.in-addr.arpa''" by code_simp
  have nil: "to_ascii_lowercase [] = []" by (simp add: to_ascii_lowercase_def)
  have low: "to_ascii_lowercase (?prefix @ ''.in-addr.arpa'') = ?prefix @ ''.in-addr.arpa''"
    by (simp only: to_ascii_lowercase_append lows) (simp add: to_ascii_lowercase_append to_ascii_lowercase_Cons_dot nil show_u8_facts(3))
  have sp: "split_dots ?prefix = ?ls" by (rule split_dots_join_append) (simp_all add: show_u8_facts)
  have "map_all (u8_from_str_radix 10) ?ls = Some [o3, o2, o1, o0]" by (simp add: show_u8_facts)
  then have "parse_reverse_name (reverse_name (V4 a)) = Some (V4 (ipv4_from_octets [o0, o1, o2, o3]))"
    unfolding parse_reverse_name_def name trim low Let_def strip_suffix_append option.case sp by simp
  then show ?thesis using ipv4_octets_round_trip [of a] oct by simp
qed

definition nibble_labels :: "bytes \<Rightarrow> string list" where
  "nibble_labels bs = concat (map (\<lambda>b. [[hex_digit (b AND 0x0f)], [hex_digit (drop_bit 4 b)]]) bs)"

definition nibbles_of :: "bytes \<Rightarrow> u8 list" where
  "nibbles_of bs = concat (map (\<lambda>b. [b AND 0x0f, drop_bit 4 b]) bs)"

lemma nibble_bounds: "unat ((b :: u8) AND 0x0f) < 16" "unat (drop_bit 4 (b :: u8)) < 16"
proof -
  have "unat (b AND 0x0f) = unat b mod 16"
    using unsigned_take_bit_eq [of 4 b] take_bit_eq_mask [of 4 b] by (simp add: mask_eq_exp_minus_1 take_bit_eq_mod)
  then show "unat (b AND 0x0f) < 16" by simp
  have "unat (drop_bit 4 b) = unat b div 16" unfolding unat_drop_bit_eq by (simp add: drop_bit_eq_div)
  then show "unat (drop_bit 4 b) < 16" using unat_u8_less [of b] by linarith
qed

lemma nibble_labels_facts:
  "\<forall>l \<in> set (nibble_labels bs). CHR ''.'' \<notin> set l"
  "map_all (u8_from_str_radix 16) (nibble_labels bs) = Some (nibbles_of bs)"
  "length (nibbles_of bs) = 2 * length bs" "\<not> list_ex (\<lambda>n. n > 0x0f) (nibbles_of bs)"
  "nibble_pairs (nibbles_of bs) = bs"
  "to_ascii_lowercase (concat (map (\<lambda>l. l @ ''.'') (nibble_labels bs))) = concat (map (\<lambda>l. l @ ''.'') (nibble_labels bs))"
proof (induction bs)
  case (Cons b bs)
  note n = nibble_bounds [of b]
  note f = hex_digit_facts [OF n(1)] hex_digit_facts [OF n(2)]
  have dot: "char_of_byte (ascii_lower (byte_of CHR ''.'')) = CHR ''.''" by code_simp
  have join: "(b AND 0x0f) OR push_bit 4 (drop_bit 4 b) = b"
  proof (rule bit_word_eqI)
    fix i assume "i < LENGTH(8)"
    have "bit (15 :: u8) i \<longleftrightarrow> i < 4"
    proof -
      have "(15 :: u8) = mask 4" by (simp add: mask_eq_exp_minus_1)
      then show ?thesis using \<open>i < LENGTH(8)\<close> by (simp only: bit_mask_iff) auto
    qed
    then show "bit ((b AND 0x0f) OR push_bit 4 (drop_bit 4 b)) i = bit b i"
      using \<open>i < LENGTH(8)\<close> by (auto simp: bit_simps)
  qed
  { case 1 then show ?case using Cons f by (auto simp: nibble_labels_def) }
  { case 2 then show ?case using Cons f by (simp add: nibble_labels_def nibbles_of_def) }
  { case 3 then show ?case using Cons by (simp add: nibbles_of_def) }
  { case 4 then show ?case using Cons n by (simp add: nibbles_of_def word_less_nat_alt) }
  { case 5 then show ?case using Cons join by (simp add: nibbles_of_def) }
  { case 6 then show ?case using Cons f dot by (simp add: nibble_labels_def to_ascii_lowercase_def) }
qed (simp_all add: nibble_labels_def nibbles_of_def to_ascii_lowercase_def)

lemma nibble_labels_name:
  "concat (map (\<lambda>b. [hex_digit (b AND 0x0f)] @ ''.'' @ [hex_digit (drop_bit 4 b)] @ ''.'') bs) =
     concat (map (\<lambda>l. l @ ''.'') (nibble_labels bs))"
  by (induction bs) (simp_all add: nibble_labels_def)

lemma parse_reverse_name_v6:
  "parse_reverse_name (reverse_name (V6 a)) = Some (V6 a)"
proof -
  let ?bs = "rev (ipv6_octets a)"
  let ?ls = "nibble_labels ?bs"
  let ?prefix = "concat (map (\<lambda>l. l @ ''.'') (butlast ?ls)) @ last ?ls"
  have len: "length ?bs = 16" by (simp add: ipv6_octets_def)
  have ne: "?ls \<noteq> []" using len by (cases ?bs) (auto simp: nibble_labels_def)
  have name: "reverse_name (V6 a) = concat (map (\<lambda>l. l @ ''.'') ?ls) @ ''ip6.arpa''"
    using nibble_labels_name [of ?bs] by simp
  have low: "to_ascii_lowercase (reverse_name (V6 a)) = reverse_name (V6 a)"
  proof -
    have "to_ascii_lowercase ''ip6.arpa'' = ''ip6.arpa''" by code_simp
    then show ?thesis unfolding name to_ascii_lowercase_append nibble_labels_facts(6) by (simp only:)
  qed
  have trim: "trim_end_dots (reverse_name (V6 a)) = reverse_name (V6 a)"
    unfolding name by (rule trim_end_dots_keep) simp_all
  have other: "strip_suffix ''.in-addr.arpa'' (reverse_name (V6 a)) = None"
    unfolding name using strip_suffix_other [of "''ddr.arpa''" "''ip6.arpa''" "''.in-a''"] by simp
  have pre: "reverse_name (V6 a) = ?prefix @ ''.ip6.arpa''"
  proof -
    have "concat (map (\<lambda>l. l @ ''.'') (butlast ?ls @ [last ?ls])) = ?prefix @ ''.''" by simp
    then have "concat (map (\<lambda>l. l @ ''.'') ?ls) = ?prefix @ ''.''"
      unfolding append_butlast_last_id [OF ne] .
    then show ?thesis unfolding name by simp
  qed
  have sp: "split_dots ?prefix = ?ls" by (rule split_dots_join_append [OF ne nibble_labels_facts(1)])
  have "parse_reverse_name (reverse_name (V6 a)) = Some (V6 (ipv6_from_octets (rev (nibble_pairs (nibbles_of ?bs)))))"
    unfolding parse_reverse_name_def trim low Let_def other option.case
    unfolding pre strip_suffix_append option.case sp nibble_labels_facts(2)
    using nibble_labels_facts(3,4) [of ?bs] len by simp
  then show ?thesis by (simp add: nibble_labels_facts(5) ipv6_octets_round_trip)
qed

section \<open>Properties\<close>

text \<open>
  C16: Reverse names round-trip: the reverse name of every IPv4 and every IPv6 address is parsed back to
  that address.
\<close>

theorem parse_reverse_name_round_trip: "parse_reverse_name (reverse_name address) = Some address"
  by (cases address) (simp_all only: parse_reverse_name_v4 parse_reverse_name_v6)

end
