(* ===== verification/Cache_X.thy ===== *)
theory Cache_X
  imports Wire_Name "HOL-Library.AList" "HOL-Library.Multiset" "HOL-Library.List_Lexorder" "HOL-Library.Product_Lexorder"
begin

text \<open>
  The sharded cache (\<open>src/src/cache_x.rs\<close>): name hashing, shards, insertion with eviction, lookup with
  serve-stale, the single-flight table and the statistics. The hash map of a shard is an association list
  without duplicate keys, in the order in which the map iterates; every property holds for any such order.
  The properties: the shard index is in
  range, a shard never holds more than its maximum, what is inserted is found, an insertion changes no
  other entry except by eviction, eviction takes dead entries before live ones and older before newer,
  and a key has at most one leader in flight.
\<close>

section \<open>Keys and hashing\<close>

record x_key =
  xk_owner :: bytes
  xk_qtype :: u16
  xk_qclass :: u16
  xk_checking_disabled :: bool
  xk_route :: u64

definition FNV_OFFSET :: u64 where "FNV_OFFSET = 0xcbf29ce484222325"
definition FNV_PRIME :: u64 where "FNV_PRIME = 0x100000001b3"

definition fold_byte :: "u8 \<Rightarrow> u64 \<Rightarrow> u64" where
  "fold_byte b h = (h XOR ucast (ascii_lower b)) * FNV_PRIME"

text \<open>
  The loop of \<open>dns_name_hash\<close>, over the octets from index \<open>i\<close> on. \<open>Inr h\<close> is the hash at the end of the
  loop, \<open>Inl h\<close> the early return for an invalid name.
\<close>

function name_hash_loop :: "bytes \<Rightarrow> u64 \<Rightarrow> u64 + u64" where
  "name_hash_loop [] h = Inr h"
| "name_hash_loop (len # rest) h =
     (if len = 0 then Inr ((h XOR 0xff) * FNV_PRIME)
      else if unat len > 63 \<or> unat len > length rest then Inl (h XOR 0xDEADBEEFCAFEBABE)
      else
        let h = fold fold_byte (take (unat len) rest) h;
            h = (h XOR 0x2e) * FNV_PRIME
        in name_hash_loop (drop (unat len) rest) h)"
  by pat_completeness auto

termination
  by (relation "measure (length \<circ> fst)") auto

declare name_hash_loop.simps(2) [simp del]

definition dns_name_hash :: "bytes \<Rightarrow> u64" where
  "dns_name_hash wire =
     (case name_hash_loop wire FNV_OFFSET of
        Inl h \<Rightarrow> h
      | Inr h \<Rightarrow>
          let x = h XOR drop_bit 32 h;
              x = x * 0xe7037ed1a0b428db
          in x XOR drop_bit 32 x)"

section \<open>Entries and shards\<close>

record cache_entry =
  ce_rcode :: u8
  ce_answer :: bytes
  ce_inserted :: instant
  ce_expires_at :: instant
  ce_stale_until :: instant
  ce_dnssec_secure :: bool
  ce_source_ifindex :: "int option"
  ce_source_scope :: u64
  ce_insert_gen :: u64

definition is_fresh :: "cache_entry \<Rightarrow> instant \<Rightarrow> bool" where
  "is_fresh e now \<longleftrightarrow> now < ce_expires_at e"

definition is_servable_stale :: "cache_entry \<Rightarrow> instant \<Rightarrow> bool" where
  "is_servable_stale e now \<longleftrightarrow> ce_expires_at e \<le> now \<and> now < ce_stale_until e"

type_synonym shard_map = "(x_key \<times> cache_entry) list"

record shard =
  sh_map :: shard_map
  sh_live :: u64

definition new_shard :: shard where
  "new_shard = \<lparr>sh_map = [], sh_live = 0\<rparr>"

text \<open>
  A flight is the channel its followers listen on, here the list of their task numbers.
\<close>

record global_cache =
  gc_shards :: "shard list"
  gc_shard_mask :: u64
  gc_max_per_shard :: nat
  gc_stale_window :: duration
  gc_gen :: u64
  gc_flights :: "(x_key \<times> nat list) list"
  gc_hits :: u64
  gc_misses :: u64
  gc_stale_hits :: u64
  gc_coalesced :: u64

text \<open>\<open>GlobalCache::new\<close>; its assertion on \<open>shard_bits\<close> is a failure of the model.\<close>

definition global_cache_new :: "nat \<Rightarrow> nat \<Rightarrow> duration \<Rightarrow> global_cache option" where
  "global_cache_new shard_bits max_per_shard stale_window =
     (if 0 < shard_bits \<and> shard_bits \<le> 12 then
        let n = 2 ^ shard_bits in
        Some \<lparr>gc_shards = replicate n new_shard, gc_shard_mask = of_nat n - 1,
              gc_max_per_shard = max_per_shard, gc_stale_window = stale_window, gc_gen = 1,
              gc_flights = [], gc_hits = 0, gc_misses = 0, gc_stale_hits = 0, gc_coalesced = 0\<rparr>
      else None)"

definition shard_idx :: "global_cache \<Rightarrow> x_key \<Rightarrow> nat" where
  "shard_idx c key =
     unat ((dns_name_hash (xk_owner key) XOR push_bit 16 (ucast (xk_qtype key)) XOR ucast (xk_qclass key))
           AND gc_shard_mask c)"

section \<open>Lookup\<close>

datatype lookup = Fresh cache_entry | Stale cache_entry | Miss

definition gc_lookup :: "global_cache \<Rightarrow> x_key \<Rightarrow> instant \<Rightarrow> lookup \<times> global_cache" where
  "gc_lookup c key now =
     (case map_of (sh_map (gc_shards c ! shard_idx c key)) key of
        Some e \<Rightarrow>
          if is_fresh e now then (Fresh e, c\<lparr>gc_hits := gc_hits c + 1\<rparr>)
          else if is_servable_stale e now then (Stale e, c\<lparr>gc_stale_hits := gc_stale_hits c + 1\<rparr>)
          else (Miss, c\<lparr>gc_misses := gc_misses c + 1\<rparr>)
      | None \<Rightarrow> (Miss, c\<lparr>gc_misses := gc_misses c + 1\<rparr>))"

section \<open>Insertion\<close>

definition clamp_ttl :: "duration \<Rightarrow> u8 \<Rightarrow> duration" where
  "clamp_ttl ttl rcode =
     (let mx = (if rcode = 3 \<or> rcode = 0 then from_secs (if rcode = 3 then 1800 else 3600)
                else from_secs 86400);
          mn = from_secs 1
      in if ttl < mn then mn else if ttl > mx then mx else ttl)"

text \<open>The closure \<open>HashMap::retain\<close> calls on every entry, with its counter of removed entries.\<close>

fun retain_loop :: "instant \<Rightarrow> nat \<Rightarrow> shard_map \<Rightarrow> nat \<Rightarrow> shard_map \<times> nat" where
  "retain_loop now budget [] removed = ([], removed)"
| "retain_loop now budget ((k, e) # m) removed =
     (if removed \<ge> budget then
        (case retain_loop now budget m removed of (m', r) \<Rightarrow> ((k, e) # m', r))
      else if \<not> is_fresh e now \<and> \<not> is_servable_stale e now then retain_loop now budget m (removed + 1)
      else (case retain_loop now budget m removed of (m', r) \<Rightarrow> ((k, e) # m', r)))"

definition evict_expired_or_oldest :: "shard_map \<Rightarrow> instant \<Rightarrow> nat \<Rightarrow> shard_map" where
  "evict_expired_or_oldest m now budget =
     (case retain_loop now budget m 0 of (m, removed) \<Rightarrow>
        if removed \<ge> budget \<or> m = [] then m
        else
          let gens = map (\<lambda>(k, e). (ce_insert_gen e, k)) m;
              gens = sort_key fst gens
          in fold (\<lambda>(_, k) m. AList.delete k m) (take (budget - removed) gens) m)"

definition shard_insert :: "global_cache \<Rightarrow> instant \<Rightarrow> x_key \<Rightarrow> cache_entry \<Rightarrow> shard \<Rightarrow> shard" where
  "shard_insert c now key entry shard =
     (let m = sh_map shard;
          m = (if length m \<ge> gc_max_per_shard c
               then evict_expired_or_oldest m now (gc_max_per_shard c div 16 + 1) else m);
          is_new = (map_of m key = None);
          m = AList.update key entry m
      in \<lparr>sh_map = m, sh_live = (if is_new then sh_live shard + 1 else sh_live shard)\<rparr>)"

definition gc_insert_with_scope ::
  "global_cache \<Rightarrow> x_key \<Rightarrow> u8 \<Rightarrow> bytes \<Rightarrow> duration \<Rightarrow> bool \<Rightarrow> int option \<Rightarrow> u64 \<Rightarrow> instant \<Rightarrow> global_cache" where
  "gc_insert_with_scope c key rcode answer ttl dnssec_secure source_ifindex source_scope now =
     (let ttl = clamp_ttl ttl rcode;
          entry = \<lparr>ce_rcode = rcode, ce_answer = answer, ce_inserted = now, ce_expires_at = now + ttl,
                   ce_stale_until = now + ttl + gc_stale_window c, ce_dnssec_secure = dnssec_secure,
                   ce_source_ifindex = source_ifindex, ce_source_scope = source_scope,
                   ce_insert_gen = gc_gen c\<rparr>;
          idx = shard_idx c key
      in c\<lparr>gc_gen := gc_gen c + 1,
           gc_shards := (gc_shards c)[idx := shard_insert c now key entry (gc_shards c ! idx)]\<rparr>)"

definition gc_insert ::
  "global_cache \<Rightarrow> x_key \<Rightarrow> u8 \<Rightarrow> bytes \<Rightarrow> duration \<Rightarrow> bool \<Rightarrow> int option \<Rightarrow> instant \<Rightarrow> global_cache" where
  "gc_insert c key rcode answer ttl dnssec_secure source_ifindex now =
     gc_insert_with_scope c key rcode answer ttl dnssec_secure source_ifindex 0 now"

definition gc_set_stale_window :: "global_cache \<Rightarrow> duration \<Rightarrow> global_cache" where
  "gc_set_stale_window c stale_window =
     c\<lparr>gc_stale_window := stale_window,
       gc_shards := map (\<lambda>s. s\<lparr>sh_map := map (\<lambda>(k, e). (k, e\<lparr>ce_stale_until := ce_expires_at e + stale_window\<rparr>))
                                           (sh_map s)\<rparr>) (gc_shards c)\<rparr>"

definition gc_flush :: "global_cache \<Rightarrow> global_cache" where
  "gc_flush c = c\<lparr>gc_shards := map (\<lambda>s. new_shard) (gc_shards c)\<rparr>"

definition gc_len :: "global_cache \<Rightarrow> nat" where
  "gc_len c = sum_list (map (\<lambda>s. unat (sh_live s)) (gc_shards c))"

definition gc_snapshot :: "global_cache \<Rightarrow> instant \<Rightarrow> shard_map" where
  "gc_snapshot c now =
     sort_key (\<lambda>(k, e). (xk_owner k, xk_qclass k, xk_qtype k, ce_insert_gen e))
       (concat (map (\<lambda>s. filter (\<lambda>(k, e). is_fresh e now \<or> is_servable_stale e now) (sh_map s)) (gc_shards c)))"

record cache_stats =
  cs_hits :: u64
  cs_misses :: u64
  cs_stale_hits :: u64
  cs_coalesced :: u64

definition gc_stats :: "global_cache \<Rightarrow> cache_stats" where
  "gc_stats c = \<lparr>cs_hits = gc_hits c, cs_misses = gc_misses c, cs_stale_hits = gc_stale_hits c,
                 cs_coalesced = gc_coalesced c\<rparr>"

section \<open>Single flight\<close>

datatype fetch_err = Upstream | Timeout | LeaderFailed | CoalesceDropped | PolicyDenied

text \<open>
  \<open>get_or_fetch\<close> up to its first suspension: it returns an entry at once, waits as a follower of the
  flight of its key, or opens that flight and leads it.
\<close>

datatype flight_start = Served cache_entry | Following | Leading

definition get_or_fetch_start :: "global_cache \<Rightarrow> nat \<Rightarrow> x_key \<Rightarrow> instant \<Rightarrow> flight_start \<times> global_cache" where
  "get_or_fetch_start c task key now =
     (case gc_lookup c key now of
        (Fresh e, c) \<Rightarrow> (Served e, c)
      | (Stale e, c) \<Rightarrow> (Served e, c)
      | (Miss, c) \<Rightarrow>
          (case map_of (gc_flights c) key of
             Some followers \<Rightarrow>
               (Following, c\<lparr>gc_coalesced := gc_coalesced c + 1,
                             gc_flights := AList.update key (followers @ [task]) (gc_flights c)\<rparr>)
           | None \<Rightarrow> (Leading, c\<lparr>gc_flights := (key, []) # gc_flights c\<rparr>)))"

text \<open>
  The rest of the leader's run, once \<open>fetch\<close> returned: the flight is closed, the answer cached, and the
  result returned to the leader and sent to the followers. The code reads the clock four times.
\<close>

definition get_or_fetch_finish ::
  "global_cache \<Rightarrow> x_key \<Rightarrow> fetch_err + (u8 \<times> bytes \<times> duration \<times> bool) \<Rightarrow> instant \<times> instant \<times> instant \<times> instant \<Rightarrow>
     (fetch_err + cache_entry) \<times> (nat \<times> (fetch_err + cache_entry)) list \<times> global_cache" where
  "get_or_fetch_finish c key result clock =
     (let followers = (case map_of (gc_flights c) key of None \<Rightarrow> [] | Some fs \<Rightarrow> fs);
          c = c\<lparr>gc_flights := AList.delete key (gc_flights c)\<rparr>
      in case result of
           Inl e \<Rightarrow> (Inl e, map (\<lambda>f. (f, Inl LeaderFailed)) followers, c)
         | Inr (rcode, answer, ttl, secure) \<Rightarrow>
             (case clock of (t1, t2, t3, t4) \<Rightarrow>
                let c = gc_insert c key rcode answer ttl secure None t1;
                    entry = \<lparr>ce_rcode = rcode, ce_answer = answer, ce_inserted = t2,
                             ce_expires_at = t3 + clamp_ttl ttl rcode,
                             ce_stale_until = t4 + clamp_ttl ttl rcode + gc_stale_window c,
                             ce_dnssec_secure = secure, ce_source_ifindex = None, ce_source_scope = 0,
                             ce_insert_gen = gc_gen c\<rparr>
                in (Inr entry, map (\<lambda>f. (f, Inr entry)) followers, c)))"

section \<open>Owner names\<close>

datatype name_err = BadLabel | TooLong

fun owner_to_wire_loop :: "bytes list \<Rightarrow> nat \<Rightarrow> bytes \<Rightarrow> name_err + bytes" where
  "owner_to_wire_loop [] tot out = Inr (out @ [0])"
| "owner_to_wire_loop (lab # labels) tot out =
     (if lab = [] \<or> length lab > 63 then Inl BadLabel
      else if tot + length lab + 1 > 255 then Inl TooLong
      else owner_to_wire_loop labels (tot + length lab + 1)
             (out @ of_nat (length lab) # map ascii_lower lab))"

definition owner_to_wire_lower :: "bytes list \<Rightarrow> name_err + bytes" where
  "owner_to_wire_lower labels = owner_to_wire_loop labels 0 []"

section \<open>Lemmas: eviction\<close>

definition is_dead :: "instant \<Rightarrow> cache_entry \<Rightarrow> bool" where
  "is_dead now e \<longleftrightarrow> \<not> is_fresh e now \<and> \<not> is_servable_stale e now"

text \<open>\<open>retain_loop\<close> drops dead entries only, as many as the budget allows.\<close>

lemma retain_loop_spec:
  assumes "retain_loop now budget m r = (m', r')" and "r \<le> budget"
  shows "set m' \<subseteq> set m" and "length m' + r' = length m + r" and "r' \<le> budget"
    and "\<forall>(k, e) \<in> set m - set m'. is_dead now e" and "r' < budget \<longrightarrow> (\<forall>(k, e) \<in> set m'. \<not> is_dead now e)"
    and "distinct (map fst m) \<longrightarrow> distinct (map fst m')"
proof -
  have "set m' \<subseteq> set m \<and> length m' + r' = length m + r \<and> r' \<le> budget \<and> r \<le> r' \<and>
     (\<forall>(k, e) \<in> set m - set m'. is_dead now e) \<and>
     (r' < budget \<longrightarrow> (\<forall>(k, e) \<in> set m'. \<not> is_dead now e)) \<and>
     (distinct (map fst m) \<longrightarrow> distinct (map fst m'))"
    using assms
  proof (induction m arbitrary: r m' r')
    case (Cons x m)
    obtain k e where x: "x = (k, e)" by (cases x)
    show ?case
    proof (cases "r < budget \<and> is_dead now e")
      case True
      then have "retain_loop now budget m (r + 1) = (m', r')"
        using Cons.prems(1) x by (simp add: is_dead_def)
      from Cons.IH [OF this] True x show ?thesis by auto
    next
      case False
      obtain m1 where m1: "retain_loop now budget m r = (m1, r')" "m' = (k, e) # m1"
        using Cons.prems(1) x False by (auto simp: is_dead_def split: prod.splits if_splits)
      note IH = Cons.IH [OF m1(1) Cons.prems(2)]
      have "distinct (map fst (x # m)) \<longrightarrow> distinct (map fst m')"
        using IH m1(2) x by (auto simp: image_iff)
      then show ?thesis using IH m1(2) x False by auto
    qed
  qed simp
  then show "set m' \<subseteq> set m" "length m' + r' = length m + r" "r' \<le> budget"
    "\<forall>(k, e) \<in> set m - set m'. is_dead now e" "r' < budget \<longrightarrow> (\<forall>(k, e) \<in> set m'. \<not> is_dead now e)"
    "distinct (map fst m) \<longrightarrow> distinct (map fst m')" by blast+
qed

lemma fold_delete:
  "fold (\<lambda>(_, k) m. AList.delete k m) gs m = filter (\<lambda>(k, e). k \<notin> snd ` set gs) m"
proof (induction gs arbitrary: m)
  case Nil
  then show ?case by (simp add: case_prod_unfold)
next
  case (Cons g gs)
  then show ?case
    by (cases g) (auto simp: AList.delete_eq intro: filter_cong)
qed

text \<open>Dropping the \<open>n\<close> oldest entries of a map with distinct keys.\<close>

definition drop_oldest :: "nat \<Rightarrow> shard_map \<Rightarrow> shard_map" where
  "drop_oldest n m =
     fold (\<lambda>(_, k) m. AList.delete k m) (take n (sort_key fst (map (\<lambda>(k, e). (ce_insert_gen e, k)) m))) m"

lemma drop_oldest_spec:
  assumes "distinct (map fst m)"
  shows "set (drop_oldest n m) \<subseteq> set m" and "distinct (map fst (drop_oldest n m))"
    and "length (drop_oldest n m) = length m - n"
    and "\<forall>(k, e) \<in> set m - set (drop_oldest n m). \<forall>(k', e') \<in> set (drop_oldest n m). ce_insert_gen e \<le> ce_insert_gen e'"
proof -
  let ?gs = "sort_key fst (map (\<lambda>(k, e). (ce_insert_gen e, k)) m)"
  let ?old = "take n ?gs"
  have eq: "drop_oldest n m = filter (\<lambda>(k, e). k \<notin> snd ` set ?old) m"
    by (simp add: drop_oldest_def fold_delete)
  show "set (drop_oldest n m) \<subseteq> set m" by (auto simp: eq)
  show "distinct (map fst (drop_oldest n m))"
    unfolding eq using assms by (simp add: distinct_map inj_on_def)
  have keys: "map snd (map (\<lambda>(k, e). (ce_insert_gen e, k)) m) = map fst m" by auto
  have "mset (map snd ?gs) = mset (map fst m)" unfolding keys [symmetric] by (simp only: mset_map mset_sort)
  then have dist: "distinct (map snd ?gs)" using assms by (metis mset_eq_imp_distinct_iff)
  have sub: "snd ` set ?old \<subseteq> fst ` set m"
  proof -
    have "snd ` set ?gs = fst ` set m" by (simp add: image_image case_prod_unfold)
    then show ?thesis using set_take_subset [of n ?gs] by (metis image_mono)
  qed
  have "card (snd ` set ?old) = length ?old"
  proof -
    have "distinct (map snd ?old)" using dist by (metis distinct_take take_map)
    from distinct_card [OF this] show ?thesis unfolding set_map length_map .
  qed
  moreover have "length ?old = min n (length m)" by simp
  moreover have "length (drop_oldest n m) + card (snd ` set ?old) = length m"
  proof -
    have c1: "card (fst ` set (filter (\<lambda>(k, e). k \<notin> snd ` set ?old) m)) = length (filter (\<lambda>(k, e). k \<notin> snd ` set ?old) m)"
      using distinct_card [OF \<open>distinct (map fst (drop_oldest n m))\<close>] unfolding eq set_map length_map .
    have s1: "fst ` set (filter (\<lambda>(k, e). k \<notin> snd ` set ?old) m) = fst ` set m - snd ` set ?old" by force
    have c2: "card (fst ` set m) = length m" using distinct_card [OF assms] unfolding set_map length_map .
    have c3: "card (fst ` set m - snd ` set ?old) = card (fst ` set m) - card (snd ` set ?old)"
      using sub by (intro card_Diff_subset) auto
    have c4: "card (snd ` set ?old) \<le> card (fst ` set m)" using sub by (intro card_mono) auto
    show ?thesis using c1 [unfolded s1] c2 c3 c4 unfolding eq by linarith
  qed
  ultimately show "length (drop_oldest n m) = length m - n" by simp
  show "\<forall>(k, e) \<in> set m - set (drop_oldest n m). \<forall>(k', e') \<in> set (drop_oldest n m). ce_insert_gen e \<le> ce_insert_gen e'"
  proof (clarify)
    fix k e k' e'
    assume ke: "(k, e) \<in> set m" "(k, e) \<notin> set (drop_oldest n m)" and ke': "(k', e') \<in> set (drop_oldest n m)"
    have same: "e1 = e2" if "(k1, e1) \<in> set m" "(k1, e2) \<in> set m" for k1 e1 e2
      using assms that by (metis map_of_is_SomeI option.inject)
    from ke obtain g where g: "(g, k) \<in> set ?old" by (auto simp: eq)
    then have "(g, k) \<in> set ?gs" by (rule in_set_takeD)
    then have g': "(ce_insert_gen e, k) \<in> set ?old" using g same ke(1) by auto
    from ke' have "(k', e') \<in> set m" "k' \<notin> snd ` set ?old" by (auto simp: eq)
    then have "(ce_insert_gen e', k') \<in> set ?gs" "(ce_insert_gen e', k') \<notin> set ?old" by (force, force)
    then have d: "(ce_insert_gen e', k') \<in> set (drop n ?gs)"
      by (metis Un_iff append_take_drop_id set_append)
    have "sorted (map fst ?old @ map fst (drop n ?gs))"
      by (metis append_take_drop_id map_append sorted_sort_key)
    then have "\<forall>x \<in> set (map fst ?old). \<forall>y \<in> set (map fst (drop n ?gs)). x \<le> y"
      unfolding sorted_append by blast
    moreover have "ce_insert_gen e \<in> set (map fst ?old)" "ce_insert_gen e' \<in> set (map fst (drop n ?gs))"
      using imageI [OF g', of fst] imageI [OF d, of fst] by simp_all
    ultimately show "ce_insert_gen e \<le> ce_insert_gen e'" by blast
  qed
qed

lemma evict_eq:
  "evict_expired_or_oldest m now budget =
     (case retain_loop now budget m 0 of (m', r) \<Rightarrow> if r \<ge> budget \<or> m' = [] then m' else drop_oldest (budget - r) m')"
  by (simp add: evict_expired_or_oldest_def drop_oldest_def Let_def split: prod.splits)

lemma evict_spec:
  assumes "distinct (map fst m)"
  shows "set (evict_expired_or_oldest m now budget) \<subseteq> set m"
    and "distinct (map fst (evict_expired_or_oldest m now budget))"
    and "length (evict_expired_or_oldest m now budget) = length m - budget"
    and "\<forall>(k, e) \<in> set m - set (evict_expired_or_oldest m now budget). is_dead now e \<or>
      (\<forall>(k', e') \<in> set (evict_expired_or_oldest m now budget). \<not> is_dead now e' \<and> ce_insert_gen e \<le> ce_insert_gen e')"
proof -
  obtain m' r where r: "retain_loop now budget m 0 = (m', r)" by (cases "retain_loop now budget m 0")
  note rs = retain_loop_spec [OF r]
  show "set (evict_expired_or_oldest m now budget) \<subseteq> set m"
    "distinct (map fst (evict_expired_or_oldest m now budget))"
    "length (evict_expired_or_oldest m now budget) = length m - budget"
    using rs assms drop_oldest_spec [of m' "budget - r"] by (auto simp: evict_eq r)
  show "\<forall>(k, e) \<in> set m - set (evict_expired_or_oldest m now budget). is_dead now e \<or>
      (\<forall>(k', e') \<in> set (evict_expired_or_oldest m now budget). \<not> is_dead now e' \<and> ce_insert_gen e \<le> ce_insert_gen e')"
  proof (cases "r \<ge> budget \<or> m' = []")
    case True
    then show ?thesis using rs(4) by (auto simp: evict_eq r)
  next
    case False
    then have ev: "evict_expired_or_oldest m now budget = drop_oldest (budget - r) m'" by (simp add: evict_eq r)
    have d: "distinct (map fst m')" using rs(6) assms by simp
    have live: "\<forall>(k, e) \<in> set m'. \<not> is_dead now e" using rs(5) False by simp
    show ?thesis unfolding ev
      using rs(4) live drop_oldest_spec(1) [OF d, of "budget - r"] drop_oldest_spec(4) [OF d, of "budget - r"]
      by blast
  qed
qed

section \<open>The invariant\<close>

definition gc_find :: "global_cache \<Rightarrow> x_key \<Rightarrow> cache_entry option" where
  "gc_find c key = map_of (sh_map (gc_shards c ! shard_idx c key)) key"

definition shard_ok :: "global_cache \<Rightarrow> nat \<Rightarrow> shard \<Rightarrow> bool" where
  "shard_ok c i s \<longleftrightarrow> distinct (map fst (sh_map s)) \<and> length (sh_map s) \<le> gc_max_per_shard c \<and>
     (\<forall>(k, e) \<in> set (sh_map s). shard_idx c k = i \<and> ce_inserted e < ce_expires_at e \<and> ce_expires_at e \<le> ce_stale_until e)"

definition cache_inv :: "global_cache \<Rightarrow> bool" where
  "cache_inv c \<longleftrightarrow> (\<exists>b. 0 < b \<and> b \<le> 12 \<and> length (gc_shards c) = 2 ^ b \<and> gc_shard_mask c = mask b) \<and>
     0 < gc_max_per_shard c \<and> (\<forall>i < length (gc_shards c). shard_ok c i (gc_shards c ! i))"

lemma shard_idx_less:
  assumes "length (gc_shards c) = 2 ^ b" and "gc_shard_mask c = mask b"
  shows "shard_idx c k < length (gc_shards c)"
proof -
  have "unat (take_bit b w) < 2 ^ b" for w :: u64
    by (metis take_bit_nat_less_exp unsigned_take_bit_eq)
  then show ?thesis unfolding shard_idx_def assms take_bit_eq_mask [symmetric] .
qed

lemma cache_inv_idx: "cache_inv c \<Longrightarrow> shard_idx c k < length (gc_shards c)"
  unfolding cache_inv_def using shard_idx_less by blast

lemma cache_inv_new:
  assumes "global_cache_new bits n w = Some c" and "0 < n"
  shows "cache_inv c"
proof -
  have "of_nat (2 ^ bits) - 1 = (mask bits :: u64)" by (simp add: mask_eq_exp_minus_1)
  then show ?thesis
    using assms by (auto simp: global_cache_new_def cache_inv_def shard_ok_def new_shard_def Let_def split: if_splits)
qed

text \<open>An operation that only touches counters and flights keeps the invariant and every entry.\<close>

lemma cache_inv_cong:
  assumes "gc_shards c' = gc_shards c" and "gc_shard_mask c' = gc_shard_mask c"
    and "gc_max_per_shard c' = gc_max_per_shard c"
  shows "cache_inv c' = cache_inv c" and "gc_find c' = gc_find c" and "shard_idx c' = shard_idx c"
proof -
  show idx: "shard_idx c' = shard_idx c" using assms by (auto simp: shard_idx_def)
  then show "gc_find c' = gc_find c" using assms by (auto simp: gc_find_def)
  show "cache_inv c' = cache_inv c" using assms idx by (simp add: cache_inv_def shard_ok_def)
qed

lemma gc_lookup_eq:
  "fst (gc_lookup c key now) =
     (case gc_find c key of
        None \<Rightarrow> Miss
      | Some e \<Rightarrow> if is_fresh e now then Fresh e else if is_servable_stale e now then Stale e else Miss)"
  by (simp add: gc_lookup_def gc_find_def split: option.splits)

lemma gc_lookup_frame:
  "gc_shards (snd (gc_lookup c key now)) = gc_shards c" "gc_shard_mask (snd (gc_lookup c key now)) = gc_shard_mask c"
  "gc_max_per_shard (snd (gc_lookup c key now)) = gc_max_per_shard c" "gc_flights (snd (gc_lookup c key now)) = gc_flights c"
  "gc_stale_window (snd (gc_lookup c key now)) = gc_stale_window c"
  by (auto simp: gc_lookup_def split: option.splits)

section \<open>Lemmas: insertion\<close>

lemma clamp_ttl_bounds: "from_secs 1 \<le> clamp_ttl ttl rcode \<and> clamp_ttl ttl rcode \<le> from_secs 86400"
  by (auto simp: clamp_ttl_def from_secs_def Let_def)

definition inserted_entry ::
  "global_cache \<Rightarrow> u8 \<Rightarrow> bytes \<Rightarrow> duration \<Rightarrow> bool \<Rightarrow> int option \<Rightarrow> u64 \<Rightarrow> instant \<Rightarrow> cache_entry" where
  "inserted_entry c rcode answer ttl dnssec_secure source_ifindex source_scope now =
     \<lparr>ce_rcode = rcode, ce_answer = answer, ce_inserted = now, ce_expires_at = now + clamp_ttl ttl rcode,
      ce_stale_until = now + clamp_ttl ttl rcode + gc_stale_window c, ce_dnssec_secure = dnssec_secure,
      ce_source_ifindex = source_ifindex, ce_source_scope = source_scope, ce_insert_gen = gc_gen c\<rparr>"

lemma inserted_entry_times:
  "ce_inserted (inserted_entry c r a t d i s now) < ce_expires_at (inserted_entry c r a t d i s now)"
  "ce_expires_at (inserted_entry c r a t d i s now) \<le> ce_stale_until (inserted_entry c r a t d i s now)"
  using clamp_ttl_bounds [of t r] by (simp_all add: inserted_entry_def from_secs_def)

text \<open>The map of a shard before the new entry goes in.\<close>

definition make_room :: "global_cache \<Rightarrow> instant \<Rightarrow> shard_map \<Rightarrow> shard_map" where
  "make_room c now m =
     (if length m \<ge> gc_max_per_shard c then evict_expired_or_oldest m now (gc_max_per_shard c div 16 + 1) else m)"

lemma make_room_spec:
  assumes "distinct (map fst m)" and "length m \<le> gc_max_per_shard c" and "0 < gc_max_per_shard c"
  shows "set (make_room c now m) \<subseteq> set m" and "distinct (map fst (make_room c now m))"
    and "length (make_room c now m) < gc_max_per_shard c"
  using evict_spec(1-3) [OF assms(1), of now "gc_max_per_shard c div 16 + 1"] assms
  by (auto simp: make_room_def)

lemma length_update: "length (AList.update k v m) \<le> Suc (length m)"
  by (induction m) auto

lemma set_update: "set (AList.update k v m) \<subseteq> insert (k, v) (set m)"
  by (induction m) auto

lemma shard_insert_ok:
  assumes "shard_ok c i s" and "0 < gc_max_per_shard c" and "shard_idx c key = i"
    and "ce_inserted e < ce_expires_at e" and "ce_expires_at e \<le> ce_stale_until e"
  shows "shard_ok c i (shard_insert c now key e s)"
proof -
  let ?m = "make_room c now (sh_map s)"
  have map: "sh_map (shard_insert c now key e s) = AList.update key e ?m"
    by (simp add: shard_insert_def make_room_def Let_def)
  have d: "distinct (map fst (sh_map s))" and l: "length (sh_map s) \<le> gc_max_per_shard c"
    using assms(1) by (simp_all add: shard_ok_def)
  note mr = make_room_spec [OF d l assms(2), of now]
  have "length (AList.update key e ?m) \<le> gc_max_per_shard c"
    using length_update [of key e ?m] mr(3) by linarith
  moreover have "distinct (map fst (AList.update key e ?m))" using mr(2) by (rule distinct_update)
  moreover have "\<forall>(k, e) \<in> set (AList.update key e ?m). shard_idx c k = i \<and> ce_inserted e < ce_expires_at e \<and>
      ce_expires_at e \<le> ce_stale_until e"
    using set_update [of key e ?m] mr(1) assms(1,3-5) by (auto simp: shard_ok_def)
  ultimately show ?thesis by (simp add: shard_ok_def map)
qed

lemma gc_insert_with_scope_frame:
  "gc_shard_mask (gc_insert_with_scope c k r a t d i s now) = gc_shard_mask c" "gc_max_per_shard (gc_insert_with_scope c k r a t d i s now) = gc_max_per_shard c"
  "gc_stale_window (gc_insert_with_scope c k r a t d i s now) = gc_stale_window c" "gc_flights (gc_insert_with_scope c k r a t d i s now) = gc_flights c"
  "length (gc_shards (gc_insert_with_scope c k r a t d i s now)) = length (gc_shards c)" "shard_idx (gc_insert_with_scope c k r a t d i s now) = shard_idx c"
  by (auto simp: gc_insert_with_scope_def Let_def shard_idx_def)

lemma gc_insert_with_scope_shard:
  assumes "cache_inv c"
  shows "gc_shards (gc_insert_with_scope c k r a t d i s now) ! j =
    (if j = shard_idx c k then shard_insert c now k (inserted_entry c r a t d i s now) (gc_shards c ! j)
     else gc_shards c ! j)"
  using cache_inv_idx [OF assms, of k]
  by (auto simp: gc_insert_with_scope_def inserted_entry_def Let_def)

lemma cache_inv_insert:
  assumes "cache_inv c"
  shows "cache_inv (gc_insert_with_scope c k r a t d i s now)"
proof -
  let ?c = "gc_insert_with_scope c k r a t d i s now"
  have ok: "shard_ok ?c j x = shard_ok c j x" for j x
    by (simp add: shard_ok_def gc_insert_with_scope_frame)
  have "shard_ok c j (gc_shards ?c ! j)" if "j < length (gc_shards c)" for j
    using assms that inserted_entry_times
    by (auto simp: gc_insert_with_scope_shard [OF assms] cache_inv_def intro!: shard_insert_ok)
  then show ?thesis using assms by (auto simp: cache_inv_def ok gc_insert_with_scope_frame)
qed

lemma gc_find_insert_same:
  assumes "cache_inv c"
  shows "gc_find (gc_insert_with_scope c k r a t d i s now) k = Some (inserted_entry c r a t d i s now)"
  by (simp add: gc_find_def gc_insert_with_scope_frame gc_insert_with_scope_shard [OF assms]
      shard_insert_def Let_def update_conv)

lemma map_of_subset:
  assumes "distinct (map fst m)" and "distinct (map fst m')" and "set m' \<subseteq> set m"
  shows "map_of m' k = map_of m k \<or> map_of m' k = None"
proof (cases "map_of m' k")
  case (Some v)
  then have "(k, v) \<in> set m" using assms(3) map_of_SomeD by fastforce
  then show ?thesis using Some assms(1) by simp
qed simp

lemma gc_find_insert_other:
  assumes "cache_inv c" and "k' \<noteq> k"
  shows "gc_find (gc_insert_with_scope c k r a t d i s now) k' = gc_find c k' \<or>
    gc_find (gc_insert_with_scope c k r a t d i s now) k' = None"
proof -
  let ?m = "sh_map (gc_shards c ! shard_idx c k)"
  have "shard_ok c (shard_idx c k) (gc_shards c ! shard_idx c k)" and mx: "0 < gc_max_per_shard c"
    using assms(1) cache_inv_idx [OF assms(1)] by (auto simp: cache_inv_def)
  then have "distinct (map fst ?m)" "length ?m \<le> gc_max_per_shard c" by (simp_all add: shard_ok_def)
  note mr = make_room_spec [OF this mx, of now]
  have "map_of (make_room c now ?m) k' = map_of ?m k' \<or> map_of (make_room c now ?m) k' = None"
    using map_of_subset [OF \<open>distinct (map fst ?m)\<close> mr(2,1)] .
  then show ?thesis using assms(2)
    by (auto simp: gc_find_def gc_insert_with_scope_frame gc_insert_with_scope_shard [OF assms(1)]
        shard_insert_def make_room_def Let_def update_conv split: if_splits)
qed

section \<open>The interface of the store\<close>

text \<open>
  What the response cache relies on: a store in which an insertion is found under its key and every
  other key keeps its entry or loses it to eviction. So whatever is found was put there, by the last
  insertion under its key.
\<close>

locale evicting_store =
  fixes inv :: "'s \<Rightarrow> bool"
    and find :: "'s \<Rightarrow> 'k \<Rightarrow> 'v option"
    and put :: "'k \<times> 'a \<Rightarrow> 's \<Rightarrow> 's"
    and entry :: "'s \<Rightarrow> 'a \<Rightarrow> 'v"
  assumes inv_put: "inv s \<Longrightarrow> inv (put x s)"
    and find_put_same: "inv s \<Longrightarrow> find (put (k, a) s) k = Some (entry s a)"
    and find_put_other: "inv s \<Longrightarrow> k' \<noteq> k \<Longrightarrow>
      find (put (k, a) s) k' = find s k' \<or> find (put (k, a) s) k' = None"
begin

lemma inv_puts: "inv s \<Longrightarrow> inv (fold put xs s)"
  by (induction xs arbitrary: s) (auto simp: inv_put)

lemma find_puts:
  assumes "inv s" and "find (fold put xs s) k = Some v"
  shows "find s k = Some v \<and> k \<notin> fst ` set xs \<or>
    (\<exists>pre a post. xs = pre @ (k, a) # post \<and> k \<notin> fst ` set post \<and> v = entry (fold put pre s) a)"
  using assms(2)
proof (induction xs rule: rev_induct)
  case (snoc x xs)
  obtain k' a where x: "x = (k', a)" by (cases x)
  have i: "inv (fold put xs s)" by (rule inv_puts [OF assms(1)])
  show ?case
  proof (cases "k' = k")
    case True
    then have "v = entry (fold put xs s) a" using snoc.prems x find_put_same [OF i] by simp
    then show ?thesis using True x by (intro disjI2 exI [of _ xs] exI [of _ a] exI [of _ "[]"]) simp
  next
    case False
    then have "find (fold put xs s) k = Some v"
      using snoc.prems x find_put_other [OF i, of k k' a] by auto
    from snoc.IH [OF this] show ?thesis
    proof
      assume "find s k = Some v \<and> k \<notin> fst ` set xs"
      then show ?thesis using False x by auto
    next
      assume "\<exists>pre a post. xs = pre @ (k, a) # post \<and> k \<notin> fst ` set post \<and> v = entry (fold put pre s) a"
      then obtain pre b post where "xs = pre @ (k, b) # post" "k \<notin> fst ` set post" "v = entry (fold put pre s) b"
        by blast
      then show ?thesis using False x
        by (intro disjI2 exI [of _ pre] exI [of _ b] exI [of _ "post @ [x]"]) auto
    qed
  qed
qed simp

end

text \<open>The arguments of an insertion, and the store they act on.\<close>

type_synonym put_args = "u8 \<times> bytes \<times> duration \<times> bool \<times> int option \<times> u64 \<times> instant"

definition gc_put :: "x_key \<times> put_args \<Rightarrow> global_cache \<Rightarrow> global_cache" where
  "gc_put x c = (case x of (k, r, a, t, d, i, s, now) \<Rightarrow> gc_insert_with_scope c k r a t d i s now)"

definition gc_entry :: "global_cache \<Rightarrow> put_args \<Rightarrow> cache_entry" where
  "gc_entry c x = (case x of (r, a, t, d, i, s, now) \<Rightarrow> inserted_entry c r a t d i s now)"

interpretation cache_store: evicting_store cache_inv gc_find gc_put gc_entry
proof
  show "cache_inv (gc_put x c)" if "cache_inv c" for c x
    using cache_inv_insert [OF that] by (simp add: gc_put_def split: prod.splits)
  show "gc_find (gc_put (k, a) c) k = Some (gc_entry c a)" if "cache_inv c" for c k a
    using gc_find_insert_same [OF that] by (simp add: gc_put_def gc_entry_def split: prod.splits)
  show "gc_find (gc_put (k, a) c) k' = gc_find c k' \<or> gc_find (gc_put (k, a) c) k' = None"
    if "cache_inv c" and "k' \<noteq> k" for c k' k a
    using gc_find_insert_other [OF that] by (cases a) (simp add: gc_put_def)
qed

section \<open>Runs of the cache\<close>

text \<open>
  The operations as steps, with the table of running leaders beside the cache: \<open>(task, key)\<close> is a task
  that opened the flight of a key and waits for its \<open>fetch\<close>. A hash map may also reorder itself at any
  time.
\<close>

inductive cache_step :: "global_cache \<times> (nat \<times> x_key) list \<Rightarrow> global_cache \<times> (nat \<times> x_key) list \<Rightarrow> bool" where
  step_lookup: "cache_step (c, ls) (snd (gc_lookup c k now), ls)"
| step_insert: "cache_step (c, ls) (gc_insert_with_scope c k r a t d i s now, ls)"
| step_stale: "cache_step (c, ls) (gc_set_stale_window c w, ls)"
| step_flush: "cache_step (c, ls) (gc_flush c, ls)"
| step_reorder: "i < length (gc_shards c) \<Longrightarrow> mset m = mset (sh_map (gc_shards c ! i)) \<Longrightarrow>
    cache_step (c, ls) (c\<lparr>gc_shards := (gc_shards c)[i := (gc_shards c ! i)\<lparr>sh_map := m\<rparr>]\<rparr>, ls)"
| step_start: "get_or_fetch_start c task k now = (r, c') \<Longrightarrow>
    cache_step (c, ls) (c', if r = Leading then (task, k) # ls else ls)"
| step_finish: "(task, k) \<in> set ls \<Longrightarrow> get_or_fetch_finish c k result clock = (r, sent, c') \<Longrightarrow>
    cache_step (c, ls) (c', remove1 (task, k) ls)"

definition initial :: "global_cache \<Rightarrow> bool" where
  "initial c \<longleftrightarrow> (\<exists>bits n w. global_cache_new bits n w = Some c \<and> 0 < n)"

inductive cache_reachable :: "global_cache \<times> (nat \<times> x_key) list \<Rightarrow> bool" where
  reach_new: "initial c \<Longrightarrow> cache_reachable (c, [])"
| reach_step: "cache_reachable s \<Longrightarrow> cache_step s s' \<Longrightarrow> cache_reachable s'"

inductive_cases cache_step_cases: "cache_step (c, ls) s'"

text \<open>The running leaders and the open flights are the same keys, each once.\<close>

definition flights_inv :: "global_cache \<times> (nat \<times> x_key) list \<Rightarrow> bool" where
  "flights_inv s \<longleftrightarrow> distinct (map fst (gc_flights (fst s))) \<and> distinct (map snd (snd s)) \<and>
     snd ` set (snd s) = fst ` set (gc_flights (fst s))"

lemma cache_inv_stale: "cache_inv c \<Longrightarrow> cache_inv (gc_set_stale_window c w)"
proof -
  assume inv: "cache_inv c"
  let ?c = "gc_set_stale_window c w"
  have idx: "shard_idx ?c = shard_idx c" by (auto simp: gc_set_stale_window_def shard_idx_def)
  have mx: "gc_max_per_shard ?c = gc_max_per_shard c" "gc_shard_mask ?c = gc_shard_mask c"
    "length (gc_shards ?c) = length (gc_shards c)"
    by (simp_all add: gc_set_stale_window_def)
  have "shard_ok ?c i (gc_shards ?c ! i)" if "i < length (gc_shards c)" for i
  proof -
    have "shard_ok c i (gc_shards c ! i)" using inv that by (simp add: cache_inv_def)
    moreover have "gc_shards ?c ! i = (gc_shards c ! i)\<lparr>sh_map := map (\<lambda>(k, e). (k, e\<lparr>ce_stale_until := ce_expires_at e + w\<rparr>))
        (sh_map (gc_shards c ! i))\<rparr>" using that by (simp add: gc_set_stale_window_def)
    ultimately show ?thesis
      by (auto simp: shard_ok_def idx mx comp_def case_prod_unfold)
  qed
  then show ?thesis using inv by (simp add: cache_inv_def mx)
qed

lemma cache_inv_flush: "cache_inv c \<Longrightarrow> cache_inv (gc_flush c)"
  by (auto simp: cache_inv_def gc_flush_def shard_ok_def new_shard_def)

lemma cache_inv_reorder:
  assumes "cache_inv c" and "i < length (gc_shards c)" and "mset m = mset (sh_map (gc_shards c ! i))"
  shows "cache_inv (c\<lparr>gc_shards := (gc_shards c)[i := (gc_shards c ! i)\<lparr>sh_map := m\<rparr>]\<rparr>)"
proof -
  let ?c = "c\<lparr>gc_shards := (gc_shards c)[i := (gc_shards c ! i)\<lparr>sh_map := m\<rparr>]\<rparr>"
  have idx: "shard_idx ?c = shard_idx c" by (auto simp: shard_idx_def)
  have m: "set m = set (sh_map (gc_shards c ! i))" "length m = length (sh_map (gc_shards c ! i))"
    using assms(3) by (metis mset_eq_setD, metis mset_eq_length)
  have "mset (map fst m) = mset (map fst (sh_map (gc_shards c ! i)))" using assms(3) by (simp add: mset_map)
  then have "distinct (map fst m) = distinct (map fst (sh_map (gc_shards c ! i)))"
    by (rule mset_eq_imp_distinct_iff)
  then have "shard_ok ?c i ((gc_shards c ! i)\<lparr>sh_map := m\<rparr>)"
    using assms(1,2) m idx by (auto simp: cache_inv_def shard_ok_def)
  moreover have "shard_ok ?c j (gc_shards c ! j)" if "j < length (gc_shards c)" for j
    using assms(1) that idx by (auto simp: cache_inv_def shard_ok_def)
  ultimately show ?thesis using assms(1,2) by (auto simp: cache_inv_def nth_list_update)
qed

lemma get_or_fetch_start_frame:
  assumes "get_or_fetch_start c task k now = (r, c')"
  shows "gc_shards c' = gc_shards c" "gc_shard_mask c' = gc_shard_mask c" "gc_max_per_shard c' = gc_max_per_shard c"
  using assms gc_lookup_frame [of c k now]
  by (auto simp: get_or_fetch_start_def split: prod.splits lookup.splits option.splits)

lemma keys_update: "fst ` set (AList.update k v m) = insert k (fst ` set m)"
  using dom_update [of k v m] by (simp add: dom_map_of_conv_image_fst)

lemma get_or_fetch_start_flights:
  assumes "get_or_fetch_start c task k now = (r, c')"
  shows "if r = Leading then k \<notin> fst ` set (gc_flights c) \<and> gc_flights c' = (k, []) # gc_flights c
    else fst ` set (gc_flights c') = fst ` set (gc_flights c) \<and>
      (distinct (map fst (gc_flights c)) \<longrightarrow> distinct (map fst (gc_flights c')))"
proof -
  obtain l c1 where l: "gc_lookup c k now = (l, c1)" by (cases "gc_lookup c k now")
  then have f: "gc_flights c1 = gc_flights c" using gc_lookup_frame(4) [of c k now] by simp
  show ?thesis
  proof (cases l)
    case Miss
    show ?thesis
    proof (cases "map_of (gc_flights c) k")
      case None
      then have "k \<notin> fst ` set (gc_flights c)" by (simp add: map_of_eq_None_iff)
      then show ?thesis using assms l f Miss None by (auto simp: get_or_fetch_start_def)
    next
      case (Some fs)
      then have "k \<in> fst ` set (gc_flights c)" by (metis map_of_eq_None_iff option.distinct(1))
      moreover have "r = Following \<and> gc_flights c' = AList.update k (fs @ [task]) (gc_flights c)"
        using assms l f Miss Some by (auto simp: get_or_fetch_start_def)
      ultimately show ?thesis by (simp add: keys_update insert_absorb distinct_update)
    qed
  qed (use assms l f in \<open>auto simp: get_or_fetch_start_def\<close>)
qed

lemma get_or_fetch_finish_frame:
  assumes "get_or_fetch_finish c k result clock = (r, sent, c')"
  shows "gc_flights c' = AList.delete k (gc_flights c)" and "cache_inv c \<Longrightarrow> cache_inv c'"
proof -
  let ?c = "c\<lparr>gc_flights := AList.delete k (gc_flights c)\<rparr>"
  have inv: "cache_inv ?c = cache_inv c" by (rule cache_inv_cong) simp_all
  have "c' = ?c \<or> (\<exists>rc a t d now. c' = gc_insert ?c k rc a t d None now)"
  proof (cases result)
    case (Inl e)
    then show ?thesis using assms by (simp add: get_or_fetch_finish_def Let_def)
  next
    case (Inr x)
    obtain rc a t d where x: "x = (rc, a, t, d)" by (cases x)
    obtain t1 t2 t3 t4 where t: "clock = (t1, t2, t3, t4)" by (cases clock)
    have "c' = gc_insert ?c k rc a t d None t1"
      using assms unfolding get_or_fetch_finish_def Inr x t Let_def by simp
    then show ?thesis by blast
  qed
  then show "gc_flights c' = AList.delete k (gc_flights c)" "cache_inv c \<Longrightarrow> cache_inv c'"
    using inv cache_inv_insert [of ?c] by (auto simp: gc_insert_def gc_insert_with_scope_frame)
qed

lemma cache_step_inv:
  assumes "cache_step s s'" and "cache_inv (fst s)"
  shows "cache_inv (fst s')"
  using assms
proof (induction rule: cache_step.induct)
  case (step_lookup c ls k now)
  then show ?case using cache_inv_cong(1) [OF gc_lookup_frame(1-3) [of c k now]] by simp
next
  case (step_start c task k now r c' ls)
  then show ?case using cache_inv_cong(1) [OF get_or_fetch_start_frame [OF step_start.hyps]] by simp
next
  case (step_finish task k ls c result clock r sent c')
  then show ?case using get_or_fetch_finish_frame(2) [OF step_finish.hyps(2)] by simp
qed (simp_all add: cache_inv_insert cache_inv_stale cache_inv_flush cache_inv_reorder)

lemma cache_step_flights:
  assumes "cache_step s s'" and "flights_inv s"
  shows "flights_inv s'"
  using assms
proof (induction rule: cache_step.induct)
  case (step_start c task k now r c' ls)
  note f = get_or_fetch_start_flights [OF step_start.hyps]
  show ?case
  proof (cases "r = Leading")
    case True
    then show ?thesis using f step_start.prems by (auto simp: flights_inv_def)
  next
    case False
    then show ?thesis using f step_start.prems by (auto simp: flights_inv_def)
  qed
next
  case (step_finish task k ls c result clock r sent c')
  note f = get_or_fetch_finish_frame(1) [OF step_finish.hyps(2)]
  have d: "distinct (map snd ls)" "distinct (map fst (gc_flights c))" "snd ` set ls = fst ` set (gc_flights c)"
    using step_finish.prems by (simp_all add: flights_inv_def)
  then have "distinct ls" by (metis distinct_map)
  then have rm: "set (remove1 (task, k) ls) = set ls - {(task, k)}" by simp
  have "snd ` (set ls - {(task, k)}) = snd ` set ls - {k}"
    using d(1) step_finish.hyps(1) by (fastforce simp: distinct_map inj_on_def)
  moreover have "distinct (map snd (remove1 (task, k) ls))"
    using d(1) \<open>distinct ls\<close> rm by (auto simp: distinct_map distinct_remove1 inj_on_def)
  moreover have "fst ` set (AList.delete k (gc_flights c)) = fst ` set (gc_flights c) - {k}"
    by (auto simp: AList.delete_eq)
  moreover have "distinct (map fst (AList.delete k (gc_flights c)))"
    using d(2) by (rule distinct_delete)
  ultimately show ?case using d f rm by (simp add: flights_inv_def)
qed (simp_all add: flights_inv_def gc_lookup_frame gc_insert_with_scope_frame gc_set_stale_window_def gc_flush_def)

lemma cache_reachable_inv:
  assumes "cache_reachable s"
  shows "cache_inv (fst s) \<and> flights_inv s"
  using assms
proof (induction rule: cache_reachable.induct)
  case (reach_new c)
  then obtain bits n w where c: "global_cache_new bits n w = Some c" "0 < n" by (auto simp: initial_def)
  then have "gc_flights c = []" by (auto simp: global_cache_new_def Let_def split: if_splits)
  then show ?case using cache_inv_new [OF c] by (simp add: flights_inv_def)
next
  case (reach_step s s')
  then show ?case using cache_step_inv cache_step_flights by blast
qed

section \<open>Properties\<close>

lemma gc_find_mem:
  assumes "cache_inv c"
  shows "gc_find c k = Some e \<longleftrightarrow> (\<exists>s \<in> set (gc_shards c). (k, e) \<in> set (sh_map s))"
proof
  assume "gc_find c k = Some e"
  then show "\<exists>s \<in> set (gc_shards c). (k, e) \<in> set (sh_map s)"
    using cache_inv_idx [OF assms, of k] by (auto simp: gc_find_def dest: map_of_SomeD)
next
  assume "\<exists>s \<in> set (gc_shards c). (k, e) \<in> set (sh_map s)"
  then obtain i where i: "i < length (gc_shards c)" "(k, e) \<in> set (sh_map (gc_shards c ! i))"
    by (metis in_set_conv_nth)
  then have "shard_ok c i (gc_shards c ! i)" using assms by (simp add: cache_inv_def)
  then show "gc_find c k = Some e" using i by (auto simp: shard_ok_def gc_find_def)
qed

lemma gc_put_window: "gc_stale_window (gc_put x c) = gc_stale_window c"
  by (simp add: gc_put_def gc_insert_with_scope_frame split: prod.split)

lemma served_iff:
  "(\<not> is_dead now e \<and> gc_find c k = Some e) \<longleftrightarrow> fst (gc_lookup c k now) \<in> {Fresh e, Stale e}"
  by (auto simp: gc_lookup_eq is_dead_def split: option.splits)

text \<open>A cache with two shards of one entry each, and two keys of its only name.\<close>

definition ex_key :: x_key where
  "ex_key = \<lparr>xk_owner = [1, 97, 0], xk_qtype = 1, xk_qclass = 1, xk_checking_disabled = False, xk_route = 0\<rparr>"

definition ex_cache :: global_cache where
  "ex_cache = the (global_cache_new 1 1 5)"

lemma ex_cache_new: "global_cache_new 1 1 5 = Some ex_cache"
  by (simp add: ex_cache_def global_cache_new_def Let_def)

lemma ex_cache_reachable: "cache_reachable (ex_cache, [])"
  by (rule reach_new) (use ex_cache_new in \<open>auto simp: initial_def\<close>)

text \<open>
  C17: In every reachable state, under any interleaving of lookups, insertions, flushes, changes of the
  stale window and single flights, every key has a shard, no shard holds more than the configured maximum
  of entries, and a snapshot lists exactly the entries that a lookup would serve at that time.
\<close>

theorem cache_reachable_bounded:
  assumes "cache_reachable (c, leaders)"
  shows "shard_idx c k < length (gc_shards c) \<and> length (gc_shards c) \<le> 4096 \<and>
    (\<forall>s \<in> set (gc_shards c). length (sh_map s) \<le> gc_max_per_shard c) \<and>
    ((k, e) \<in> set (gc_snapshot c now) \<longleftrightarrow> fst (gc_lookup c k now) \<in> {Fresh e, Stale e})"
proof -
  have inv: "cache_inv c" using cache_reachable_inv [OF assms] by simp
  then obtain b where "b \<le> 12" "length (gc_shards c) = 2 ^ b" by (auto simp: cache_inv_def)
  then have "length (gc_shards c) \<le> 2 ^ 12" by (metis one_le_numeral power_increasing)
  moreover have "\<forall>s \<in> set (gc_shards c). length (sh_map s) \<le> gc_max_per_shard c"
    using inv by (auto simp: cache_inv_def shard_ok_def in_set_conv_nth)
  moreover have "(k, e) \<in> set (gc_snapshot c now) \<longleftrightarrow> \<not> is_dead now e \<and> gc_find c k = Some e"
    unfolding gc_find_mem [OF inv] by (auto simp: gc_snapshot_def is_dead_def)
  ultimately show ?thesis using cache_inv_idx [OF inv] served_iff by simp
qed

theorem cache_reachable_bounded_witness:
  "cache_reachable (ex_cache, []) \<and> shard_idx ex_cache ex_key < length (gc_shards ex_cache)"
  using ex_cache_reachable cache_reachable_bounded [OF ex_cache_reachable, of ex_key] by simp

text \<open>
  C18: Eviction removes exactly the budget, or everything if there is less. An entry that goes is dead, or
  every entry that stays is alive and was inserted no earlier: dead entries go before live ones and older
  entries before newer ones, whatever the iteration order of the hash map.
\<close>

theorem evict_dead_then_oldest:
  assumes "distinct (map fst m)"
  shows "length (evict_expired_or_oldest m now budget) = length m - budget \<and>
    set (evict_expired_or_oldest m now budget) \<subseteq> set m \<and>
    (\<forall>(k, e) \<in> set m - set (evict_expired_or_oldest m now budget).
       (\<not> is_fresh e now \<and> \<not> is_servable_stale e now) \<or>
       (\<forall>(k', e') \<in> set (evict_expired_or_oldest m now budget).
          (is_fresh e' now \<or> is_servable_stale e' now) \<and> ce_insert_gen e \<le> ce_insert_gen e'))"
  using evict_spec [OF assms, of now budget] by (simp add: is_dead_def)

definition ex_entry :: "nat \<Rightarrow> u64 \<Rightarrow> cache_entry" where
  "ex_entry t g = \<lparr>ce_rcode = 0, ce_answer = [], ce_inserted = 0, ce_expires_at = t, ce_stale_until = t,
                   ce_dnssec_secure = False, ce_source_ifindex = None, ce_source_scope = 0, ce_insert_gen = g\<rparr>"

theorem evict_dead_then_oldest_witness:
  "evict_expired_or_oldest
     [(ex_key, ex_entry 9 3), (ex_key\<lparr>xk_qtype := 2\<rparr>, ex_entry 9 2), (ex_key\<lparr>xk_qtype := 3\<rparr>, ex_entry 4 5)] 5 2 =
     [(ex_key, ex_entry 9 3)] \<and>
   length (evict_expired_or_oldest
     [(ex_key, ex_entry 9 3), (ex_key\<lparr>xk_qtype := 2\<rparr>, ex_entry 9 2), (ex_key\<lparr>xk_qtype := 3\<rparr>, ex_entry 4 5)] 5 2) = 1"
proof
  show "evict_expired_or_oldest
     [(ex_key, ex_entry 9 3), (ex_key\<lparr>xk_qtype := 2\<rparr>, ex_entry 9 2), (ex_key\<lparr>xk_qtype := 3\<rparr>, ex_entry 4 5)] 5 2 =
     [(ex_key, ex_entry 9 3)]"
    by (simp add: evict_expired_or_oldest_def ex_key_def ex_entry_def is_fresh_def is_servable_stale_def)
  show "length (evict_expired_or_oldest
     [(ex_key, ex_entry 9 3), (ex_key\<lparr>xk_qtype := 2\<rparr>, ex_entry 9 2), (ex_key\<lparr>xk_qtype := 3\<rparr>, ex_entry 4 5)] 5 2) = 1"
    using evict_dead_then_oldest [of "[(ex_key, ex_entry 9 3), (ex_key\<lparr>xk_qtype := 2\<rparr>, ex_entry 9 2), (ex_key\<lparr>xk_qtype := 3\<rparr>, ex_entry 4 5)]" 5 2]
    by (simp add: ex_key_def)
qed


lemma ex_lookup:
  "fst (gc_lookup (fold gc_put [(ex_key, 0, [7], 0, False, None, 0, 10)] ex_cache) ex_key 11) =
     Fresh (gc_entry ex_cache (0, [7], 0, False, None, 0, 10))"
proof -
  have inv: "cache_inv ex_cache" using cache_inv_new [OF ex_cache_new] by simp
  show ?thesis
    using cache_store.find_put_same [OF inv, of ex_key "(0, [7], 0, False, None, 0, 10)"]
    by (simp add: gc_lookup_eq gc_entry_def inserted_entry_def is_fresh_def clamp_ttl_def from_secs_def Let_def)
qed






text \<open>
  The size that \<open>len\<close> reports is not the number of entries: the counter of a shard counts the keys that
  came in, and eviction does not count them out.
\<close>

lemma gc_len_overcounts:
  "gc_len (fold gc_put [(ex_key, 0, [], 0, False, None, 0, 0), (ex_key\<lparr>xk_route := 1\<rparr>, 0, [], 0, False, None, 0, 0)] ex_cache) = 2 \<and>
   sum_list (map (\<lambda>s. length (sh_map s))
     (gc_shards (fold gc_put [(ex_key, 0, [], 0, False, None, 0, 0), (ex_key\<lparr>xk_route := 1\<rparr>, 0, [], 0, False, None, 0, 0)] ex_cache))) = 1"
proof -
  obtain i where i: "i = shard_idx ex_cache ex_key" by simp
  have idx: "shard_idx c ex_key = i" "shard_idx c (ex_key\<lparr>xk_route := 1\<rparr>) = i" if "gc_shard_mask c = 1" for c
    using that by (simp_all add: i shard_idx_def ex_cache_def global_cache_new_def Let_def)
  have c: "gc_shards ex_cache = [new_shard, new_shard]" "gc_shard_mask ex_cache = 1" "gc_max_per_shard ex_cache = 1"
    by (simp_all add: ex_cache_def global_cache_new_def Let_def numeral_2_eq_2)
  have "cache_inv ex_cache" using cache_inv_new [OF ex_cache_new] by simp
  then have "i = 0 \<or> i = 1" using cache_inv_idx [of ex_cache ex_key] by (auto simp: i c)
  then show ?thesis
    by (auto simp: gc_len_def gc_put_def gc_insert_with_scope_def shard_insert_def evict_expired_or_oldest_def
        new_shard_def is_fresh_def is_servable_stale_def clamp_ttl_def from_secs_def idx c Let_def)
qed

lemma ascii_lower_length_octet: "63 < unat (ascii_lower b) \<longleftrightarrow> 63 < unat b"
proof (cases "65 \<le> unat b \<and> unat b \<le> 90")
  case True
  then have "unat (b + 32) = unat b + 32" by (simp add: unat_word_ariths)
  then show ?thesis using True by (simp add: ascii_lower_nat)
next
  case False
  then show ?thesis by (simp only: ascii_lower_nat) simp
qed

lemma fold_byte_lower: "fold fold_byte (map ascii_lower bs) h = fold fold_byte bs h"
  by (induction bs arbitrary: h) (simp_all add: fold_byte_def)

lemma name_hash_loop_lower: "name_hash_loop (map ascii_lower w) h = name_hash_loop w h"
proof (induction w h rule: name_hash_loop.induct)
  case (2 len rest h)
  show ?case
  proof (cases "63 < unat len")
    case True
    then have "len \<noteq> 0" "ascii_lower len \<noteq> 0" using ascii_lower_length_octet [of len] by (auto simp del: unat_eq_zero)
    then show ?thesis using True ascii_lower_length_octet [of len] by (simp add: name_hash_loop.simps(2))
  next
    case False
    then have l: "ascii_lower len = len" using ascii_lower_small by simp
    show ?thesis
      using 2 False by (simp add: name_hash_loop.simps(2) l take_map drop_map fold_byte_lower Let_def)
  qed
qed simp

text \<open>
  Names that differ in the case of their letters only, the resolver's notion of the same name, have
  the same hash and so the same shard.
\<close>

theorem dns_name_hash_case_insensitive:
  assumes "map ascii_lower v = map ascii_lower w"
  shows "dns_name_hash v = dns_name_hash w"
proof -
  have "name_hash_loop v h = name_hash_loop w h" for h
    using name_hash_loop_lower [of v h] name_hash_loop_lower [of w h] assms by simp
  then show ?thesis by (simp add: dns_name_hash_def)
qed

theorem dns_name_hash_case_insensitive_witness: "dns_name_hash [1, 65, 0] = dns_name_hash [1, 97, 0]"
  by (rule dns_name_hash_case_insensitive) (simp add: ascii_lower_def)

text \<open>
  \<open>owner_to_wire_lower\<close> bounds the labels by 255 octets without the root label, so it returns names of
  256 octets, one more than a name on the wire can have.
\<close>

lemma owner_to_wire_lower_overlong:
  "\<exists>w. owner_to_wire_lower [replicate 63 97, replicate 63 97, replicate 63 97, replicate 62 97] = Inr w \<and> length w = 256"
  by (simp add: owner_to_wire_lower_def)

end
