(* ===== verification/Response_Cache.thy ===== *)
theory Response_Cache
  imports Wire_Packet Cache_X
begin

text \<open>
  The response cache (\<open>src/src/cache.rs\<close>): whole DNS responses kept in the sharded cache under their
  question, checking flag and route. An insertion decides whether a response may be kept and for how long;
  a lookup returns it under the identity of the asking query with its TTLs aged. The clock readings are
  arguments. The properties: which responses are kept, that a lookup returns the last response kept under
  its key, aged, within its lifetime, that a response just kept is served, and that the routing scope of an
  entry survives its encoding.
\<close>

section \<open>Scopes\<close>

text \<open>An interface index is an \<open>i32\<close>, kept as an \<open>int\<close>; a delegate index is a \<open>usize\<close>.\<close>

datatype cache_scope = CacheGlobal | CacheFallback | CacheLink int | CacheDelegate nat

definition LINK_TAG :: u64 where "LINK_TAG = 0x8000000000000000"
definition DELEGATE_TAG :: u64 where "DELEGATE_TAG = 0x4000000000000000"

definition I32_MAX :: int where "I32_MAX = 2147483647"
definition i32_ok :: "int \<Rightarrow> bool" where "i32_ok i \<longleftrightarrow> - I32_MAX - 1 \<le> i \<and> i \<le> I32_MAX"

fun scope_encode :: "cache_scope \<Rightarrow> u64" where
  "scope_encode CacheGlobal = 0"
| "scope_encode CacheFallback = 1"
| "scope_encode (CacheLink ifindex) = LINK_TAG OR of_nat (nat \<bar>ifindex\<bar>)"
| "scope_encode (CacheDelegate index) = DELEGATE_TAG OR min (of_nat index) (DELEGATE_TAG - 1)"

definition scope_decode :: "u64 \<Rightarrow> cache_scope" where
  "scope_decode v =
     (if v AND LINK_TAG \<noteq> 0 then
        (let n = int (unat (v AND NOT LINK_TAG)) in CacheLink (if n \<le> I32_MAX then n else I32_MAX))
      else if v AND DELEGATE_TAG \<noteq> 0 then CacheDelegate (unat (v AND NOT DELEGATE_TAG))
      else if v = 1 then CacheFallback
      else CacheGlobal)"

section \<open>The cache\<close>

record cache_key =
  ck_name :: bytes
  ck_rr_type :: u16
  ck_class :: u16
  ck_checking_disabled :: bool
  ck_route :: u64

record cache_snapshot =
  sn_name :: bytes
  sn_rr_type :: u16
  sn_class :: u16
  sn_rcode :: u8
  sn_response :: bytes
  sn_remaining :: duration
  sn_scope :: cache_scope

record cache =
  c_global :: global_cache
  c_capacity :: nat
  c_maximum_ttl :: duration
  c_store_negative :: bool

definition cache_new :: "nat \<Rightarrow> duration \<Rightarrow> duration \<Rightarrow> bool \<Rightarrow> cache option" where
  "cache_new capacity maximum_ttl stale_retention store_negative =
     map_option (\<lambda>g. \<lparr>c_global = g, c_capacity = capacity, c_maximum_ttl = maximum_ttl,
                      c_store_negative = store_negative\<rparr>)
       (global_cache_new 4 (max (capacity div 16) 1) stale_retention)"

definition to_xkey :: "cache_key \<Rightarrow> x_key" where
  "to_xkey key = \<lparr>xk_owner = ck_name key, xk_qtype = ck_rr_type key, xk_qclass = ck_class key,
                  xk_checking_disabled = ck_checking_disabled key, xk_route = ck_route key\<rparr>"

definition cache_get_scoped ::
  "cache \<Rightarrow> cache_key \<Rightarrow> u16 \<Rightarrow> bool \<Rightarrow> instant \<Rightarrow> (bytes \<times> int option) option \<times> cache" where
  "cache_get_scoped c key qid allow_stale now =
     (case gc_lookup (c_global c) (to_xkey key) now of (found, g) \<Rightarrow>
        let c = c\<lparr>c_global := g\<rparr>;
            chosen = (case found of Fresh e \<Rightarrow> Some e | Stale e \<Rightarrow> if allow_stale then Some e else None
                      | Miss \<Rightarrow> None)
        in case chosen of
             None \<Rightarrow> (None, c)
           | Some e \<Rightarrow>
               let is_stale = (now \<ge> ce_expires_at e);
                   elapsed = (now - ce_inserted e) div 1000000000;
                   elapsed = (if elapsed < 2 ^ 32 then of_nat elapsed else - 1 :: u32)
               in (case and_then (rewrite_id (ce_answer e) qid) (\<lambda>packet. age_ttls packet elapsed is_stale) of
                     Inl _ \<Rightarrow> (None, c)
                   | Inr packet \<Rightarrow> (Some (packet, ce_source_ifindex e), c)))"

definition cache_get :: "cache \<Rightarrow> cache_key \<Rightarrow> u16 \<Rightarrow> bool \<Rightarrow> instant \<Rightarrow> bytes option \<times> cache" where
  "cache_get c key qid allow_stale now =
     map_prod (map_option fst) id (cache_get_scoped c key qid allow_stale now)"

definition cache_insert_scoped ::
  "cache \<Rightarrow> cache_key \<Rightarrow> bytes \<Rightarrow> int option \<Rightarrow> cache_scope \<Rightarrow> instant \<Rightarrow> (wire_error + bool) \<times> cache" where
  "cache_insert_scoped c key response source_ifindex source_scope now =
     (case header_parse response of
        Inl e \<Rightarrow> (Inl e, c)
      | Inr header \<Rightarrow>
          if \<not> is_response header \<or> truncated header then (Inr False, c)
          else
            let rcode = response_code header;
                negative = (rcode \<noteq> 0 \<or> h_answer_count header = 0)
            in if negative \<and> \<not> c_store_negative c then (Inr False, c)
               else if rcode \<noteq> 0 \<and> rcode \<noteq> 3 then (Inr False, c)
               else
                 (case cache_lifetime response of
                    Inl e \<Rightarrow> (Inl e, c)
                  | Inr None \<Rightarrow> (Inr False, c)
                  | Inr (Some ttl_seconds) \<Rightarrow>
                      let ttl = min (from_secs (unat ttl_seconds)) (c_maximum_ttl c)
                      in if ttl = 0 \<or> c_capacity c = 0 then (Inr False, c)
                         else
                           (case rewrite_id response 0 of
                              Inl e \<Rightarrow> (Inl e, c)
                            | Inr packet \<Rightarrow>
                                (Inr True,
                                 c\<lparr>c_global := gc_insert_with_scope (c_global c) (to_xkey key) (ucast rcode) packet ttl
                                                 False source_ifindex (scope_encode source_scope) now\<rparr>))))"

definition cache_insert :: "cache \<Rightarrow> cache_key \<Rightarrow> bytes \<Rightarrow> instant \<Rightarrow> (wire_error + bool) \<times> cache" where
  "cache_insert c key response now = cache_insert_scoped c key response None CacheGlobal now"

definition cache_flush :: "cache \<Rightarrow> cache" where
  "cache_flush c = c\<lparr>c_global := gc_flush (c_global c)\<rparr>"

definition cache_set_stale_retention :: "cache \<Rightarrow> duration \<Rightarrow> cache" where
  "cache_set_stale_retention c stale_retention = c\<lparr>c_global := gc_set_stale_window (c_global c) stale_retention\<rparr>"

definition cache_len :: "cache \<Rightarrow> nat" where
  "cache_len c = gc_len (c_global c)"

definition cache_is_empty :: "cache \<Rightarrow> bool" where
  "cache_is_empty c \<longleftrightarrow> cache_len c = 0"

definition cache_snapshot_of :: "cache \<Rightarrow> instant \<Rightarrow> cache_snapshot list" where
  "cache_snapshot_of c now =
     map (\<lambda>(key, entry). \<lparr>sn_name = xk_owner key, sn_rr_type = xk_qtype key, sn_class = xk_qclass key,
            sn_rcode = ce_rcode entry, sn_response = ce_answer entry, sn_remaining = ce_expires_at entry - now,
            sn_scope = scope_decode (ce_source_scope entry)\<rparr>)
       (gc_snapshot (c_global c) now)"

section \<open>Lemmas: the scope encoding\<close>

text \<open>A tag bit above the payload.\<close>

lemma word_bit_less: "unat v < 2 ^ k \<Longrightarrow> bit v n \<Longrightarrow> n < k" for v :: "'a::len word"
  by (metis bit_take_bit_iff take_bit_nat_eq_self unsigned_take_bit_eq word_eq_iff_unsigned)

lemma tag_payload:
  fixes v :: "'a::len word"
  assumes "unat v < 2 ^ k" and "k < LENGTH('a)"
  shows "v AND push_bit k 1 = 0" and "(push_bit k 1 OR v) AND NOT (push_bit k 1) = v"
    and "(push_bit k 1 OR v) AND push_bit k 1 \<noteq> 0" and "k < j \<Longrightarrow> (push_bit k 1 OR v) AND push_bit j 1 = 0"
proof -
  note less = word_bit_less [OF assms(1)]
  show "v AND push_bit k 1 = 0"
    by (rule bit_word_eqI) (auto simp: bit_simps dest: less)
  show "(push_bit k 1 OR v) AND NOT (push_bit k 1) = v"
    by (rule bit_word_eqI) (auto simp: bit_simps dest: less)
  have "bit ((push_bit k 1 OR v) AND push_bit k 1) k" using assms(2) by (auto simp: bit_simps)
  then show "(push_bit k 1 OR v) AND push_bit k 1 \<noteq> 0" by (metis bit_0_eq bot_apply bot_bool_def)
  show "(push_bit k 1 OR v) AND push_bit j 1 = 0" if "k < j"
    using that by (intro bit_word_eqI) (auto simp: bit_simps dest: less)
qed

lemma scope_tags: "LINK_TAG = push_bit 63 1" "DELEGATE_TAG = push_bit 62 1"
  by (simp_all add: LINK_TAG_def DELEGATE_TAG_def)

text \<open>The scopes the encoding keeps: an index that is not negative, and a delegate index below \<open>2 ^ 62\<close>.\<close>

fun scope_representable :: "cache_scope \<Rightarrow> bool" where
  "scope_representable (CacheLink i) \<longleftrightarrow> 0 \<le> i \<and> i \<le> I32_MAX"
| "scope_representable (CacheDelegate n) \<longleftrightarrow> n < 2 ^ 62"
| "scope_representable _ \<longleftrightarrow> True"

lemma decode_encode:
  assumes "scope_representable s"
  shows "scope_decode (scope_encode s) = s"
proof (cases s)
  case (CacheLink i)
  then obtain m where m: "i = int m" "m < 2 ^ 31"
    using assms by (intro that [of "nat i"]) (simp_all add: I32_MAX_def nat_less_iff)
  have n: "unat (of_nat m :: u64) = m" using m(2) by (simp add: unat_of_nat)
  then have "unat (of_nat m :: u64) < 2 ^ 63" using m(2) by simp
  note t = tag_payload [OF this]
  show ?thesis using t n m CacheLink by (simp add: scope_decode_def scope_tags I32_MAX_def del: push_bit_of_1)
next
  case (CacheDelegate k)
  have n: "unat (of_nat k :: u64) = k" using assms CacheDelegate by (simp add: unat_of_nat)
  then have "unat (of_nat k :: u64) < 2 ^ 62" using assms CacheDelegate by simp
  note t = tag_payload [OF this]
  have m: "min (of_nat k) (DELEGATE_TAG - 1) = (of_nat k :: u64)"
    using assms CacheDelegate n by (simp add: min_def word_le_nat_alt DELEGATE_TAG_def)
  show ?thesis using t n m CacheDelegate by (simp add: scope_decode_def scope_tags del: push_bit_of_1)
qed (simp_all add: scope_decode_def LINK_TAG_def DELEGATE_TAG_def)

section \<open>Lemmas: what is kept\<close>

text \<open>The lifetime of a response the cache keeps, and its packet.\<close>

definition kept :: "cache \<Rightarrow> bytes \<Rightarrow> u8 \<Rightarrow> bytes \<Rightarrow> duration \<Rightarrow> bool" where
  "kept c response rcode packet ttl \<longleftrightarrow>
     (\<exists>h t. header_parse response = Inr h \<and> is_response h \<and> \<not> truncated h \<and>
        (response_code h = 0 \<or> response_code h = 3) \<and>
        (response_code h = 0 \<and> h_answer_count h \<noteq> 0 \<or> c_store_negative c) \<and>
        cache_lifetime response = Inr (Some t) \<and> rcode = ucast (response_code h) \<and>
        ttl = min (from_secs (unat t)) (c_maximum_ttl c) \<and> 0 < ttl \<and> 0 < c_capacity c \<and>
        rewrite_id response 0 = Inr packet)"

lemma rewrite_id_eq:
  assumes "12 \<le> length p"
  shows "rewrite_id p v = Inr (u16_to_be v @ drop 2 p)"
  using assms by (simp add: rewrite_id_def write_u16_def checked_end_def usize_checked_add_def result_simps slice_simps
      overwrite_def u16_to_be_def USIZE_MAX_def numeral_2_eq_2)

lemma kept_total:
  assumes "header_parse response = Inr h"
  shows "rewrite_id response v = Inr (u16_to_be v @ drop 2 response)"
  using assms by (simp add: rewrite_id_eq header_parse_eq_Inr)

lemma cache_insert_scoped_cases:
  obtains (stored) rcode packet ttl where "kept c response rcode packet ttl"
      "cache_insert_scoped c key response i s now =
         (Inr True, c\<lparr>c_global := gc_insert_with_scope (c_global c) (to_xkey key) rcode packet ttl False i (scope_encode s) now\<rparr>)"
  | (rejected) r where "r \<noteq> Inr True" "\<forall>rcode packet ttl. \<not> kept c response rcode packet ttl"
      "cache_insert_scoped c key response i s now = (r, c)"
proof (cases "\<exists>rcode packet ttl. kept c response rcode packet ttl")
  case True
  then obtain rcode packet ttl where k: "kept c response rcode packet ttl" by blast
  then have "cache_insert_scoped c key response i s now =
         (Inr True, c\<lparr>c_global := gc_insert_with_scope (c_global c) (to_xkey key) rcode packet ttl False i (scope_encode s) now\<rparr>)"
    by (auto simp: kept_def cache_insert_scoped_def Let_def)
  with k show ?thesis by (rule stored)
next
  case False
  have "snd (cache_insert_scoped c key response i s now) = c \<and> fst (cache_insert_scoped c key response i s now) \<noteq> Inr True"
  proof (rule ccontr)
    assume a: "\<not> ?thesis"
    then obtain h where h: "header_parse response = Inr h"
      by (cases "header_parse response") (auto simp: cache_insert_scoped_def)
    from a h obtain t where "cache_lifetime response = Inr (Some t)"
      by (auto simp: cache_insert_scoped_def Let_def split: if_splits sum.splits option.splits)
    then have "kept c response (ucast (response_code h)) (u16_to_be 0 @ drop 2 response) (min (from_secs (unat t)) (c_maximum_ttl c))"
      using a h kept_total [OF h, of 0] by (auto simp: cache_insert_scoped_def Let_def kept_def split: if_splits)
    then show False using False by blast
  qed
  then show ?thesis using False by (intro rejected) (auto simp: prod_eq_iff)
qed

section \<open>Lemmas: runs of insertions\<close>

type_synonym insert_args = "cache_key \<times> bytes \<times> int option \<times> cache_scope \<times> instant"

definition insert_step :: "insert_args \<Rightarrow> cache \<Rightarrow> cache" where
  "insert_step x c = (case x of (key, response, i, s, now) \<Rightarrow> snd (cache_insert_scoped c key response i s now))"

definition same_config :: "cache \<Rightarrow> cache \<Rightarrow> bool" where
  "same_config c c' \<longleftrightarrow> c_capacity c' = c_capacity c \<and> c_maximum_ttl c' = c_maximum_ttl c \<and> c_store_negative c' = c_store_negative c"

lemma kept_same_config: "same_config c c' \<Longrightarrow> kept c' = kept c"
  by (auto simp: same_config_def kept_def fun_eq_iff)

text \<open>The entry a stored response gives, found under its own key.\<close>

definition entry_of :: "duration \<Rightarrow> insert_args \<Rightarrow> u8 \<Rightarrow> bytes \<Rightarrow> duration \<Rightarrow> cache_entry \<Rightarrow> bool" where
  "entry_of w x rcode packet ttl e = (case x of (key, response, i, s, t0) \<Rightarrow>
     ce_rcode e = rcode \<and> ce_answer e = packet \<and> ce_source_ifindex e = i \<and> ce_source_scope e = scope_encode s \<and>
     ce_inserted e = t0 \<and> ce_expires_at e = t0 + clamp_ttl ttl rcode \<and> ce_stale_until e = t0 + clamp_ttl ttl rcode + w)"

lemma to_xkey_inject [simp]: "to_xkey k = to_xkey k' \<longleftrightarrow> k = k'"
  by (auto simp: to_xkey_def cache_key.equality)

lemma insert_step_inv:
  assumes "cache_inv (c_global c)"
  shows "cache_inv (c_global (insert_step x c)) \<and> same_config c (insert_step x c) \<and>
    gc_stale_window (c_global (insert_step x c)) = gc_stale_window (c_global c)"
proof -
  obtain key response i s now where x: "x = (key, response, i, s, now)" by (cases x)
  show ?thesis
    by (cases rule: cache_insert_scoped_cases [of c response key i s now])
      (use assms in \<open>auto simp: insert_step_def x same_config_def cache_inv_insert gc_insert_with_scope_frame\<close>)
qed

lemma insert_step_find:
  assumes "cache_inv (c_global c)" and "gc_find (c_global (insert_step (key, response, i, s, now) c)) (to_xkey k) = Some e"
  shows "gc_find (c_global c) (to_xkey k) = Some e \<and> (k \<noteq> key \<or> (\<forall>rcode packet ttl. \<not> kept c response rcode packet ttl)) \<or>
    k = key \<and> (\<exists>rcode packet ttl. kept c response rcode packet ttl \<and>
      entry_of (gc_stale_window (c_global c)) (key, response, i, s, now) rcode packet ttl e)"
proof (cases rule: cache_insert_scoped_cases [of c response key i s now])
  case (stored rcode packet ttl)
  show ?thesis
  proof (cases "k = key")
    case True
    then show ?thesis using assms stored gc_find_insert_same [OF assms(1)]
      by (auto simp: insert_step_def entry_of_def inserted_entry_def)
  next
    case False
    then show ?thesis
      using assms stored gc_find_insert_other [OF assms(1), of "to_xkey k" "to_xkey key" rcode packet ttl False i "scope_encode s" now]
      by (auto simp: insert_step_def)
  qed
next
  case (rejected r)
  then show ?thesis using assms(2) by (auto simp: insert_step_def)
qed

lemma fold_insert_inv:
  assumes "cache_inv (c_global c)"
  shows "cache_inv (c_global (fold insert_step xs c)) \<and> same_config c (fold insert_step xs c) \<and>
    gc_stale_window (c_global (fold insert_step xs c)) = gc_stale_window (c_global c)"
proof (induction xs rule: rev_induct)
  case Nil
  then show ?case using assms by (simp add: same_config_def)
next
  case (snoc x xs)
  then show ?case using insert_step_inv [of "fold insert_step xs c" x] by (simp add: same_config_def)
qed

text \<open>The last insertion under a key that was kept, in a run of insertions.\<close>

definition last_kept :: "cache \<Rightarrow> cache_key \<Rightarrow> insert_args list \<Rightarrow> insert_args \<Rightarrow> u8 \<Rightarrow> bytes \<Rightarrow> duration \<Rightarrow> bool" where
  "last_kept c k xs x rcode packet ttl \<longleftrightarrow>
     (\<exists>pre post. xs = pre @ x # post \<and> fst x = k \<and> kept c (fst (snd x)) rcode packet ttl \<and>
        (\<forall>y \<in> set post. fst y = k \<longrightarrow> (\<forall>rcode packet ttl. \<not> kept c (fst (snd y)) rcode packet ttl)))"

lemma last_kept_here: "kept c (fst (snd x)) rcode packet ttl \<Longrightarrow> last_kept c (fst x) (xs @ [x]) x rcode packet ttl"
  unfolding last_kept_def by (rule exI [of _ xs], rule exI [of _ "[]"]) simp

lemma last_kept_snoc:
  assumes "last_kept c k xs x rcode packet ttl" and "fst y \<noteq> k \<or> (\<forall>rcode packet ttl. \<not> kept c (fst (snd y)) rcode packet ttl)"
  shows "last_kept c k (xs @ [y]) x rcode packet ttl"
proof -
  obtain pre post where p: "xs = pre @ x # post" "fst x = k" "kept c (fst (snd x)) rcode packet ttl"
    "\<forall>y \<in> set post. fst y = k \<longrightarrow> (\<forall>rcode packet ttl. \<not> kept c (fst (snd y)) rcode packet ttl)"
    using assms(1) unfolding last_kept_def by blast
  then show ?thesis unfolding last_kept_def
    by (intro exI [of _ pre] exI [of _ "post @ [y]"]) (use assms(2) in auto)
qed

lemma find_last_kept:
  assumes "cache_inv (c_global c)" and "gc_find (c_global c) (to_xkey k) = None"
    and "gc_find (c_global (fold insert_step xs c)) (to_xkey k) = Some e"
  shows "\<exists>x rcode packet ttl. last_kept c k xs x rcode packet ttl \<and>
    entry_of (gc_stale_window (c_global c)) x rcode packet ttl e"
  using assms(3)
proof (induction xs rule: rev_induct)
  case Nil
  then show ?case using assms(2) by simp
next
  case (snoc x xs)
  obtain key response i s now where x: "x = (key, response, i, s, now)" by (cases x)
  let ?c = "fold insert_step xs c"
  note inv = fold_insert_inv [OF assms(1), of xs]
  have keq: "kept ?c = kept c" using inv kept_same_config by blast
  have w: "gc_stale_window (c_global ?c) = gc_stale_window (c_global c)" using inv by blast
  have "gc_find (c_global (insert_step (key, response, i, s, now) ?c)) (to_xkey k) = Some e"
    using snoc.prems x by simp
  from insert_step_find [OF conjunct1 [OF inv] this, unfolded keq w]
  consider (old) "gc_find (c_global ?c) (to_xkey k) = Some e" "k \<noteq> key \<or> (\<forall>rcode packet ttl. \<not> kept c response rcode packet ttl)"
    | (new) rcode packet ttl where "k = key" "kept c response rcode packet ttl"
        "entry_of (gc_stale_window (c_global c)) (key, response, i, s, now) rcode packet ttl e"
    by blast
  then show ?case
  proof cases
    case old
    have "fst x \<noteq> k \<or> (\<forall>rcode packet ttl. \<not> kept c (fst (snd x)) rcode packet ttl)" using old(2) x by auto
    with snoc.IH [OF old(1)] last_kept_snoc show ?thesis by blast
  next
    case new
    then have "last_kept c k (xs @ [x]) x rcode packet ttl" using last_kept_here [of c x] x by simp
    then show ?thesis using new(3) x by blast
  qed
qed

text \<open>The age of an entry in seconds, as the code computes it.\<close>

lemma elapsed_secs:
  "unat (if n < 2 ^ 32 then of_nat n else - 1 :: u32) = min n (2 ^ 32 - 1)"
  by (simp add: unat_of_nat min_def unsigned_minus_1_eq_mask mask_eq_exp_minus_1)

lemma rewrite_id_again:
  assumes "kept c response rcode packet ttl"
  shows "rewrite_id packet v = rewrite_id response v"
proof -
  obtain h where h: "header_parse response = Inr h" "rewrite_id response 0 = Inr packet"
    using assms by (auto simp: kept_def)
  then have p: "packet = u16_to_be 0 @ drop 2 response" using kept_total [OF h(1), of 0] by simp
  have "12 \<le> length response" using h(1) by (simp add: header_parse_eq_Inr)
  then show ?thesis using rewrite_id_eq [of packet v] rewrite_id_eq [of response v]
    by (simp add: p u16_to_be_def)
qed

lemma cache_new_inv:
  assumes "cache_new capacity maximum_ttl stale store_negative = Some c"
  shows "cache_inv (c_global c)" and "gc_find (c_global c) k = None" and "gc_stale_window (c_global c) = stale"
    and "c_maximum_ttl c = maximum_ttl" and "c_capacity c = capacity" and "c_store_negative c = store_negative"
proof -
  obtain g where new: "global_cache_new 4 (max (capacity div 16) 1) stale = Some g"
    and c: "c = \<lparr>c_global = g, c_capacity = capacity, c_maximum_ttl = maximum_ttl, c_store_negative = store_negative\<rparr>"
    using assms by (auto simp: cache_new_def)
  show inv: "cache_inv (c_global c)" using cache_inv_new [OF new] by (simp add: c)
  show "gc_find (c_global c) k = None"
  proof -
    have "gc_shards (c_global c) = replicate (2 ^ 4) new_shard" using new by (auto simp: c global_cache_new_def Let_def)
    then show ?thesis using cache_inv_idx [OF inv, of k] by (simp add: gc_find_def new_shard_def)
  qed
  show "gc_stale_window (c_global c) = stale" using new by (auto simp: c global_cache_new_def Let_def)
  show "c_maximum_ttl c = maximum_ttl" "c_capacity c = capacity" "c_store_negative c = store_negative"
    by (simp_all add: c)
qed

lemma cache_get_scoped_SomeD:
  assumes "fst (cache_get_scoped c key qid allow_stale now) = Some (packet, ifindex)"
  obtains e where "gc_find (c_global c) (to_xkey key) = Some e" "now < ce_expires_at e \<or> allow_stale \<and> now < ce_stale_until e"
    "ifindex = ce_source_ifindex e"
    "and_then (rewrite_id (ce_answer e) qid)
       (\<lambda>p. age_ttls p (if (now - ce_inserted e) div 1000000000 < 2 ^ 32 then of_nat ((now - ce_inserted e) div 1000000000) else - 1)
              (ce_expires_at e \<le> now)) = Inr packet"
proof -
  obtain l g where l: "gc_lookup (c_global c) (to_xkey key) now = (l, g)" by fastforce
  then have l': "l = fst (gc_lookup (c_global c) (to_xkey key) now)" by simp
  obtain e where e: "l = Fresh e \<or> l = Stale e \<and> allow_stale"
    using assms l by (cases l) (auto simp: cache_get_scoped_def split: if_splits)
  then have f: "gc_find (c_global c) (to_xkey key) = Some e" "now < ce_expires_at e \<or> allow_stale \<and> now < ce_stale_until e"
    by (auto simp: l' gc_lookup_eq is_fresh_def is_servable_stale_def split: option.splits if_splits)
  show ?thesis
    by (rule that [OF f]) (use assms l e in \<open>auto simp: cache_get_scoped_def Let_def split: sum.splits\<close>)
qed

lemma age_ttls_total:
  assumes "parse_sections p = Inr x"
  shows "\<exists>p'. age_ttls p el st = Inr p'"
proof -
  obtain h qs rs e where x: "parse_sections p = Inr (h, qs, rs, e)" using assms by (cases x) auto
  let ?ts = "map (\<lambda>r. (rr_ttl_offset r, rr_ttl r, rr_rr_type r)) rs"
  have "\<forall>(a, _, _) \<in> set ?ts. a + 4 \<le> length p \<and> a + 4 \<le> USIZE_MAX"
    using ttl_fields_ordered(2) [OF x] by auto
  from age_ttls_loop_spec [OF ttl_fields_ordered(1) [OF x] this, of el st] x
  show ?thesis by (auto simp: age_ttls_def)
qed

lemma cache_get_fresh:
  assumes "gc_find (c_global c) (to_xkey key) = Some e" and "now < ce_expires_at e"
    and "rewrite_id (ce_answer e) qid = Inr p"
    and "age_ttls p (if (now - ce_inserted e) div 1000000000 < 2 ^ 32 then of_nat ((now - ce_inserted e) div 1000000000) else - 1)
           False = Inr packet"
  shows "fst (cache_get_scoped c key qid allow_stale now) = Some (packet, ce_source_ifindex e)"
proof -
  have "fst (gc_lookup (c_global c) (to_xkey key) now) = Fresh e"
    using assms(1,2) by (simp add: gc_lookup_eq is_fresh_def)
  then obtain g where l: "gc_lookup (c_global c) (to_xkey key) now = (Fresh e, g)" by (metis prod.collapse)
  show ?thesis using l assms(2-4) by (simp add: cache_get_scoped_def Let_def result_simps)
qed

section \<open>Properties\<close>


definition ex_ck :: cache_key where
  "ex_ck = \<lparr>ck_name = [1, 97, 0], ck_rr_type = 1, ck_class = 1, ck_checking_disabled = False, ck_route = 0\<rparr>"

definition ex_rcache :: cache where
  "ex_rcache = the (cache_new 32 (from_secs 100) 0 False)"

lemma ex_rcache_new: "cache_new 32 (from_secs 100) 0 False = Some ex_rcache"
  by (simp add: ex_rcache_def cache_new_def global_cache_new_def Let_def)

lemmas ex_rcache_config = cache_new_inv [OF ex_rcache_new]

lemma ex_response_header:
  "header_parse ex_response = Inr \<lparr>h_id = 7, h_flags = 0x8180, h_question_count = 1, h_answer_count = 1,
     h_authority_count = 0, h_additional_count = 0\<rparr>"
  by (simp add: codec_eval ex_response_def)

lemma ex_response_lifetime: "cache_lifetime ex_response = Inr (Some 30)"
  by (simp add: cache_lifetime_def codec_eval ex_response_def header_flag_defs wire_flag_defs iter_min_def range_or_empty_def)

lemma ex_response_kept: "kept ex_rcache ex_response 0 ([0, 0] @ drop 2 ex_response) (from_secs 30)"
  using kept_total [OF ex_response_header, of 0] ex_rcache_config
  by (auto simp: kept_def ex_response_header ex_response_lifetime header_flag_defs wire_flag_defs from_secs_def u16_to_be_def)


text \<open>
  C23: What the cache serves. After any sequence of insertions into a new cache, an answer served for a key
  is the last response that was kept under that very key, with the identity of the asking query and its TTLs
  aged by the whole seconds since it came (set to 0 once expired). It is served before its lifetime ends, or
  within the stale window after it and only to a caller that accepts stale answers.
\<close>

theorem cache_get_serves_last_kept:
  assumes "cache_new capacity maximum_ttl stale store_negative = Some c"
    and "fst (cache_get_scoped (fold insert_step xs c) key qid allow_stale now) = Some (packet, ifindex)"
  shows "\<exists>response s t0 rcode stored ttl el. last_kept c key xs (key, response, ifindex, s, t0) rcode stored ttl \<and>
    ttl \<le> maximum_ttl \<and> unat el = min ((now - t0) div 1000000000) (2 ^ 32 - 1) \<and>
    age_ttls (u16_to_be qid @ drop 2 response) el (t0 + clamp_ttl ttl rcode \<le> now) = Inr packet \<and>
    (now < t0 + clamp_ttl ttl rcode \<or> allow_stale \<and> now < t0 + clamp_ttl ttl rcode + stale)"
proof -
  note new = cache_new_inv [OF assms(1)]
  from cache_get_scoped_SomeD [OF assms(2)] obtain e where
    e: "gc_find (c_global (fold insert_step xs c)) (to_xkey key) = Some e" "now < ce_expires_at e \<or> allow_stale \<and> now < ce_stale_until e"
      "ifindex = ce_source_ifindex e"
    and p: "and_then (rewrite_id (ce_answer e) qid)
       (\<lambda>p. age_ttls p (if (now - ce_inserted e) div 1000000000 < 2 ^ 32 then of_nat ((now - ce_inserted e) div 1000000000) else - 1)
              (ce_expires_at e \<le> now)) = Inr packet" .
  from find_last_kept [OF new(1,2) e(1)] obtain x rcode stored ttl where
    x: "last_kept c key xs x rcode stored ttl" "entry_of stale x rcode stored ttl e"
    unfolding new(3) by blast
  obtain k response i s t0 where x': "x = (k, response, i, s, t0)" by (cases x)
  have k: "k = key" "kept c response rcode stored ttl" using x(1) x' by (auto simp: last_kept_def)
  then have rw: "rewrite_id stored qid = Inr (u16_to_be qid @ drop 2 response)"
    using rewrite_id_again kept_total by (metis kept_def)
  have t: "ttl \<le> maximum_ttl" using k(2) new(4) by (auto simp: kept_def)
  have en: "ce_answer e = stored" "ce_inserted e = t0" "ce_expires_at e = t0 + clamp_ttl ttl rcode"
    "ce_stale_until e = t0 + clamp_ttl ttl rcode + stale" "i = ifindex"
    using x(2) x' e(3) by (simp_all add: entry_of_def)
  have "age_ttls (u16_to_be qid @ drop 2 response)
      (if (now - t0) div 1000000000 < 2 ^ 32 then of_nat ((now - t0) div 1000000000) else - 1) (t0 + clamp_ttl ttl rcode \<le> now) = Inr packet"
    using p unfolding en rw by (simp add: result_simps)
  with x(1) t e(2) show ?thesis unfolding x' k(1) en
    using elapsed_secs by blast
qed


lemma ex_insert: "\<exists>c'. cache_insert_scoped ex_rcache ex_ck ex_response (Some 3) (CacheLink 3) 5 = (Inr True, c')"
  by (cases rule: cache_insert_scoped_cases [of ex_rcache ex_response ex_ck "Some 3" "CacheLink 3" 5])
    (use ex_response_kept in blast)+

lemma ex_response_reparsed: "\<exists>x. parse_sections (u16_to_be 9 @ drop 2 ex_response) = Inr x"
  by (simp add: codec_eval ex_response_def u16_to_be_def)


lemma ex_served:
  assumes "cache_insert_scoped ex_rcache ex_ck ex_response (Some 3) (CacheLink 3) 5 = (Inr True, c')"
  obtains packet where "fst (cache_get_scoped c' ex_ck 9 False 6) = Some (packet, Some 3)"
proof (cases rule: cache_insert_scoped_cases [of ex_rcache ex_response ex_ck "Some 3" "CacheLink 3" 5])
  case (stored rcode packet ttl)
  let ?e = "inserted_entry (c_global ex_rcache) rcode packet ttl False (Some 3) (scope_encode (CacheLink 3)) 5"
  have found: "gc_find (c_global c') (to_xkey ex_ck) = Some ?e"
    using stored(2) assms gc_find_insert_same [OF ex_rcache_config(1)] by auto
  have "6 < ce_expires_at ?e" using clamp_ttl_bounds [of ttl rcode] by (simp add: inserted_entry_def from_secs_def)
  moreover have "rewrite_id (ce_answer ?e) 9 = Inr (u16_to_be 9 @ drop 2 ex_response)"
    using rewrite_id_again [OF stored(1)] kept_total [OF ex_response_header] by (simp add: inserted_entry_def)
  moreover obtain p where "age_ttls (u16_to_be 9 @ drop 2 ex_response)
      (if (6 - ce_inserted ?e) div 1000000000 < 2 ^ 32 then of_nat ((6 - ce_inserted ?e) div 1000000000) else - 1) False = Inr p"
    using ex_response_reparsed age_ttls_total by blast
  ultimately have "fst (cache_get_scoped c' ex_ck 9 False 6) = Some (p, ce_source_ifindex ?e)"
    by (rule cache_get_fresh [OF found])
  then show ?thesis by (intro that) (simp add: inserted_entry_def)
next
  case (rejected r)
  then show ?thesis using assms by simp
qed

theorem cache_get_serves_last_kept_witness:
  "\<exists>packet. fst (cache_get_scoped (fold insert_step [(ex_ck, ex_response, Some 3, CacheLink 3, 5)] ex_rcache) ex_ck 9 False 6)
      = Some (packet, Some 3) \<and>
    (\<exists>response s t0 rcode stored ttl. last_kept ex_rcache ex_ck [(ex_ck, ex_response, Some 3, CacheLink 3, 5)]
       (ex_ck, response, Some 3, s, t0) rcode stored ttl)"
proof -
  obtain c' where c': "cache_insert_scoped ex_rcache ex_ck ex_response (Some 3) (CacheLink 3) 5 = (Inr True, c')"
    using ex_insert by blast
  then have f: "fold insert_step [(ex_ck, ex_response, Some 3, CacheLink 3, 5)] ex_rcache = c'"
    by (simp add: insert_step_def)
  obtain packet where "fst (cache_get_scoped c' ex_ck 9 False 6) = Some (packet, Some 3)"
    by (rule ex_served [OF c'])
  then show ?thesis
    using cache_get_serves_last_kept [OF ex_rcache_new, of "[(ex_ck, ex_response, Some 3, CacheLink 3, 5)]" ex_ck 9 False 6 packet "Some 3"]
    unfolding f by blast
qed



text \<open>A negative interface index does not survive: the encoding keeps its absolute value.\<close>

lemma scope_encode_negative: "scope_decode (scope_encode (CacheLink (- 1))) = CacheLink 1"
  using decode_encode [of "CacheLink 1"] by (simp add: I32_MAX_def)

end
