(* ===== verification/Config_Types.thy ===== *)
theory Config_Types
  imports Wire_Base Rust_Str
begin

text \<open>
  The configuration's data types (\<open>src/src/config_types.rs\<close>, \<open>src/src/config_helpers.rs\<close>): the three-way
  modes with their parsers, servers, domains and errors, and socket addresses of the standard library.
\<close>

section \<open>Socket addresses\<close>

text \<open>\<open>std::net::SocketAddr\<close>: address and port, with flow information and scope for IPv6.\<close>

datatype socket_addr =
  SockV4 ipv4_addr u16
| SockV6 ipv6_addr u16 u32 u32

fun sock_ip :: "socket_addr \<Rightarrow> ip_addr" where
  "sock_ip (SockV4 a _) = V4 a"
| "sock_ip (SockV6 a _ _ _) = V6 a"

fun sock_new :: "ip_addr \<Rightarrow> u16 \<Rightarrow> socket_addr" where
  "sock_new (V4 a) port = SockV4 a port"
| "sock_new (V6 a) port = SockV6 a port 0 0"

text \<open>The first segment of an IPv6 address.\<close>

definition first_segment :: "ipv6_addr \<Rightarrow> u16" where
  "first_segment a = ucast (drop_bit 112 a)"

section \<open>Errors and modes\<close>

text \<open>An I/O error is opaque: the sources only pass it on.\<close>

datatype config_error =
  ConfigIo nat
| InvalidServer string
| InvalidValue string
| ConfigLine nat string

datatype support_mode = SupportNo | SupportResolve | SupportYes
datatype validation_mode = ValidationNo | ValidationAllowDowngrade | ValidationYes
datatype tls_mode = TlsNo | TlsOpportunistic | TlsYes
datatype dns_stub_listener_mode = StubNo | StubUdp | StubTcp | StubYes

definition no_words :: "string list" where "no_words = [''no'', ''false'', ''off'', ''0'']"
definition yes_words :: "string list" where "yes_words = [''yes'', ''true'', ''on'', ''1'']"

definition support_mode_parse :: "string \<Rightarrow> config_error + support_mode" where
  "support_mode_parse v =
     (let s = to_ascii_lowercase (trim v) in
      if s \<in> set no_words then Inr SupportNo
      else if s = ''resolve'' then Inr SupportResolve
      else if s \<in> set yes_words then Inr SupportYes
      else Inl (InvalidValue s))"

definition validation_mode_parse :: "string \<Rightarrow> config_error + validation_mode" where
  "validation_mode_parse v =
     (let s = to_ascii_lowercase (trim v) in
      if s \<in> set no_words then Inr ValidationNo
      else if s = ''allow-downgrade'' then Inr ValidationAllowDowngrade
      else if s \<in> set yes_words then Inr ValidationYes
      else Inl (InvalidValue s))"

definition tls_mode_parse :: "string \<Rightarrow> config_error + tls_mode" where
  "tls_mode_parse v =
     (let s = to_ascii_lowercase (trim v) in
      if s \<in> set no_words then Inr TlsNo
      else if s = ''opportunistic'' then Inr TlsOpportunistic
      else if s \<in> set yes_words then Inr TlsYes
      else Inl (InvalidValue s))"

definition stub_mode_parse :: "string \<Rightarrow> config_error + dns_stub_listener_mode" where
  "stub_mode_parse v =
     (let s = to_ascii_lowercase (trim v) in
      if s \<in> set no_words then Inr StubNo
      else if s = ''udp'' then Inr StubUdp
      else if s = ''tcp'' then Inr StubTcp
      else if s \<in> set yes_words then Inr StubYes
      else Inl (InvalidValue s))"

fun udp_enabled :: "dns_stub_listener_mode \<Rightarrow> bool" where
  "udp_enabled m \<longleftrightarrow> m = StubUdp \<or> m = StubYes"

fun tcp_enabled :: "dns_stub_listener_mode \<Rightarrow> bool" where
  "tcp_enabled m \<longleftrightarrow> m = StubTcp \<or> m = StubYes"

fun stub_mode_as_str :: "dns_stub_listener_mode \<Rightarrow> string" where
  "stub_mode_as_str StubNo = ''no''"
| "stub_mode_as_str StubUdp = ''udp''"
| "stub_mode_as_str StubTcp = ''tcp''"
| "stub_mode_as_str StubYes = ''yes''"

section \<open>Servers and domains\<close>

record dns_server_spec =
  sp_address :: socket_addr
  sp_interface :: "string option"
  sp_server_name :: "string option"

record domain =
  dom_name :: string
  dom_route_only :: bool

record dns_delegate =
  del_id :: string
  del_servers :: "dns_server_spec list"
  del_domains :: "domain list"
  del_default_route :: "bool option"
  del_firewall_mark :: u32

definition delegate_effective_default_route :: "dns_delegate \<Rightarrow> bool" where
  "delegate_effective_default_route d = (case del_default_route d of None \<Rightarrow> False | Some b \<Rightarrow> b)"

text \<open>\<open>if !output.contains(&x) { output.push(x) }\<close>.\<close>

definition push_new :: "'a \<Rightarrow> 'a list \<Rightarrow> 'a list" where
  "push_new x out = (if x \<in> set out then out else out @ [x])"

lemma set_push_new [simp]: "set (push_new x out) = insert x (set out)"
  by (auto simp: push_new_def)

lemma distinct_push_new [simp]: "distinct (push_new x out) \<longleftrightarrow> distinct out"
  by (auto simp: push_new_def)

lemma fold_push_new: "set (fold (\<lambda>x. push_new (f x)) xs out) = set out \<union> f ` set xs"
  "distinct (fold (\<lambda>x. push_new (f x)) xs out) \<longleftrightarrow> distinct out"
  by (induction xs arbitrary: out) auto

end
