(* ===== verification/Routing.thy ===== *)
theory Routing
  imports Response_Cache Config_Types
begin

text \<open>
  The routing table (\<open>src/src/routing.rs\<close>): the state of every network link, the operations that change
  it, and the choice of the servers a name is sent to. The table is an association list in the order of
  the interface index, which is the iteration order of the \<open>BTreeMap\<close>. An operation returns its result
  beside the new table, because a failing one may have changed it. The properties: what every reachable
  table satisfies, that domain matching on text is matching of label suffixes, that the selection is the
  longest match and falls back in the documented order, and what the search list holds.
\<close>

section \<open>Kernel state of a link\<close>

definition IFF_UP :: u32 where "IFF_UP = 0x0001"
definition IFF_LOOPBACK :: u32 where "IFF_LOOPBACK = 0x0008"
definition IFF_RUNNING :: u32 where "IFF_RUNNING = 0x0040"
definition IFF_MULTICAST :: u32 where "IFF_MULTICAST = 0x1000"
definition IFF_LOWER_UP :: u32 where "IFF_LOWER_UP = 0x10000"
definition IFF_DORMANT :: u32 where "IFF_DORMANT = 0x20000"
definition IF_OPER_UNKNOWN :: u8 where "IF_OPER_UNKNOWN = 0"
definition IF_OPER_UP :: u8 where "IF_OPER_UP = 6"

datatype scope_kind = ScopeGlobal | ScopeLink int | ScopeDelegate nat | ScopeFallback

fun cache_scope_from :: "scope_kind \<Rightarrow> cache_scope" where
  "cache_scope_from ScopeGlobal = CacheGlobal"
| "cache_scope_from ScopeFallback = CacheFallback"
| "cache_scope_from (ScopeLink ifindex) = CacheLink ifindex"
| "cache_scope_from (ScopeDelegate index) = CacheDelegate index"

record route_scope =
  rs_kind :: scope_kind
  rs_servers :: "socket_addr list"

record kernel_link_state =
  k_ifindex :: int
  k_ifname :: string
  k_flags :: u32
  k_mtu :: u32
  k_operstate :: u8
  k_has_ipv4_global :: bool
  k_has_ipv4_link_local :: bool
  k_has_ipv6_global :: bool
  k_has_ipv6_link_local :: bool

definition has_carrier :: "kernel_link_state \<Rightarrow> bool" where
  "has_carrier k =
     (if k_operstate k = IF_OPER_UP then True
      else if k_operstate k \<noteq> IF_OPER_UNKNOWN then False
      else k_flags k AND (IFF_LOWER_UP OR IFF_RUNNING) = (IFF_LOWER_UP OR IFF_RUNNING) \<and>
           k_flags k AND IFF_DORMANT = 0)"

definition ipv4_is_link_local :: "ipv4_addr \<Rightarrow> bool" where
  "ipv4_is_link_local a \<longleftrightarrow> ipv4_octets a ! 0 = 169 \<and> ipv4_octets a ! 1 = 254"

definition ipv6_is_link_local :: "ipv6_addr \<Rightarrow> bool" where
  "ipv6_is_link_local a \<longleftrightarrow> first_segment a AND 0xffc0 = 0xfe80"

definition relevant_unicast :: "kernel_link_state \<Rightarrow> socket_addr list \<Rightarrow> bool" where
  "relevant_unicast k servers =
     (if k_flags k AND (IFF_LOOPBACK OR IFF_DORMANT) \<noteq> 0
         \<or> k_flags k AND (IFF_UP OR IFF_LOWER_UP) \<noteq> (IFF_UP OR IFF_LOWER_UP)
         \<or> \<not> has_carrier k
      then False
      else
        let allow_ipv4_link_local =
              list_ex (\<lambda>s. case sock_ip s of V4 a \<Rightarrow> ipv4_is_link_local a | V6 _ \<Rightarrow> False) servers;
            allow_ipv6_link_local =
              list_ex (\<lambda>s. case sock_ip s of V4 _ \<Rightarrow> False | V6 a \<Rightarrow> ipv6_is_link_local a) servers
        in k_has_ipv4_global k \<or> k_has_ipv6_global k
           \<or> (allow_ipv4_link_local \<and> k_has_ipv4_link_local k)
           \<or> (allow_ipv6_link_local \<and> k_has_ipv6_link_local k))"

definition relevant_multicast :: "kernel_link_state \<Rightarrow> int \<Rightarrow> bool" where
  "relevant_multicast k family =
     (if k_flags k AND (IFF_LOOPBACK OR IFF_DORMANT) \<noteq> 0
         \<or> k_flags k AND (IFF_UP OR IFF_LOWER_UP) \<noteq> (IFF_UP OR IFF_LOWER_UP)
         \<or> k_flags k AND IFF_MULTICAST = 0
         \<or> \<not> has_carrier k
      then False
      else if family = 2 then k_has_ipv4_global k \<or> k_has_ipv4_link_local k
      else if family = 10 then k_has_ipv6_global k \<or> k_has_ipv6_link_local k
      else False)"

section \<open>Links\<close>

datatype link_error = InvalidIfindex int | InvalidDomain string | NoSuchLink int | ManagedLink int

record link_state =
  l_ifindex :: int
  l_dns_servers :: "socket_addr list"
  l_domains :: "domain list"
  l_default_route :: "bool option"
  l_llmnr :: support_mode
  l_multicast_dns :: support_mode
  l_dns_over_tls :: tls_mode
  l_dnssec :: validation_mode
  l_dnssec_negative_trust_anchors :: "string list"
  l_kernel :: "kernel_link_state option"

definition validate_ifindex :: "int \<Rightarrow> link_error + unit" where
  "validate_ifindex ifindex = (if ifindex \<le> 0 then Inl (InvalidIfindex ifindex) else Inr ())"

definition link_state_new :: "int \<Rightarrow> link_error + link_state" where
  "link_state_new ifindex =
     and_then (validate_ifindex ifindex) (\<lambda>_.
     Inr \<lparr>l_ifindex = ifindex, l_dns_servers = [], l_domains = [], l_default_route = None,
          l_llmnr = SupportYes, l_multicast_dns = SupportYes, l_dns_over_tls = TlsNo,
          l_dnssec = ValidationAllowDowngrade, l_dnssec_negative_trust_anchors = [], l_kernel = None\<rparr>)"

definition kernel_relevant_unicast :: "link_state \<Rightarrow> bool" where
  "kernel_relevant_unicast l =
     (case l_kernel l of None \<Rightarrow> True | Some k \<Rightarrow> relevant_unicast k (l_dns_servers l))"

definition effective_default_route :: "link_state \<Rightarrow> bool" where
  "effective_default_route l =
     (case l_default_route l of
        Some default_route \<Rightarrow> default_route
      | None \<Rightarrow>
          if l_dns_servers l = [] \<or> \<not> kernel_relevant_unicast l then False
          else \<not> list_ex (\<lambda>d. dom_route_only d \<and> dom_name d \<noteq> ''.'') (l_domains l))"

section \<open>Normalisation\<close>

definition normalize_server :: "int \<Rightarrow> socket_addr \<Rightarrow> socket_addr" where
  "normalize_server ifindex server =
     (case server of
        SockV4 _ _ \<Rightarrow> server
      | SockV6 ip port flowinfo scope_id \<Rightarrow>
          if scope_id \<noteq> 0 \<or> first_segment ip AND 0xffc0 \<noteq> 0xfe80 then server
          else if ifindex < 0 then server
          else SockV6 ip port flowinfo (of_int ifindex))"

definition normalize_name :: "string \<Rightarrow> link_error + string" where
  "normalize_name name =
     (let name = trim_end_dots (trim name) in
      if name = [] \<or> name = ''~'' then Inr ''.''
      else
        let name = (case strip_prefix ''~'' name of Some n \<Rightarrow> n | None \<Rightarrow> name) in
        if name = [] \<or> \<not> is_ascii name \<or> length name > 253
           \<or> list_ex (\<lambda>label. label = [] \<or> length label > 63) (split_dots name)
        then Inl (InvalidDomain name)
        else Inr (to_ascii_lowercase name))"

definition normalize_domain :: "domain \<Rightarrow> link_error + domain" where
  "normalize_domain d =
     and_then (normalize_name (dom_name d)) (\<lambda>n. Inr \<lparr>dom_name = n, dom_route_only = dom_route_only d\<rparr>)"

text \<open>The loops that normalise every element of a list, stop at the first error and skip what is already there.\<close>

fun normalize_all :: "('a \<Rightarrow> link_error + 'b) \<Rightarrow> 'a list \<Rightarrow> 'b list \<Rightarrow> link_error + 'b list" where
  "normalize_all f [] out = Inr out"
| "normalize_all f (x # xs) out = and_then (f x) (\<lambda>y. normalize_all f xs (push_new y out))"

section \<open>The table\<close>

text \<open>A \<open>BTreeMap\<close> as a list of pairs in the order of the keys.\<close>

fun bt_insert :: "'k::linorder \<Rightarrow> 'v \<Rightarrow> ('k \<times> 'v) list \<Rightarrow> ('k \<times> 'v) list" where
  "bt_insert k v [] = [(k, v)]"
| "bt_insert k v ((k', v') # m) =
     (if k < k' then (k, v) # (k', v') # m
      else if k = k' then (k, v) # m
      else (k', v') # bt_insert k v m)"

record routing_table =
  rt_links :: "(int \<times> link_state) list"
  rt_kernel_synchronized :: bool

definition routing_table_default :: routing_table where
  "routing_table_default = \<lparr>rt_links = [], rt_kernel_synchronized = False\<rparr>"

definition table_links :: "routing_table \<Rightarrow> link_state list" where
  "table_links t = map snd (rt_links t)"

definition table_link :: "routing_table \<Rightarrow> int \<Rightarrow> link_state option" where
  "table_link t ifindex = map_of (rt_links t) ifindex"

text \<open>
  \<open>link_mut\<close> returns the link the caller goes on to change, and the table, which holds a new link if
  there was none.
\<close>

definition link_mut :: "routing_table \<Rightarrow> int \<Rightarrow> link_error + (link_state \<times> routing_table)" where
  "link_mut t ifindex =
     and_then (validate_ifindex ifindex) (\<lambda>_.
     case map_of (rt_links t) ifindex of
       Some link \<Rightarrow> Inr (link, t)
     | None \<Rightarrow>
         if rt_kernel_synchronized t then Inl (NoSuchLink ifindex)
         else and_then (link_state_new ifindex) (\<lambda>link.
              Inr (link, t\<lparr>rt_links := bt_insert ifindex link (rt_links t)\<rparr>)))"

definition put_link :: "routing_table \<Rightarrow> int \<Rightarrow> link_state \<Rightarrow> routing_table" where
  "put_link t ifindex link = t\<lparr>rt_links := bt_insert ifindex link (rt_links t)\<rparr>"

text \<open>
  The shape that every setter has: get the link, compute the new value, store it unless it is the old one.
\<close>

definition set_field ::
  "(link_state \<Rightarrow> 'a) \<Rightarrow> ('a \<Rightarrow> link_state \<Rightarrow> link_state) \<Rightarrow> (link_error + 'a) \<Rightarrow> routing_table \<Rightarrow> int \<Rightarrow>
     (link_error + bool) \<times> routing_table" where
  "set_field get upd v t ifindex =
     (case link_mut t ifindex of
        Inl e \<Rightarrow> (Inl e, t)
      | Inr (link, t) \<Rightarrow>
          (case v of
             Inl e \<Rightarrow> (Inl e, t)
           | Inr new \<Rightarrow>
               if get link = new then (Inr False, t)
               else (Inr True, put_link t ifindex (upd new link))))"

definition set_dns :: "routing_table \<Rightarrow> int \<Rightarrow> socket_addr list \<Rightarrow> (link_error + bool) \<times> routing_table" where
  "set_dns t ifindex servers =
     set_field l_dns_servers (\<lambda>v l. l\<lparr>l_dns_servers := v\<rparr>)
       (Inr (fold (\<lambda>s. push_new (normalize_server ifindex s)) servers [])) t ifindex"

definition set_domains :: "routing_table \<Rightarrow> int \<Rightarrow> domain list \<Rightarrow> (link_error + bool) \<times> routing_table" where
  "set_domains t ifindex domains =
     set_field l_domains (\<lambda>v l. l\<lparr>l_domains := v\<rparr>) (normalize_all normalize_domain domains []) t ifindex"

definition set_default_route :: "routing_table \<Rightarrow> int \<Rightarrow> bool option \<Rightarrow> (link_error + bool) \<times> routing_table" where
  "set_default_route t ifindex v =
     set_field l_default_route (\<lambda>v l. l\<lparr>l_default_route := v\<rparr>) (Inr v) t ifindex"

definition set_llmnr :: "routing_table \<Rightarrow> int \<Rightarrow> support_mode \<Rightarrow> (link_error + bool) \<times> routing_table" where
  "set_llmnr t ifindex mode = set_field l_llmnr (\<lambda>v l. l\<lparr>l_llmnr := v\<rparr>) (Inr mode) t ifindex"

definition set_multicast_dns :: "routing_table \<Rightarrow> int \<Rightarrow> support_mode \<Rightarrow> (link_error + bool) \<times> routing_table" where
  "set_multicast_dns t ifindex mode =
     set_field l_multicast_dns (\<lambda>v l. l\<lparr>l_multicast_dns := v\<rparr>) (Inr mode) t ifindex"

definition set_dns_over_tls :: "routing_table \<Rightarrow> int \<Rightarrow> tls_mode \<Rightarrow> (link_error + bool) \<times> routing_table" where
  "set_dns_over_tls t ifindex mode =
     set_field l_dns_over_tls (\<lambda>v l. l\<lparr>l_dns_over_tls := v\<rparr>) (Inr mode) t ifindex"

definition set_dnssec :: "routing_table \<Rightarrow> int \<Rightarrow> validation_mode \<Rightarrow> (link_error + bool) \<times> routing_table" where
  "set_dnssec t ifindex mode = set_field l_dnssec (\<lambda>v l. l\<lparr>l_dnssec := v\<rparr>) (Inr mode) t ifindex"

definition set_dnssec_negative_trust_anchors ::
  "routing_table \<Rightarrow> int \<Rightarrow> string list \<Rightarrow> (link_error + bool) \<times> routing_table" where
  "set_dnssec_negative_trust_anchors t ifindex anchors =
     set_field l_dnssec_negative_trust_anchors (\<lambda>v l. l\<lparr>l_dnssec_negative_trust_anchors := v\<rparr>)
       (normalize_all normalize_name anchors []) t ifindex"

text \<open>The loop of \<open>sync_kernel_links\<close> over the reported links, with the change flag and the indices seen.\<close>

fun sync_loop ::
  "kernel_link_state list \<Rightarrow> bool \<Rightarrow> int list \<Rightarrow> routing_table \<Rightarrow> (link_error + (bool \<times> int list)) \<times> routing_table" where
  "sync_loop [] changed seen t = (Inr (changed, seen), t)"
| "sync_loop (kern # ks) changed seen t =
     (case validate_ifindex (k_ifindex kern) of
        Inl e \<Rightarrow> (Inl e, t)
      | Inr _ \<Rightarrow>
          (case (case map_of (rt_links t) (k_ifindex kern) of
                   Some link \<Rightarrow> Inr (link, t)
                 | None \<Rightarrow> and_then (link_state_new (k_ifindex kern)) (\<lambda>link.
                             Inr (link, put_link t (k_ifindex kern) link))) of
             Inl e \<Rightarrow> (Inl e, t)
           | Inr (link, t) \<Rightarrow>
               if l_kernel link \<noteq> Some kern then
                 sync_loop ks True (k_ifindex kern # seen)
                   (put_link t (k_ifindex kern) (link\<lparr>l_kernel := Some kern\<rparr>))
               else sync_loop ks changed (k_ifindex kern # seen) t))"

definition sync_kernel_links :: "routing_table \<Rightarrow> kernel_link_state list \<Rightarrow> (link_error + bool) \<times> routing_table" where
  "sync_kernel_links t links =
     (case sync_loop links (\<not> rt_kernel_synchronized t) [] t of
        (Inl e, t) \<Rightarrow> (Inl e, t)
      | (Inr (changed, seen), t) \<Rightarrow>
          let before = length (rt_links t);
              kept = filter (\<lambda>(ifindex, link). ifindex \<in> set seen
                               \<or> (l_kernel link = None \<and> \<not> rt_kernel_synchronized t)) (rt_links t)
          in (Inr (changed \<or> length kept \<noteq> before),
              t\<lparr>rt_links := kept, rt_kernel_synchronized := True\<rparr>))"

definition revert :: "routing_table \<Rightarrow> int \<Rightarrow> (link_error + bool) \<times> routing_table" where
  "revert t ifindex =
     (case validate_ifindex ifindex of
        Inl e \<Rightarrow> (Inl e, t)
      | Inr _ \<Rightarrow>
          (case map_of (rt_links t) ifindex of
             None \<Rightarrow> (Inl (NoSuchLink ifindex), t)
           | Some link \<Rightarrow>
               (case link_state_new ifindex of
                  Inl e \<Rightarrow> (Inl e, t)
                | Inr fresh \<Rightarrow>
                    let reset = fresh\<lparr>l_kernel := l_kernel link\<rparr> in
                    if link = reset then (Inr False, t) else (Inr True, put_link t ifindex reset))))"

section \<open>Search domains\<close>

fun append_search_domains :: "domain list \<Rightarrow> domain list \<Rightarrow> domain list" where
  "append_search_domains out [] = out"
| "append_search_domains out (d # source) =
     (if dom_route_only d \<or> dom_name d = ''.'' \<or> d \<in> set out then append_search_domains out source
      else append_search_domains (out @ [d]) source)"

definition nonzero :: "int option \<Rightarrow> int option" where
  "nonzero ifindex = (case ifindex of Some i \<Rightarrow> if i \<noteq> 0 then Some i else None | None \<Rightarrow> None)"

definition search_domains :: "routing_table \<Rightarrow> domain list \<Rightarrow> int option \<Rightarrow> link_error + domain list" where
  "search_domains t global_domains ifindex =
     (case nonzero ifindex of
        Some i \<Rightarrow>
          and_then (validate_ifindex i) (\<lambda>_.
          and_then (ok_or (map_of (rt_links t) i) (NoSuchLink i)) (\<lambda>link.
          Inr (append_search_domains [] (l_domains link))))
      | None \<Rightarrow>
          Inr (fold (\<lambda>link out. append_search_domains out (l_domains link)) (table_links t)
                 (append_search_domains [] global_domains)))"

section \<open>Selection\<close>

definition domain_match_labels :: "string \<Rightarrow> string \<Rightarrow> nat option" where
  "domain_match_labels name domain =
     (if domain = ''.'' then Some 0
      else if eq_ignore_ascii_case name domain
              \<or> (case strip_suffix domain name of Some prefix \<Rightarrow> ends_with ''.'' prefix | None \<Rightarrow> False)
      then Some (length (split_dots domain))
      else None)"

definition best_domain_match :: "string \<Rightarrow> domain list \<Rightarrow> nat option" where
  "best_domain_match name domains =
     iter_max (List.map_filter (\<lambda>d. domain_match_labels name (dom_name d)) domains)"

definition link_scope :: "link_state \<Rightarrow> route_scope" where
  "link_scope link = \<lparr>rs_kind = ScopeLink (l_ifindex link), rs_servers = l_dns_servers link\<rparr>"

definition delegate_scope :: "nat \<times> dns_delegate \<Rightarrow> route_scope" where
  "delegate_scope x = \<lparr>rs_kind = ScopeDelegate (fst x), rs_servers = map sp_address (del_servers (snd x))\<rparr>"

text \<open>A scope under the number of labels of its best domain, if it has one: the body of the three loops.\<close>

definition scored :: "string \<Rightarrow> domain list \<Rightarrow> route_scope \<Rightarrow> (nat \<times> route_scope) list" where
  "scored name domains scope =
     (case best_domain_match name domains of Some labels \<Rightarrow> [(labels, scope)] | None \<Rightarrow> [])"

definition usable :: "link_state \<Rightarrow> bool" where
  "usable link \<longleftrightarrow> l_dns_servers link \<noteq> [] \<and> kernel_relevant_unicast link"

definition select ::
  "routing_table \<Rightarrow> string \<Rightarrow> int option \<Rightarrow> socket_addr list \<Rightarrow> socket_addr list \<Rightarrow> domain list \<Rightarrow> dns_delegate list \<Rightarrow>
     link_error + route_scope list" where
  "select t name ifindex global_servers fallback_servers global_domains delegates =
     (case nonzero ifindex of
        Some i \<Rightarrow>
          and_then (validate_ifindex i) (\<lambda>_.
          and_then (ok_or (map_of (rt_links t) i) (NoSuchLink i)) (\<lambda>link.
          if l_dns_servers link = [] \<or> \<not> kernel_relevant_unicast link then Inr []
          else Inr [\<lparr>rs_kind = ScopeLink i, rs_servers = l_dns_servers link\<rparr>]))
      | None \<Rightarrow>
          and_then (normalize_name name) (\<lambda>name.
          let global = \<lparr>rs_kind = ScopeGlobal, rs_servers = global_servers\<rparr>;
              indexed = enumerate 0 delegates;
              matches =
                (if global_servers \<noteq> [] then scored name global_domains global else []) @
                concat (map (\<lambda>link. if usable link then scored name (l_domains link) (link_scope link) else [])
                         (table_links t)) @
                concat (map (\<lambda>x. if del_servers (snd x) \<noteq> [] then scored name (del_domains (snd x)) (delegate_scope x)
                                 else []) indexed)
          in case iter_max (map fst matches) of
               Some best \<Rightarrow> Inr (map snd (filter (\<lambda>(labels, _). labels = best) matches))
             | None \<Rightarrow>
                 let scopes =
                       (if global_servers \<noteq> [] then [global] else []) @
                       map link_scope (filter (\<lambda>link. effective_default_route link \<and> usable link) (table_links t)) @
                       map delegate_scope (filter (\<lambda>x. delegate_effective_default_route (snd x) \<and> del_servers (snd x) \<noteq> [])
                                            indexed)
                 in Inr (if scopes = [] \<and> fallback_servers \<noteq> []
                         then [\<lparr>rs_kind = ScopeFallback, rs_servers = fallback_servers\<rparr>] else scopes)))"

section \<open>The interface of an ordered map\<close>

text \<open>
  What the table relies on: an insertion is found under its key, no other key changes, and the order of
  the keys is kept. It is a store that never evicts.
\<close>

locale ordered_map =
  fixes ok :: "'s \<Rightarrow> bool"
    and find :: "'s \<Rightarrow> 'k \<Rightarrow> 'v option"
    and insert_at :: "'k \<Rightarrow> 'v \<Rightarrow> 's \<Rightarrow> 's"
  assumes ok_insert_at: "ok s \<Longrightarrow> ok (insert_at k v s)"
    and find_insert_at: "ok s \<Longrightarrow> find (insert_at k v s) = (find s)(k \<mapsto> v)"
begin

lemma find_other: "ok s \<Longrightarrow> k' \<noteq> k \<Longrightarrow> find (insert_at k v s) k' = find s k'"
  by (simp add: find_insert_at)

lemma update_entry:
  assumes "ok s" and "find s k = Some v"
  shows "dom (find (insert_at k v' s)) = dom (find s)"
  using assms by (auto simp: find_insert_at)

end

sublocale ordered_map \<subseteq> never_evicts: evicting_store ok find "\<lambda>(k, v). insert_at k v" "\<lambda>_ v. v"
  by unfold_locales (auto simp: ok_insert_at find_insert_at)

definition sorted_keys :: "('k::linorder \<times> 'v) list \<Rightarrow> bool" where
  "sorted_keys m \<longleftrightarrow> sorted_wrt (<) (map fst m)"

lemma set_bt_insert: "set (bt_insert k v m) \<subseteq> insert (k, v) (set m)"
  by (induction m) (auto split: if_splits)

lemma sorted_keys_bt_insert: "sorted_keys m \<Longrightarrow> sorted_keys (bt_insert k v m)"
proof (induction m)
  case (Cons x m)
  obtain k' v' where x: "x = (k', v')" by (cases x)
  have "fst y > k'" if "y \<in> set (bt_insert k v m)" "k' < k" for y
    using that set_bt_insert [of k v m] Cons.prems x by (auto simp: sorted_keys_def)
  then show ?case using Cons x by (fastforce simp: sorted_keys_def)
qed (simp add: sorted_keys_def)

lemma map_of_bt_insert: "sorted_keys m \<Longrightarrow> map_of (bt_insert k v m) = (map_of m)(k \<mapsto> v)"
proof (induction m)
  case (Cons x m)
  obtain k' v' where x: "x = (k', v')" by (cases x)
  have "k \<notin> fst ` set m" if "k < k'" using Cons.prems x that by (auto simp: sorted_keys_def)
  then show ?case using Cons x by (auto simp: sorted_keys_def fun_eq_iff)
qed simp

interpretation bt: ordered_map "sorted_keys :: (int \<times> link_state) list \<Rightarrow> bool" map_of bt_insert
  by unfold_locales (simp_all add: sorted_keys_bt_insert map_of_bt_insert)

lemma sorted_keys_distinct: "sorted_keys m \<Longrightarrow> distinct (map fst m)"
  by (simp add: sorted_keys_def strict_sorted_iff)

section \<open>The invariant of the table\<close>

text \<open>A domain as the table keeps it: the root, or lower-case ASCII labels within the limits of DNS.\<close>

definition valid_domain :: "string \<Rightarrow> bool" where
  "valid_domain n \<longleftrightarrow> n = ''.'' \<or>
     (is_ascii n \<and> to_ascii_lowercase n = n \<and> length n \<le> 253 \<and> (\<forall>l \<in> set (split_dots n). l \<noteq> [] \<and> length l \<le> 63))"

definition link_ok :: "int \<Rightarrow> link_state \<Rightarrow> bool" where
  "link_ok i l \<longleftrightarrow> 0 < i \<and> l_ifindex l = i \<and> distinct (l_dns_servers l) \<and> distinct (l_domains l) \<and>
     (\<forall>d \<in> set (l_domains l). valid_domain (dom_name d)) \<and>
     distinct (l_dnssec_negative_trust_anchors l) \<and> (\<forall>n \<in> set (l_dnssec_negative_trust_anchors l). valid_domain n) \<and>
     (\<forall>k. l_kernel l = Some k \<longrightarrow> k_ifindex k = i)"

definition table_inv :: "routing_table \<Rightarrow> bool" where
  "table_inv t \<longleftrightarrow> sorted_keys (rt_links t) \<and> (\<forall>(i, l) \<in> set (rt_links t). link_ok i l)"

lemma table_inv_find: "table_inv t \<Longrightarrow> map_of (rt_links t) i = Some l \<Longrightarrow> link_ok i l"
  by (auto simp: table_inv_def dest: map_of_SomeD)

lemma table_inv_put: "table_inv t \<Longrightarrow> link_ok i l \<Longrightarrow> table_inv (put_link t i l)"
  using set_bt_insert [of i l "rt_links t"]
  by (auto simp: table_inv_def put_link_def sorted_keys_bt_insert)

lemma normalize_name_valid:
  assumes "normalize_name name = Inr n"
  shows "valid_domain n"
proof (cases "n = ''.''")
  case False
  then obtain m where "is_ascii m" "length m \<le> 253" "list_all (\<lambda>l. l \<noteq> [] \<and> length l \<le> 63) (split_dots m)"
    "n = to_ascii_lowercase m"
    using assms by (auto simp: normalize_name_def Let_def list_ex_iff list_all_iff not_less split: if_splits option.splits)
  then show ?thesis by (auto simp: valid_domain_def split_dots_lowercase list_all_iff)
qed (simp add: valid_domain_def)

lemma normalize_all_spec:
  assumes "normalize_all f xs out = Inr ys" and "distinct out" and "\<forall>y \<in> set out. P y" and "\<And>x y. f x = Inr y \<Longrightarrow> P y"
  shows "distinct ys \<and> (\<forall>y \<in> set ys. P y)"
  using assms(1-3)
proof (induction xs arbitrary: out)
  case (Cons x xs)
  from Cons.prems(1) obtain y where y: "f x = Inr y" "normalize_all f xs (push_new y out) = Inr ys"
    by (auto simp: result_simps)
  show ?case using Cons.IH [OF y(2)] Cons.prems(2,3) assms(4) [OF y(1)] by simp
qed simp

lemma link_state_new_ok: "link_state_new i = Inr l \<Longrightarrow> link_ok i l"
  by (auto simp: link_state_new_def validate_ifindex_def link_ok_def result_simps split: if_splits)

lemma link_mut_ok:
  assumes "table_inv t" and "link_mut t i = Inr (l, t')"
  shows "table_inv t'" and "link_ok i l" and "map_of (rt_links t') i = Some l"
proof -
  have "table_inv t' \<and> link_ok i l \<and> map_of (rt_links t') i = Some l"
  proof (cases "map_of (rt_links t) i")
    case None
    then have new: "link_state_new i = Inr l" "t' = put_link t i l"
      using assms(2) by (auto simp: link_mut_def put_link_def result_simps split: if_splits)
    then show ?thesis using table_inv_put [OF assms(1) link_state_new_ok [OF new(1)]] link_state_new_ok [OF new(1)] assms(1)
      by (simp add: put_link_def table_inv_def map_of_bt_insert)
  next
    case (Some l')
    then have "l' = l" "t' = t" using assms(2) by (auto simp: link_mut_def result_simps)
    then show ?thesis using assms(1) Some table_inv_find by blast
  qed
  then show "table_inv t'" "link_ok i l" "map_of (rt_links t') i = Some l" by auto
qed

text \<open>Every setter keeps the invariant if the value it stores is acceptable.\<close>

lemma set_field_inv:
  assumes "table_inv t" and "\<And>new l. v = Inr new \<Longrightarrow> link_ok i l \<Longrightarrow> link_ok i (upd new l)"
  shows "table_inv (snd (set_field get upd v t i))"
proof (cases "link_mut t i")
  case (Inr x)
  obtain l t' where x: "x = (l, t')" by (cases x)
  note ok = link_mut_ok [OF assms(1) Inr [unfolded x]]
  show ?thesis
    using Inr x ok table_inv_put [OF ok(1)] assms(2) by (auto simp: set_field_def split: sum.splits)
qed (simp add: set_field_def assms(1))

lemma setters_inv:
  assumes "table_inv t"
  shows "table_inv (snd (set_dns t i servers))" and "table_inv (snd (set_domains t i domains))"
    and "table_inv (snd (set_default_route t i dr))" and "table_inv (snd (set_llmnr t i sm))"
    and "table_inv (snd (set_multicast_dns t i sm))" and "table_inv (snd (set_dns_over_tls t i tm))"
    and "table_inv (snd (set_dnssec t i vm))" and "table_inv (snd (set_dnssec_negative_trust_anchors t i anchors))"
proof -
  show "table_inv (snd (set_dns t i servers))"
    unfolding set_dns_def
    by (rule set_field_inv [OF assms])
      (use fold_push_new(2) [of "normalize_server i" servers "[]"] in \<open>auto simp: link_ok_def\<close>)
  show "table_inv (snd (set_domains t i domains))"
    unfolding set_domains_def
  proof (rule set_field_inv [OF assms])
    fix new l assume n: "normalize_all normalize_domain domains [] = Inr new" and l: "link_ok i l"
    have "distinct new \<and> (\<forall>d \<in> set new. valid_domain (dom_name d))"
      by (rule normalize_all_spec [OF n]) (auto simp: normalize_domain_def result_simps dest: normalize_name_valid)
    then show "link_ok i (l\<lparr>l_domains := new\<rparr>)" using l by (auto simp: link_ok_def)
  qed
  show "table_inv (snd (set_dnssec_negative_trust_anchors t i anchors))"
    unfolding set_dnssec_negative_trust_anchors_def
  proof (rule set_field_inv [OF assms])
    fix new l assume n: "normalize_all normalize_name anchors [] = Inr new" and l: "link_ok i l"
    have "distinct new \<and> (\<forall>d \<in> set new. valid_domain d)"
      by (rule normalize_all_spec [OF n]) (auto dest: normalize_name_valid)
    then show "link_ok i (l\<lparr>l_dnssec_negative_trust_anchors := new\<rparr>)" using l by (auto simp: link_ok_def)
  qed
qed (use assms in \<open>auto simp: set_default_route_def set_llmnr_def set_multicast_dns_def set_dns_over_tls_def set_dnssec_def
    link_ok_def intro!: set_field_inv\<close>)

section \<open>Lemmas: synchronisation with the kernel\<close>

text \<open>What a link is configured to, apart from what the kernel reports.\<close>

definition link_config :: "link_state \<Rightarrow> link_state" where
  "link_config l = l\<lparr>l_kernel := None\<rparr>"

definition config_at :: "routing_table \<Rightarrow> int \<Rightarrow> link_state option" where
  "config_at t i = (case map_of (rt_links t) i of
     Some l \<Rightarrow> Some (link_config l)
   | None \<Rightarrow> (case link_state_new i of Inl _ \<Rightarrow> None | Inr l \<Rightarrow> Some l))"

lemma sync_step:
  assumes "table_inv t" and "validate_ifindex (k_ifindex k) = Inr ()"
  obtains l t1 where
    "(case map_of (rt_links t) (k_ifindex k) of
        Some link \<Rightarrow> Inr (link, t)
      | None \<Rightarrow> and_then (link_state_new (k_ifindex k)) (\<lambda>link. Inr (link, put_link t (k_ifindex k) link))) =
       (Inr (l, t1) :: link_error + _)"
    "table_inv t1" "link_ok (k_ifindex k) l" "map_of (rt_links t1) = (map_of (rt_links t))(k_ifindex k \<mapsto> l)"
    "config_at t (k_ifindex k) = Some (link_config l)" "rt_kernel_synchronized t1 = rt_kernel_synchronized t"
proof (cases "map_of (rt_links t) (k_ifindex k)")
  case None
  obtain l where l: "link_state_new (k_ifindex k) = Inr l" using assms(2) by (simp add: link_state_new_def result_simps)
  then have "link_config l = l" by (auto simp: link_state_new_def link_config_def result_simps)
  then show ?thesis
    using None l table_inv_put [OF assms(1) link_state_new_ok [OF l]] link_state_new_ok [OF l] assms(1)
    by (intro that [of l "put_link t (k_ifindex k) l"])
      (simp_all add: result_simps put_link_def table_inv_def map_of_bt_insert config_at_def)
next
  case (Some l)
  then show ?thesis using table_inv_find [OF assms(1)] assms(1)
    by (intro that [of l t]) (auto simp: config_at_def fun_upd_idem)
qed

lemma sync_loop_spec:
  assumes "table_inv t" and "sync_loop ks ch seen t = (r, t')"
  shows "table_inv t' \<and> rt_kernel_synchronized t' = rt_kernel_synchronized t \<and>
    (\<forall>ch' seen'. r = Inr (ch', seen') \<longrightarrow>
       set seen' = set seen \<union> k_ifindex ` set ks \<and>
       (\<forall>i. i \<notin> k_ifindex ` set ks \<longrightarrow> map_of (rt_links t') i = map_of (rt_links t) i) \<and>
       (\<forall>k \<in> set ks. \<exists>l' k'. map_of (rt_links t') (k_ifindex k) = Some l' \<and> k' \<in> set ks \<and> l_kernel l' = Some k' \<and>
          config_at t (k_ifindex k) = Some (link_config l')))"
  using assms
proof (induction ks arbitrary: ch seen t)
  case (Cons k ks)
  show ?case
  proof (cases "validate_ifindex (k_ifindex k)")
    case (Inl e)
    then show ?thesis using Cons.prems by auto
  next
    case (Inr u)
    then have v: "validate_ifindex (k_ifindex k) = Inr ()" by simp
    from sync_step [OF Cons.prems(1) v] obtain l t1 where
      s: "(case map_of (rt_links t) (k_ifindex k) of
            Some link \<Rightarrow> Inr (link, t)
          | None \<Rightarrow> and_then (link_state_new (k_ifindex k)) (\<lambda>link. Inr (link, put_link t (k_ifindex k) link))) =
           (Inr (l, t1) :: link_error + _)"
      and t1: "table_inv t1" "link_ok (k_ifindex k) l" "map_of (rt_links t1) = (map_of (rt_links t))(k_ifindex k \<mapsto> l)"
        "config_at t (k_ifindex k) = Some (link_config l)" "rt_kernel_synchronized t1 = rt_kernel_synchronized t" .
    define t2 where "t2 = (if l_kernel l \<noteq> Some k then put_link t1 (k_ifindex k) (l\<lparr>l_kernel := Some k\<rparr>) else t1)"
    define l2 where "l2 = l\<lparr>l_kernel := Some k\<rparr>"
    have l2: "link_ok (k_ifindex k) l2" "link_config l2 = link_config l" "l_kernel l2 = Some k"
      using t1(2) by (auto simp: l2_def link_ok_def link_config_def)
    have same: "l2 = l" if "l_kernel l = Some k" using that by (simp add: l2_def)
    have t2: "table_inv t2" "map_of (rt_links t2) = (map_of (rt_links t))(k_ifindex k \<mapsto> l2)"
      "rt_kernel_synchronized t2 = rt_kernel_synchronized t"
      using table_inv_put [OF t1(1) l2(1)] t1 same
      by (auto simp: t2_def put_link_def table_inv_def map_of_bt_insert l2_def [symmetric] fun_upd_idem_iff)
    have "sync_loop (k # ks) ch seen t =
        sync_loop ks (if l_kernel l \<noteq> Some k then True else ch) (k_ifindex k # seen) t2"
      unfolding sync_loop.simps v s by (simp add: t2_def)
    then have "sync_loop ks (if l_kernel l \<noteq> Some k then True else ch) (k_ifindex k # seen) t2 = (r, t')"
      using Cons.prems(2) by simp
    note IH = Cons.IH [OF t2(1) this]
    have cfg: "config_at t2 i = (if i = k_ifindex k then Some (link_config l2) else config_at t i)" for i
      by (simp add: config_at_def t2(2))
    show ?thesis
    proof (intro conjI allI impI)
      show "table_inv t'" "rt_kernel_synchronized t' = rt_kernel_synchronized t" using IH t2(3) by auto
      fix ch' seen' assume r: "r = Inr (ch', seen')"
      show "set seen' = set seen \<union> k_ifindex ` set (k # ks)" using IH r by auto
      show "map_of (rt_links t') i = map_of (rt_links t) i" if "i \<notin> k_ifindex ` set (k # ks)" for i
        using IH r that t2(2) by simp
      show "\<forall>x \<in> set (k # ks). \<exists>l' k'. map_of (rt_links t') (k_ifindex x) = Some l' \<and> k' \<in> set (k # ks) \<and>
          l_kernel l' = Some k' \<and> config_at t (k_ifindex x) = Some (link_config l')"
      proof
        fix x assume x: "x \<in> set (k # ks)"
        show "\<exists>l' k'. map_of (rt_links t') (k_ifindex x) = Some l' \<and> k' \<in> set (k # ks) \<and>
          l_kernel l' = Some k' \<and> config_at t (k_ifindex x) = Some (link_config l')"
        proof (cases "k_ifindex x \<in> k_ifindex ` set ks")
          case True
          then obtain y where "y \<in> set ks" "k_ifindex y = k_ifindex x" by auto
          then obtain l' k' where l': "map_of (rt_links t') (k_ifindex x) = Some l'" "k' \<in> set ks"
            "l_kernel l' = Some k'" "config_at t2 (k_ifindex x) = Some (link_config l')" using IH r by metis
          then show ?thesis using cfg t1(4) l2(2) by (auto split: if_splits)
        next
          case False
          then have "x = k" using x by auto
          then show ?thesis using IH r False t2(2) l2 t1(4) by auto
        qed
      qed
    qed
  qed
qed auto

lemma sync_kernel_links_inv:
  assumes "table_inv t"
  shows "table_inv (snd (sync_kernel_links t ks))"
proof -
  obtain r t1 where s: "sync_loop ks (\<not> rt_kernel_synchronized t) [] t = (r, t1)" by fastforce
  have inv: "table_inv t1" using sync_loop_spec [OF assms s] by simp
  have "table_inv (t1\<lparr>rt_links := filter P (rt_links t1), rt_kernel_synchronized := True\<rparr>)" for P
    using inv by (auto simp: table_inv_def sorted_keys_def sorted_wrt_map sorted_wrt_filter)
  then show ?thesis using inv s by (cases r) (auto simp: sync_kernel_links_def Let_def)
qed

lemma revert_inv:
  assumes "table_inv t"
  shows "table_inv (snd (revert t i))"
proof (cases "map_of (rt_links t) i")
  case (Some l)
  have "link_ok i (fresh\<lparr>l_kernel := l_kernel l\<rparr>)" if "link_state_new i = Inr fresh" for fresh
    using table_inv_find [OF assms Some] link_state_new_ok [OF that] by (simp add: link_ok_def)
  then show ?thesis using assms Some table_inv_put [OF assms]
    by (auto simp: revert_def Let_def split: sum.splits)
qed (use assms in \<open>auto simp: revert_def split: sum.splits\<close>)

section \<open>Runs of the table\<close>

inductive table_step :: "routing_table \<Rightarrow> routing_table \<Rightarrow> bool" where
  "table_step t (snd (set_dns t i servers))"
| "table_step t (snd (set_domains t i domains))"
| "table_step t (snd (set_default_route t i dr))"
| "table_step t (snd (set_llmnr t i sm))"
| "table_step t (snd (set_multicast_dns t i sm))"
| "table_step t (snd (set_dns_over_tls t i tm))"
| "table_step t (snd (set_dnssec t i vm))"
| "table_step t (snd (set_dnssec_negative_trust_anchors t i anchors))"
| "table_step t (snd (sync_kernel_links t ks))"
| "table_step t (snd (revert t i))"

inductive table_reachable :: "routing_table \<Rightarrow> bool" where
  table_start: "table_reachable routing_table_default"
| table_next: "table_reachable t \<Longrightarrow> table_step t t' \<Longrightarrow> table_reachable t'"

lemma table_reachable_inv: "table_reachable t \<Longrightarrow> table_inv t"
proof (induction rule: table_reachable.induct)
  case table_start
  then show ?case by (simp add: table_inv_def routing_table_default_def sorted_keys_def)
next
  case (table_next t t')
  from table_next.hyps(2) table_next.IH show ?case
    by cases (simp_all add: setters_inv sync_kernel_links_inv revert_inv)
qed

section \<open>Lemmas: domains as label suffixes\<close>

text \<open>The labels of a name, most specific first; the root has none.\<close>

definition name_labels :: "string \<Rightarrow> string list" where
  "name_labels n = (if n = ''.'' then [] else split_dots n)"

definition covers :: "string \<Rightarrow> string \<Rightarrow> bool" where
  "covers domain name \<longleftrightarrow> (\<exists>p. name_labels name = p @ name_labels domain)"

lemma domain_match_covers:
  assumes "valid_domain name" and "valid_domain domain"
  shows "domain_match_labels name domain = (if covers domain name then Some (length (name_labels domain)) else None)"
proof (cases "domain = ''.''")
  case True
  then show ?thesis by (simp add: domain_match_labels_def covers_def name_labels_def)
next
  case False
  have low: "to_ascii_lowercase n = n" if "valid_domain n" for n
    using that by (auto simp: valid_domain_def)
  have st: "(case strip_suffix domain name of Some prefix \<Rightarrow> ends_with ''.'' prefix | None \<Rightarrow> False) \<longleftrightarrow>
      (\<exists>q. name = (q @ ''.'') @ domain)"
  proof (cases "strip_suffix domain name")
    case None
    moreover have "\<nexists>q. name = (q @ ''.'') @ domain" using None strip_suffix_eq_None by metis
    ultimately show ?thesis by simp
  next
    case (Some p)
    then show ?thesis unfolding strip_suffix_eq_Some by (simp add: strip_suffix_append ends_with_iff)
  qed
  have "(eq_ignore_ascii_case name domain \<or>
      (case strip_suffix domain name of Some prefix \<Rightarrow> ends_with ''.'' prefix | None \<Rightarrow> False)) \<longleftrightarrow>
      (name = domain \<or> (\<exists>q. name = (q @ ''.'') @ domain))"
    unfolding st eq_ignore_ascii_case_def low [OF assms(1)] low [OF assms(2)] ..
  also have "\<dots> \<longleftrightarrow> (\<exists>p. split_dots name = p @ split_dots domain)" by (rule split_dots_suffix_iff)
  also have "\<dots> \<longleftrightarrow> covers domain name"
  proof (cases "name = ''.''")
    case True
    have "last (split_dots domain) \<noteq> []" using assms(2) False by (simp add: valid_domain_def)
    then have "split_dots name \<noteq> p @ split_dots domain" for p using True
      by (metis last_appendR split_dots_nonempty last.simps split_dots.simps list.distinct(1))
    then show ?thesis using True False by (simp add: covers_def name_labels_def)
  qed (simp add: covers_def name_labels_def False)
  finally show ?thesis using False by (simp add: domain_match_labels_def name_labels_def)
qed

section \<open>Lemmas: selection\<close>

text \<open>The scopes that can answer at all, with their domains.\<close>

definition candidates :: "routing_table \<Rightarrow> socket_addr list \<Rightarrow> domain list \<Rightarrow> dns_delegate list \<Rightarrow> (domain list \<times> route_scope) list" where
  "candidates t global_servers global_domains delegates =
     (if global_servers \<noteq> [] then [(global_domains, \<lparr>rs_kind = ScopeGlobal, rs_servers = global_servers\<rparr>)] else []) @
     map (\<lambda>l. (l_domains l, link_scope l)) (filter usable (table_links t)) @
     map (\<lambda>x. (del_domains (snd x), delegate_scope x)) (filter (\<lambda>x. del_servers (snd x) \<noteq> []) (enumerate 0 delegates))"

definition matched :: "string \<Rightarrow> (domain list \<times> route_scope) list \<Rightarrow> (nat \<times> route_scope) list" where
  "matched name cs = concat (map (\<lambda>(doms, scope). scored name doms scope) cs)"

lemma concat_map_filter: "concat (map (\<lambda>x. if P x then f x else []) xs) = concat (map f (filter P xs))"
  by (induction xs) auto

lemma select_eq:
  assumes "nonzero ifindex = None" and "normalize_name name = Inr n"
  shows "select t name ifindex gs fs gd ds =
    (case iter_max (map fst (matched n (candidates t gs gd ds))) of
       Some best \<Rightarrow> Inr (map snd (filter (\<lambda>(labels, _). labels = best) (matched n (candidates t gs gd ds))))
     | None \<Rightarrow>
         let scopes = (if gs \<noteq> [] then [\<lparr>rs_kind = ScopeGlobal, rs_servers = gs\<rparr>] else []) @
               map link_scope (filter (\<lambda>link. effective_default_route link \<and> usable link) (table_links t)) @
               map delegate_scope (filter (\<lambda>x. delegate_effective_default_route (snd x) \<and> del_servers (snd x) \<noteq> [])
                                     (enumerate 0 ds))
         in Inr (if scopes = [] \<and> fs \<noteq> [] then [\<lparr>rs_kind = ScopeFallback, rs_servers = fs\<rparr>] else scopes))"
proof -
  have m: "matched n (candidates t gs gd ds) =
      (if gs \<noteq> [] then scored n gd \<lparr>rs_kind = ScopeGlobal, rs_servers = gs\<rparr> else []) @
      concat (map (\<lambda>link. if usable link then scored n (l_domains link) (link_scope link) else []) (table_links t)) @
      concat (map (\<lambda>x. if del_servers (snd x) \<noteq> [] then scored n (del_domains (snd x)) (delegate_scope x) else []) (enumerate 0 ds))"
    unfolding concat_map_filter by (simp add: matched_def candidates_def comp_def)
  show ?thesis unfolding m select_def assms by (simp add: result_simps Let_def)
qed

definition domains_ok :: "(domain list \<times> route_scope) list \<Rightarrow> bool" where
  "domains_ok cs \<longleftrightarrow> (\<forall>(doms, sc) \<in> set cs. \<forall>d \<in> set doms. valid_domain (dom_name d))"

lemma best_domain_match_iff:
  assumes "valid_domain n" and "\<forall>d \<in> set doms. valid_domain (dom_name d)"
  shows "best_domain_match n doms = Some k \<longleftrightarrow>
    (\<exists>d \<in> set doms. covers (dom_name d) n \<and> length (name_labels (dom_name d)) = k) \<and>
    (\<forall>d \<in> set doms. covers (dom_name d) n \<longrightarrow> length (name_labels (dom_name d)) \<le> k)"
proof -
  have "set (List.map_filter (\<lambda>d. domain_match_labels n (dom_name d)) doms) =
      {length (name_labels (dom_name d)) | d. d \<in> set doms \<and> covers (dom_name d) n}"
    using domain_match_covers [OF assms(1)] assms(2)
    by (auto simp: List.map_filter_def split: if_splits)
  then show ?thesis unfolding best_domain_match_def iter_max_eq_Some by auto
qed

lemma set_matched:
  assumes "valid_domain n" and "domains_ok cs"
  shows "(k, sc) \<in> set (matched n cs) \<longleftrightarrow>
    (\<exists>doms. (doms, sc) \<in> set cs \<and> (\<exists>d \<in> set doms. covers (dom_name d) n \<and> length (name_labels (dom_name d)) = k) \<and>
       (\<forall>d \<in> set doms. covers (dom_name d) n \<longrightarrow> length (name_labels (dom_name d)) \<le> k))"
proof -
  have m: "(k, sc) \<in> set (matched n cs) \<longleftrightarrow> (\<exists>doms. (doms, sc) \<in> set cs \<and> best_domain_match n doms = Some k)"
    by (auto simp: matched_def scored_def split: option.splits) force
  have "best_domain_match n doms = Some k \<longleftrightarrow>
      (\<exists>d \<in> set doms. covers (dom_name d) n \<and> length (name_labels (dom_name d)) = k) \<and>
      (\<forall>d \<in> set doms. covers (dom_name d) n \<longrightarrow> length (name_labels (dom_name d)) \<le> k)"
    if "(doms, sc) \<in> set cs" for doms
    using that assms(2) by (intro best_domain_match_iff [OF assms(1)]) (auto simp: domains_ok_def)
  then show ?thesis unfolding m by blast
qed

section \<open>Lemmas: search domains\<close>

lemma append_search_domains_spec:
  "set (append_search_domains out ds) = set out \<union> {d \<in> set ds. \<not> dom_route_only d \<and> dom_name d \<noteq> ''.''}"
  "distinct out \<Longrightarrow> distinct (append_search_domains out ds)"
  by (induction ds arbitrary: out) auto

lemma fold_append_search_domains:
  "set (fold (\<lambda>l out. append_search_domains out (l_domains l)) ls out) =
     set out \<union> {d. \<exists>l \<in> set ls. d \<in> set (l_domains l) \<and> \<not> dom_route_only d \<and> dom_name d \<noteq> ''.''}"
  "distinct out \<Longrightarrow> distinct (fold (\<lambda>l out. append_search_domains out (l_domains l)) ls out)"
  by (induction ls arbitrary: out) (auto simp: append_search_domains_spec)

lemma matched_of_cover:
  assumes "valid_domain n" and "domains_ok cs" and "(doms, sc) \<in> set cs" and "d \<in> set doms" and "covers (dom_name d) n"
  shows "\<exists>k. (k, sc) \<in> set (matched n cs) \<and> length (name_labels (dom_name d)) \<le> k"
proof -
  let ?L = "(\<lambda>d. length (name_labels (dom_name d))) ` {d \<in> set doms. covers (dom_name d) n}"
  have fin: "finite ?L" by simp
  have d: "length (name_labels (dom_name d)) \<in> ?L" using assms(4,5) by blast
  then have "Max ?L \<in> ?L" using Max_in [OF fin] by blast
  then obtain d' where "d' \<in> set doms" "covers (dom_name d') n" "length (name_labels (dom_name d')) = Max ?L" by auto
  moreover have "\<forall>d \<in> set doms. covers (dom_name d) n \<longrightarrow> length (name_labels (dom_name d)) \<le> Max ?L"
    using Max_ge [OF fin] by blast
  ultimately have "(Max ?L, sc) \<in> set (matched n cs)" unfolding set_matched [OF assms(1,2)] using assms(3) by blast
  then show ?thesis using Max_ge [OF fin d] by blast
qed

lemma longest_iff:
  assumes "valid_domain n" and "domains_ok cs" and "iter_max (map fst (matched n cs)) = Some best"
  shows "(best, sc) \<in> set (matched n cs) \<longleftrightarrow>
    (\<exists>doms d. (doms, sc) \<in> set cs \<and> d \<in> set doms \<and> covers (dom_name d) n \<and>
       (\<forall>(doms', sc') \<in> set cs. \<forall>d' \<in> set doms'. covers (dom_name d') n \<longrightarrow>
          length (name_labels (dom_name d')) \<le> length (name_labels (dom_name d))))" (is "?L \<longleftrightarrow> ?R")
proof -
  note sm = set_matched [OF assms(1,2)] and cover = matched_of_cover [OF assms(1,2)]
  have "\<forall>x \<in> set (map fst (matched n cs)). x \<le> best" using assms(3) by (simp add: iter_max_eq_Some)
  then have ub: "k \<le> best" if "(k, s) \<in> set (matched n cs)" for k s using that by force
  show ?thesis
  proof
    assume ?L
    then obtain doms d where d: "(doms, sc) \<in> set cs" "d \<in> set doms" "covers (dom_name d) n"
      "length (name_labels (dom_name d)) = best" unfolding sm by blast
    have "length (name_labels (dom_name d')) \<le> best"
      if "(doms', sc') \<in> set cs" "d' \<in> set doms'" "covers (dom_name d') n" for doms' sc' d'
      using cover [OF that] ub le_trans by blast
    then show ?R using d by blast
  next
    assume ?R
    then obtain doms d where d: "(doms, sc) \<in> set cs" "d \<in> set doms" "covers (dom_name d) n"
      and mx: "\<forall>(doms', sc') \<in> set cs. \<forall>d' \<in> set doms'. covers (dom_name d') n \<longrightarrow>
          length (name_labels (dom_name d')) \<le> length (name_labels (dom_name d))" by blast
    have "best \<in> fst ` set (matched n cs)" using assms(3) by (simp add: iter_max_eq_Some)
    then obtain sc1 where "(best, sc1) \<in> set (matched n cs)" by auto
    then obtain doms1 d1 where "(doms1, sc1) \<in> set cs" "d1 \<in> set doms1" "covers (dom_name d1) n"
      "length (name_labels (dom_name d1)) = best" unfolding sm by blast
    then have le: "best \<le> length (name_labels (dom_name d))" using mx by blast
    obtain k where k: "(k, sc) \<in> set (matched n cs)" "length (name_labels (dom_name d)) \<le> k" using cover [OF d] by blast
    then have "k = best" using ub [OF k(1)] le by linarith
    then show ?L using k(1) by simp
  qed
qed

definition with_labels :: "nat \<Rightarrow> (nat \<times> route_scope) list \<Rightarrow> route_scope list" where
  "with_labels best m = map snd (filter (\<lambda>(labels, _). labels = best) m)"

lemma set_with_labels: "sc \<in> set (with_labels best m) \<longleftrightarrow> (best, sc) \<in> set m"
  by (induction m) (auto simp: with_labels_def)

lemma enumerate_snd: "(k, x) \<in> set (enumerate m xs) \<Longrightarrow> x \<in> set xs"
  by (metis image_eqI map_snd_enumerate set_map snd_conv)

lemma table_link_of:
  assumes "table_inv t" and "l \<in> set (table_links t)"
  shows "table_link t (l_ifindex l) = Some l" and "\<forall>d \<in> set (l_domains l). valid_domain (dom_name d)"
proof -
  from assms(2) obtain i where i: "(i, l) \<in> set (rt_links t)" by (auto simp: table_links_def)
  then have ok: "link_ok i l" and "distinct (map fst (rt_links t))"
    using assms(1) sorted_keys_distinct by (auto simp: table_inv_def)
  then show "table_link t (l_ifindex l) = Some l" "\<forall>d \<in> set (l_domains l). valid_domain (dom_name d)"
    using i by (auto simp: link_ok_def table_link_def)
qed

lemma select_link:
  assumes "nonzero ifindex = Some i" and "select t name ifindex gs fs gd ds = Inr scopes" and "sc \<in> set scopes"
  obtains l where "map_of (rt_links t) i = Some l" "usable l" "scopes = [\<lparr>rs_kind = ScopeLink i, rs_servers = l_dns_servers l\<rparr>]"
proof -
  have "and_then (validate_ifindex i) (\<lambda>_. and_then (ok_or (map_of (rt_links t) i) (NoSuchLink i)) (\<lambda>link.
      if l_dns_servers link = [] \<or> \<not> kernel_relevant_unicast link then Inr []
      else Inr [\<lparr>rs_kind = ScopeLink i, rs_servers = l_dns_servers link\<rparr>])) = Inr scopes"
    using assms(2) unfolding select_def assms(1) option.case .
  then show ?thesis using assms(3) that by (auto simp: result_simps usable_def split: if_splits)
qed

lemma select_normalized:
  assumes "nonzero ifindex = None" and "select t name ifindex gs fs gd ds = Inr scopes"
  obtains n where "normalize_name name = Inr n"
proof (cases "normalize_name name")
  case (Inl e)
  show ?thesis using assms(2) unfolding select_def assms(1) Inl option.case by (simp add: result_simps)
qed (rule that)

lemma map_of_filter_keys:
  assumes "distinct (map fst m)"
  shows "map_of (filter P m) k = (case map_of m k of None \<Rightarrow> None | Some v \<Rightarrow> if P (k, v) then Some v else None)"
  using assms by (induction m) (auto simp: map_of_eq_None_iff split: option.splits)

lemma candidate_usable:
  assumes "table_inv t" and "s \<in> snd ` set (candidates t gs gd ds)"
  shows "rs_servers s \<noteq> [] \<and> rs_kind s \<noteq> ScopeFallback \<and>
    (\<forall>i. rs_kind s = ScopeLink i \<longrightarrow> (\<exists>l. table_link t i = Some l \<and> usable l \<and> rs_servers s = l_dns_servers l))"
proof -
  consider (global) "gs \<noteq> []" "s = \<lparr>rs_kind = ScopeGlobal, rs_servers = gs\<rparr>"
    | (link) l where "l \<in> set (table_links t)" "usable l" "s = link_scope l"
    | (delegate) x where "del_servers (snd x) \<noteq> []" "s = delegate_scope x"
    using assms(2) by (auto simp: candidates_def split: if_splits)
  then show ?thesis
  proof cases
    case link
    then show ?thesis using table_link_of(1) [OF assms(1) link(1)] by (simp add: link_scope_def usable_def)
  qed (simp_all add: delegate_scope_def)
qed

lemma matched_candidate: "(k, s) \<in> set (matched n cs) \<Longrightarrow> s \<in> snd ` set cs"
  by (auto simp: matched_def scored_def split: option.splits) force

lemma default_candidates:
  "set ((if gs \<noteq> [] then [\<lparr>rs_kind = ScopeGlobal, rs_servers = gs\<rparr>] else []) @
        map link_scope (filter (\<lambda>link. effective_default_route link \<and> usable link) (table_links t)) @
        map delegate_scope (filter (\<lambda>x. delegate_effective_default_route (snd x) \<and> del_servers (snd x) \<noteq> []) (enumerate 0 ds)))
     \<subseteq> snd ` set (candidates t gs gd ds)"
  unfolding candidates_def set_append image_Un set_map set_filter image_image
  by (intro Un_mono) (auto simp: image_iff)

section \<open>Properties\<close>

definition ex_server :: socket_addr where "ex_server = SockV4 0xC0000201 53"

definition ex_domain :: domain where "ex_domain = \<lparr>dom_name = ''corp'', dom_route_only = True\<rparr>"

definition ex_link :: link_state where
  "ex_link = \<lparr>l_ifindex = 3, l_dns_servers = [ex_server], l_domains = [ex_domain], l_default_route = None,
     l_llmnr = SupportYes, l_multicast_dns = SupportYes, l_dns_over_tls = TlsNo,
     l_dnssec = ValidationAllowDowngrade, l_dnssec_negative_trust_anchors = [], l_kernel = None\<rparr>"

definition ex_table :: routing_table where
  "ex_table = \<lparr>rt_links = [(3, ex_link)], rt_kernel_synchronized = False\<rparr>"

lemma ex_normalize: "normalize_name ''a.corp'' = Inr ''a.corp''" "normalize_name ''corp'' = Inr ''corp''"
  by code_simp+

lemma ex_table_reachable: "table_reachable ex_table"
proof -
  have 1: "snd (set_dns routing_table_default 3 [ex_server]) =
      \<lparr>rt_links = [(3, ex_link\<lparr>l_domains := []\<rparr>)], rt_kernel_synchronized = False\<rparr>"
    by (simp add: set_dns_def set_field_def link_mut_def routing_table_default_def link_state_new_def validate_ifindex_def
        result_simps push_new_def normalize_server_def ex_server_def put_link_def ex_link_def)
  have "normalize_domain ex_domain = Inr ex_domain"
    by (simp add: normalize_domain_def ex_domain_def ex_normalize result_simps)
  then have 2: "snd (set_domains \<lparr>rt_links = [(3, ex_link\<lparr>l_domains := []\<rparr>)], rt_kernel_synchronized = False\<rparr> 3 [ex_domain]) = ex_table"
    by (simp add: set_domains_def set_field_def link_mut_def validate_ifindex_def result_simps push_new_def put_link_def
        ex_table_def ex_link_def)
  let ?t = "\<lparr>rt_links = [(3, ex_link\<lparr>l_domains := []\<rparr>)], rt_kernel_synchronized = False\<rparr>"
  have "table_step routing_table_default ?t"
    using table_step.intros(1) [of routing_table_default 3 "[ex_server]"] by (simp only: 1)
  moreover have "table_step ?t ex_table" using table_step.intros(2) [of ?t 3 "[ex_domain]"] by (simp only: 2)
  ultimately show ?thesis using table_start table_next by blast
qed

text \<open>
  C33: The routing table stays well formed. In every state that the operations reach, also by failing ones,
  the links are in the order of their positive interface index and carry that index, a link lists no server,
  domain or trust anchor twice, every domain and trust anchor is the root or lower-case ASCII labels within
  the limits of DNS, and the kernel state of a link is that of its own interface.
\<close>

theorem routing_table_well_formed:
  assumes "table_reachable t"
  shows "sorted_wrt (<) (map fst (rt_links t)) \<and>
    (\<forall>(i, l) \<in> set (rt_links t). 0 < i \<and> l_ifindex l = i \<and> distinct (l_dns_servers l) \<and> distinct (l_domains l) \<and>
       distinct (l_dnssec_negative_trust_anchors l) \<and>
       (\<forall>n \<in> dom_name ` set (l_domains l) \<union> set (l_dnssec_negative_trust_anchors l).
          n = ''.'' \<or> (is_ascii n \<and> to_ascii_lowercase n = n \<and> length n \<le> 253 \<and>
                       (\<forall>label \<in> set (split_dots n). label \<noteq> [] \<and> length label \<le> 63))) \<and>
       (\<forall>k. l_kernel l = Some k \<longrightarrow> k_ifindex k = i))"
  unfolding valid_domain_def [symmetric]
  using table_reachable_inv [OF assms] by (fastforce simp: table_inv_def sorted_keys_def link_ok_def)

theorem routing_table_well_formed_witness:
  "table_reachable ex_table \<and> (3, ex_link) \<in> set (rt_links ex_table) \<and> l_ifindex ex_link = 3 \<and> distinct (l_domains ex_link)"
proof -
  have "(3, ex_link) \<in> set (rt_links ex_table)" by (simp add: ex_table_def)
  with ex_table_reachable routing_table_well_formed [OF ex_table_reachable] show ?thesis by auto
qed

text \<open>
  C34: The selection is the longest match on labels. If some usable scope has a domain whose labels end the
  labels of the name, the selected scopes are exactly the usable ones with a longest such domain, and there
  is at least one. So a name below a link's routing domain never goes to another scope, the global servers
  included, unless that scope has a domain at least as specific.
\<close>

theorem select_longest_match:
  assumes "nonzero ifindex = None" and "normalize_name name = Inr n"
    and "table_inv t" and "\<forall>d \<in> set gd. valid_domain (dom_name d)"
    and "\<forall>delegate \<in> set ds. \<forall>d \<in> set (del_domains delegate). valid_domain (dom_name d)"
    and "(doms0, sc0) \<in> set (candidates t gs gd ds)" and "d0 \<in> set doms0" and "covers (dom_name d0) n"
  shows "\<exists>scopes. select t name ifindex gs fs gd ds = Inr scopes \<and> scopes \<noteq> [] \<and>
    (\<forall>sc. sc \<in> set scopes \<longleftrightarrow>
       (\<exists>doms d. (doms, sc) \<in> set (candidates t gs gd ds) \<and> d \<in> set doms \<and> covers (dom_name d) n \<and>
          (\<forall>(doms', sc') \<in> set (candidates t gs gd ds). \<forall>d' \<in> set doms'. covers (dom_name d') n \<longrightarrow>
             length (name_labels (dom_name d')) \<le> length (name_labels (dom_name d)))))"
proof -
  let ?cs = "candidates t gs gd ds" let ?m = "matched n ?cs"
  have n: "valid_domain n" using assms(2) by (rule normalize_name_valid)
  have "\<forall>l \<in> set (table_links t). \<forall>d \<in> set (l_domains l). valid_domain (dom_name d)"
    using table_link_of(2) [OF assms(3)] by blast
  then have ok: "domains_ok ?cs"
    using assms(4,5) by (auto simp: domains_ok_def candidates_def split: if_splits dest!: enumerate_snd)
  have "?m \<noteq> []" using matched_of_cover [OF n ok assms(6-8)] by auto
  then obtain best where best: "iter_max (map fst ?m) = Some best" by (cases "iter_max (map fst ?m)") auto
  then have "best \<in> fst ` set ?m" by (simp add: iter_max_eq_Some)
  then obtain sc1 where sc1: "(best, sc1) \<in> set ?m" by auto
  have mem: "sc \<in> set (with_labels best ?m) \<longleftrightarrow> (best, sc) \<in> set ?m" for sc by (rule set_with_labels)
  have "select t name ifindex gs fs gd ds = Inr (with_labels best ?m)"
    unfolding select_eq [OF assms(1,2)] best by (simp add: with_labels_def)
  moreover have "with_labels best ?m \<noteq> []" using sc1 mem by force
  ultimately show ?thesis unfolding longest_iff [OF n ok best, symmetric] mem [symmetric] by blast
qed

theorem select_longest_match_witness:
  "\<exists>scopes. select ex_table ''a.corp'' None [ex_server] [] [] [] = Inr scopes \<and> link_scope ex_link \<in> set scopes"
proof -
  have c: "candidates ex_table [ex_server] [] [] =
      [([], \<lparr>rs_kind = ScopeGlobal, rs_servers = [ex_server]\<rparr>), ([ex_domain], link_scope ex_link)]"
    by (simp add: candidates_def ex_table_def table_links_def usable_def kernel_relevant_unicast_def ex_link_def)
  have cov: "covers (dom_name ex_domain) ''a.corp''"
    by (auto simp: covers_def name_labels_def ex_domain_def)
  have "nonzero None = None" by (simp add: nonzero_def)
  from select_longest_match [OF this ex_normalize(1) table_reachable_inv [OF ex_table_reachable], of "[]" "[]"
      "[ex_domain]" "link_scope ex_link" "[ex_server]" ex_domain "[]", unfolded c] cov
  obtain scopes where "select ex_table ''a.corp'' None [ex_server] [] [] [] = Inr scopes"
    and "\<forall>sc. sc \<in> set scopes \<longleftrightarrow> (\<exists>doms d. (doms, sc) \<in> set [([], \<lparr>rs_kind = ScopeGlobal, rs_servers = [ex_server]\<rparr>), ([ex_domain], link_scope ex_link)] \<and>
        d \<in> set doms \<and> covers (dom_name d) ''a.corp'' \<and>
        (\<forall>(doms', sc') \<in> set [([], \<lparr>rs_kind = ScopeGlobal, rs_servers = [ex_server]\<rparr>), ([ex_domain], link_scope ex_link)].
           \<forall>d' \<in> set doms'. covers (dom_name d') ''a.corp'' \<longrightarrow> length (name_labels (dom_name d')) \<le> length (name_labels (dom_name d))))"
    by auto
  then show ?thesis using cov by (auto intro!: exI [of _ "[ex_domain]"])
qed

text \<open>
  C35: Every selected scope can be asked. Whatever \<open>select\<close> returns has servers; a link scope names a link
  of the table that is usable, with the servers of that link, and is the requested one if the caller named
  an interface; and the fallback servers are used only alone, when there is no global server, no usable
  default-route link and no default-route delegate.
\<close>

theorem select_scopes_usable:
  assumes "table_inv t" and "select t name ifindex gs fs gd ds = Inr scopes" and "sc \<in> set scopes"
  shows "rs_servers sc \<noteq> [] \<and>
    (\<forall>i. rs_kind sc = ScopeLink i \<longrightarrow> (\<exists>l. table_link t i = Some l \<and> usable l \<and> rs_servers sc = l_dns_servers l) \<and>
       (nonzero ifindex \<noteq> None \<longrightarrow> nonzero ifindex = Some i)) \<and>
    (nonzero ifindex \<noteq> None \<longrightarrow> (\<exists>i. rs_kind sc = ScopeLink i)) \<and>
    (rs_kind sc = ScopeFallback \<longrightarrow> scopes = [sc] \<and> gs = [] \<and>
       (\<forall>l \<in> set (table_links t). \<not> (effective_default_route l \<and> usable l)) \<and>
       (\<forall>delegate \<in> set ds. \<not> (delegate_effective_default_route delegate \<and> del_servers delegate \<noteq> [])))"
proof (cases "nonzero ifindex")
  case (Some i)
  obtain l where "map_of (rt_links t) i = Some l" "usable l" "scopes = [\<lparr>rs_kind = ScopeLink i, rs_servers = l_dns_servers l\<rparr>]"
    by (rule select_link [OF Some assms(2,3)])
  then show ?thesis using Some assms(3) by (simp add: usable_def table_link_def)
next
  case None
  obtain n where n: "normalize_name name = Inr n" by (rule select_normalized [OF None assms(2)])
  note link = table_link_of(1) [OF assms(1)]
  note cand = candidate_usable [OF assms(1)]
  show ?thesis
  proof (cases "iter_max (map fst (matched n (candidates t gs gd ds)))")
    case (Some best)
    then have "sc \<in> snd ` set (candidates t gs gd ds)"
      using assms(2,3) select_eq [OF None n] matched_candidate by auto
    then show ?thesis using cand None by blast
  next
    case no: None
    let ?ls = "filter (\<lambda>link. effective_default_route link \<and> usable link) (table_links t)"
    let ?ds = "filter (\<lambda>x. delegate_effective_default_route (snd x) \<and> del_servers (snd x) \<noteq> []) (enumerate 0 ds)"
    let ?scopes = "(if gs \<noteq> [] then [\<lparr>rs_kind = ScopeGlobal, rs_servers = gs\<rparr>] else []) @ map link_scope ?ls @ map delegate_scope ?ds"
    have eq: "scopes = (if ?scopes = [] \<and> fs \<noteq> [] then [\<lparr>rs_kind = ScopeFallback, rs_servers = fs\<rparr>] else ?scopes)"
      using assms(2) select_eq [OF None n] no by (simp add: Let_def)
    have sub: "set ?scopes \<subseteq> snd ` set (candidates t gs gd ds)" by (rule default_candidates)
    show ?thesis
    proof (cases "?scopes = [] \<and> fs \<noteq> []")
      case True
      have "\<forall>delegate \<in> set ds. \<not> (delegate_effective_default_route delegate \<and> del_servers delegate \<noteq> [])"
      proof
        fix delegate assume "delegate \<in> set ds"
        then obtain k where "(k, delegate) \<in> set (enumerate 0 ds)"
          by (metis in_set_impl_in_set_zip2 length_upt add.left_neutral diff_zero enumerate_eq_zip)
        then show "\<not> (delegate_effective_default_route delegate \<and> del_servers delegate \<noteq> [])"
          using True by (auto simp: filter_empty_conv)
      qed
      then show ?thesis using True eq assms(3) None by (auto simp: filter_empty_conv split: if_splits)
    next
      case False
      have "scopes = ?scopes" using eq unfolding if_not_P [OF False] .
      then have "sc \<in> snd ` set (candidates t gs gd ds)" using assms(3) sub by blast
      then show ?thesis using cand None by blast
    qed
  qed
qed

theorem select_scopes_usable_witness:
  "select ex_table ''a'' (Some 3) [] [] [] [] = Inr [link_scope ex_link] \<and> rs_servers (link_scope ex_link) \<noteq> []"
proof -
  have s: "select ex_table ''a'' (Some 3) [] [] [] [] = Inr [link_scope ex_link]"
    by (simp add: select_def nonzero_def validate_ifindex_def ex_table_def result_simps ok_or_def
        kernel_relevant_unicast_def ex_link_def link_scope_def)
  with select_scopes_usable [OF table_reachable_inv [OF ex_table_reachable] s, of "link_scope ex_link"] show ?thesis by simp
qed


definition ex_kernel :: kernel_link_state where
  "ex_kernel = \<lparr>k_ifindex = 3, k_ifname = ''eth0'', k_flags = 0x10041, k_mtu = 1500, k_operstate = 6,
     k_has_ipv4_global = True, k_has_ipv4_link_local = False, k_has_ipv6_global = False, k_has_ipv6_link_local = False\<rparr>"


text \<open>
  The search list. For an interface it holds the domains of its link, otherwise the global domains and
  those of all links; in both cases without the routing-only domains and the root, and no domain twice.
\<close>

theorem search_domains_exact:
  assumes "search_domains t gd ifindex = Inr ds"
  shows "distinct ds \<and>
    set ds = {d. \<not> dom_route_only d \<and> dom_name d \<noteq> ''.'' \<and>
      (case nonzero ifindex of
         Some i \<Rightarrow> \<exists>l. table_link t i = Some l \<and> d \<in> set (l_domains l)
       | None \<Rightarrow> d \<in> set gd \<or> (\<exists>l \<in> set (table_links t). d \<in> set (l_domains l)))}"
proof (cases "nonzero ifindex")
  case None
  then have "ds = fold (\<lambda>link out. append_search_domains out (l_domains link)) (table_links t) (append_search_domains [] gd)"
    using assms by (simp add: search_domains_def)
  then show ?thesis using None by (auto simp: fold_append_search_domains append_search_domains_spec)
next
  case (Some i)
  then obtain l where "map_of (rt_links t) i = Some l" "ds = append_search_domains [] (l_domains l)"
    using assms by (auto simp: search_domains_def result_simps)
  then show ?thesis using Some by (auto simp: append_search_domains_spec table_link_def)
qed

theorem search_domains_exact_witness:
  "search_domains ex_table [ex_domain\<lparr>dom_route_only := False\<rparr>] None = Inr [ex_domain\<lparr>dom_route_only := False\<rparr>] \<and>
   distinct [ex_domain\<lparr>dom_route_only := False\<rparr>]"
proof -
  have s: "search_domains ex_table [ex_domain\<lparr>dom_route_only := False\<rparr>] None = Inr [ex_domain\<lparr>dom_route_only := False\<rparr>]"
    by (simp add: search_domains_def nonzero_def table_links_def ex_table_def ex_link_def ex_domain_def)
  with search_domains_exact [OF s] show ?thesis by simp
qed

text \<open>
  A setter that fails on a bad domain has already added the link: the caller sees an error and the table
  has a new link with the defaults.
\<close>

lemma set_domains_failure_adds_link:
  "\<exists>e t'. set_domains routing_table_default 7 [\<lparr>dom_name = ''a..b'', dom_route_only = False\<rparr>] = (Inl e, t') \<and>
     table_link routing_table_default 7 = None \<and> table_link t' 7 \<noteq> None"
proof -
  obtain e where e: "normalize_name ''a..b'' = Inl e"
  proof -
    have "normalize_name ''a..b'' = Inl (InvalidDomain ''a..b'')" by code_simp
    then show ?thesis by (rule that)
  qed
  then show ?thesis
    by (simp add: set_domains_def set_field_def link_mut_def validate_ifindex_def routing_table_default_def
        link_state_new_def normalize_domain_def result_simps table_link_def)
qed

end
