(* ===== verification/Split_Dns.thy ===== *)
theory Split_Dns
  imports Config_Types
begin

text \<open>
  Split-horizon routing (\<open>src/src/split_dns.rs\<close>): rules that send a name to the links of its longest
  matching suffix, the search list, and the expansion of short names. The properties: the picked links are
  exactly those of the longest suffix with the best priority, a name that matches nothing never leaves when
  the default route is not allowed, the rules never hold a suffix twice for a link, and the expansion
  lists every candidate once and in the order that \<open>ndots\<close> asks for.
\<close>

section \<open>Rules\<close>

record domain_rule =
  dr_suffix :: string
  dr_ifindex :: int
  dr_search :: bool
  dr_route_only :: bool
  dr_priority :: int

datatype pick = PickLinks "int list" | DefaultRoute | Blackhole

record split_dns_table =
  sd_rules :: "domain_rule list"
  sd_default_route_ifindices :: "int list"
  sd_allow_default :: bool
  sd_ndots :: nat
  sd_search :: "string list"

definition split_dns_default :: split_dns_table where
  "split_dns_default = \<lparr>sd_rules = [], sd_default_route_ifindices = [], sd_allow_default = True, sd_ndots = 1, sd_search = []\<rparr>"

definition split_normalize_name :: "string \<Rightarrow> string" where
  "split_normalize_name name = to_ascii_lowercase (trim_end_dots (trim name))"

definition suffix_match_len :: "string \<Rightarrow> string \<Rightarrow> nat option" where
  "suffix_match_len name suffix =
     (let n = split_normalize_name name;
          d = split_normalize_name suffix
      in if d = [] \<or> d = ''.'' then None
         else if n = d then Some (length d)
         else if ends_with (''.'' @ d) n then Some (length d)
         else None)"

section \<open>Picking links\<close>

text \<open>The loop over the rules: the longest match so far, its best priority, and the hits at that length.\<close>

fun pick_loop :: "string \<Rightarrow> domain_rule list \<Rightarrow> int \<Rightarrow> int \<Rightarrow> (int \<times> int) list \<Rightarrow> (int \<times> int) list" where
  "pick_loop name [] best_len best_prio hits = hits"
| "pick_loop name (r # rules) best_len best_prio hits =
     (case suffix_match_len name (dr_suffix r) of
        None \<Rightarrow> pick_loop name rules best_len best_prio hits
      | Some len \<Rightarrow>
          let len_i = int len in
          if len_i > best_len then pick_loop name rules len_i (dr_priority r) [(dr_ifindex r, dr_priority r)]
          else if len_i = best_len then
            pick_loop name rules best_len (if dr_priority r < best_prio then dr_priority r else best_prio)
              (hits @ [(dr_ifindex r, dr_priority r)])
          else pick_loop name rules best_len best_prio hits)"

definition pick_links_for_name :: "string \<Rightarrow> domain_rule list \<Rightarrow> int list \<Rightarrow> bool \<Rightarrow> pick" where
  "pick_links_for_name name rules default_route_links allow_default =
     (let hits = pick_loop name rules (- 1) 2147483647 [] in
      if hits \<noteq> [] then
        let min_p = (case iter_min (map snd hits) of Some p \<Rightarrow> p | None \<Rightarrow> 0);
            links = map fst (filter (\<lambda>h. snd h = min_p) hits)
        in PickLinks (remdups_adj (sort links))
      else if allow_default then DefaultRoute
      else Blackhole)"

definition sd_pick :: "split_dns_table \<Rightarrow> string \<Rightarrow> pick" where
  "sd_pick t name = pick_links_for_name name (sd_rules t) (sd_default_route_ifindices t) (sd_allow_default t)"

definition would_leak_to_uplink :: "string \<Rightarrow> domain_rule list \<Rightarrow> bool" where
  "would_leak_to_uplink name rules \<longleftrightarrow> (case pick_links_for_name name rules [] False of PickLinks _ \<Rightarrow> True | _ \<Rightarrow> False)"

section \<open>Search expansion\<close>

definition expand_search :: "string \<Rightarrow> string list \<Rightarrow> nat \<Rightarrow> string list" where
  "expand_search name search ndots =
     (let raw = trim name in
      if raw = [] then []
      else if ends_with ''.'' raw then [split_normalize_name raw]
      else
        let n = split_normalize_name raw;
            dots = length (filter (\<lambda>c. c = CHR ''.'') n);
            suffixes = filter (\<lambda>s. s \<noteq> [] \<and> s \<noteq> ''.'') (map split_normalize_name search);
            out = (if dots \<ge> ndots then [n] else []) @ map (\<lambda>s. n @ ''.'' @ s) suffixes
                    @ (if dots < ndots then [n] else [])
        in fold push_new out [])"

definition search_list :: "split_dns_table \<Rightarrow> string list" where
  "search_list t =
     (let s = sd_search t @ map dr_suffix (filter (\<lambda>r. dr_search r \<and> \<not> dr_route_only r) (sd_rules t));
          s = filter (\<lambda>x. x \<noteq> [] \<and> x \<noteq> ''.'') (map split_normalize_name s)
      in fold push_new s [])"

definition sd_expand :: "split_dns_table \<Rightarrow> string \<Rightarrow> string list" where
  "sd_expand t name = expand_search name (search_list t) (sd_ndots t)"

section \<open>Changing the rules\<close>

definition same_rule :: "domain_rule \<Rightarrow> domain_rule \<Rightarrow> bool" where
  "same_rule r rule \<longleftrightarrow> dr_ifindex r = dr_ifindex rule \<and>
     split_normalize_name (dr_suffix r) = split_normalize_name (dr_suffix rule)"

fun upsert :: "domain_rule \<Rightarrow> domain_rule list \<Rightarrow> domain_rule list" where
  "upsert rule [] = [rule]"
| "upsert rule (r # rules) = (if same_rule r rule then rule # rules else r # upsert rule rules)"

definition upsert_rule :: "split_dns_table \<Rightarrow> domain_rule \<Rightarrow> split_dns_table" where
  "upsert_rule t rule = t\<lparr>sd_rules := upsert rule (sd_rules t)\<rparr>"

definition clear_link :: "split_dns_table \<Rightarrow> int \<Rightarrow> split_dns_table" where
  "clear_link t ifindex =
     t\<lparr>sd_rules := filter (\<lambda>r. dr_ifindex r \<noteq> ifindex) (sd_rules t),
       sd_default_route_ifindices := filter (\<lambda>i. i \<noteq> ifindex) (sd_default_route_ifindices t)\<rparr>"

section \<open>Lemmas\<close>

text \<open>A rule matches a name when the name's labels end in the labels of its suffix.\<close>

definition rule_matches :: "string \<Rightarrow> domain_rule \<Rightarrow> bool" where
  "rule_matches name r \<longleftrightarrow>
     (let n = split_normalize_name name; d = split_normalize_name (dr_suffix r)
      in d \<noteq> [] \<and> d \<noteq> ''.'' \<and> (\<exists>p. split_dots n = p @ split_dots d))"

definition suffix_len :: "domain_rule \<Rightarrow> nat" where
  "suffix_len r = length (split_normalize_name (dr_suffix r))"

lemma suffix_match_len_eq:
  "suffix_match_len name (dr_suffix r) = (if rule_matches name r then Some (suffix_len r) else None)"
proof -
  have "n = d \<or> ends_with (''.'' @ d) n \<longleftrightarrow> (\<exists>p. split_dots n = p @ split_dots d)" for n d
    using split_dots_suffix_iff [of n d] by (simp add: ends_with_iff)
  then show ?thesis by (auto simp: suffix_match_len_def rule_matches_def suffix_len_def Let_def)
qed

text \<open>The matching rules with a longest suffix, in the order of the rules.\<close>

definition longest_rules :: "string \<Rightarrow> domain_rule list \<Rightarrow> domain_rule list" where
  "longest_rules name rules =
     filter (\<lambda>r. rule_matches name r \<and> (\<forall>r' \<in> set rules. rule_matches name r' \<longrightarrow> suffix_len r' \<le> suffix_len r)) rules"

lemma pick_loop_spec:
  assumes "\<forall>r \<in> set seen. rule_matches name r \<longrightarrow> int (suffix_len r) \<le> best_len"
    and "hits = map (\<lambda>r. (dr_ifindex r, dr_priority r)) (filter (\<lambda>r. rule_matches name r \<and> int (suffix_len r) = best_len) seen)"
    and "best_len = - 1 \<or> hits \<noteq> []"
  shows "pick_loop name rules best_len best_prio hits =
    map (\<lambda>r. (dr_ifindex r, dr_priority r)) (longest_rules name (seen @ rules))"
  using assms
proof (induction rules arbitrary: seen best_len best_prio hits)
  case Nil
  have "filter (\<lambda>r. rule_matches name r \<and> int (suffix_len r) = best_len) seen = longest_rules name seen"
    unfolding longest_rules_def
  proof (rule filter_cong [OF refl])
    fix r assume r: "r \<in> set seen"
    show "(rule_matches name r \<and> int (suffix_len r) = best_len) =
        (rule_matches name r \<and> (\<forall>r' \<in> set seen. rule_matches name r' \<longrightarrow> suffix_len r' \<le> suffix_len r))"
    proof
      assume "rule_matches name r \<and> int (suffix_len r) = best_len"
      then show "rule_matches name r \<and> (\<forall>r' \<in> set seen. rule_matches name r' \<longrightarrow> suffix_len r' \<le> suffix_len r)"
        using Nil.prems(1) by force
    next
      assume a: "rule_matches name r \<and> (\<forall>r' \<in> set seen. rule_matches name r' \<longrightarrow> suffix_len r' \<le> suffix_len r)"
      then have le: "int (suffix_len r) \<le> best_len" using Nil.prems(1) r by blast
      then have "hits \<noteq> []" using Nil.prems(3) by auto
      then obtain r' where "r' \<in> set seen" "rule_matches name r'" "int (suffix_len r') = best_len"
        using Nil.prems(2) by (auto simp: filter_empty_conv)
      then show "rule_matches name r \<and> int (suffix_len r) = best_len" using a le by force
    qed
  qed
  then show ?case using Nil.prems(2) by simp
next
  case (Cons r rules)
  note IH = Cons.IH [of "seen @ [r]", unfolded append.assoc append.append_Cons append.append_Nil]
  show ?case
  proof (cases "rule_matches name r")
    case False
    then have "pick_loop name (r # rules) best_len best_prio hits = pick_loop name rules best_len best_prio hits"
      by (simp add: suffix_match_len_eq)
    also have "\<dots> = map (\<lambda>r. (dr_ifindex r, dr_priority r)) (longest_rules name (seen @ r # rules))"
      by (rule IH) (use False Cons.prems in auto)
    finally show ?thesis .
  next
    case match: True
    consider (gt) "int (suffix_len r) > best_len" | (eq) "int (suffix_len r) = best_len" | (lt) "int (suffix_len r) < best_len" by linarith
    then show ?thesis
    proof cases
      case gt
      then have "pick_loop name (r # rules) best_len best_prio hits =
          pick_loop name rules (int (suffix_len r)) (dr_priority r) [(dr_ifindex r, dr_priority r)]"
        using match by (simp add: suffix_match_len_eq)
      also have "\<dots> = map (\<lambda>r. (dr_ifindex r, dr_priority r)) (longest_rules name (seen @ r # rules))"
      proof (rule IH)
        have "filter (\<lambda>x. rule_matches name x \<and> int (suffix_len x) = int (suffix_len r)) seen = []"
          using Cons.prems(1) gt by (force simp: filter_empty_conv)
        then show "[(dr_ifindex r, dr_priority r)] = map (\<lambda>r. (dr_ifindex r, dr_priority r))
            (filter (\<lambda>x. rule_matches name x \<and> int (suffix_len x) = int (suffix_len r)) (seen @ [r]))"
          using match by simp
      qed (use Cons.prems(1) gt in force)+
      finally show ?thesis .
    next
      case eq
      obtain bp where "pick_loop name (r # rules) best_len best_prio hits =
          pick_loop name rules best_len bp (hits @ [(dr_ifindex r, dr_priority r)])"
        using match eq by (simp add: suffix_match_len_eq Let_def)
      also have "\<dots> = map (\<lambda>r. (dr_ifindex r, dr_priority r)) (longest_rules name (seen @ r # rules))"
        by (rule IH) (use match eq Cons.prems in auto)
      finally show ?thesis .
    next
      case lt
      then have "pick_loop name (r # rules) best_len best_prio hits = pick_loop name rules best_len best_prio hits"
        using match by (simp add: suffix_match_len_eq)
      also have "\<dots> = map (\<lambda>r. (dr_ifindex r, dr_priority r)) (longest_rules name (seen @ r # rules))"
        by (rule IH) (use lt match Cons.prems in auto)
      finally show ?thesis .
    qed
  qed
qed

lemma pick_hits: "pick_loop name rules (- 1) p [] = map (\<lambda>r. (dr_ifindex r, dr_priority r)) (longest_rules name rules)"
  using pick_loop_spec [of "[]" name "- 1" "[]" rules p] by simp

lemma longest_rules_empty: "longest_rules name rules = [] \<longleftrightarrow> (\<forall>r \<in> set rules. \<not> rule_matches name r)"
proof
  assume e: "longest_rules name rules = []"
  show "\<forall>r \<in> set rules. \<not> rule_matches name r"
  proof (rule ccontr)
    assume "\<not> ?thesis"
    then have ne: "suffix_len ` {r \<in> set rules. rule_matches name r} \<noteq> {}" by blast
    let ?k = "Max (suffix_len ` {r \<in> set rules. rule_matches name r})"
    have "?k \<in> suffix_len ` {r \<in> set rules. rule_matches name r}" using ne by (intro Max_in) auto
    then obtain r where "r \<in> set rules" "rule_matches name r" "suffix_len r = ?k" by auto
    moreover have "suffix_len r' \<le> ?k" if "r' \<in> set rules" "rule_matches name r'" for r'
      using that by (intro Max_ge) auto
    ultimately have "r \<in> set (longest_rules name rules)" by (simp add: longest_rules_def)
    then show False using e by simp
  qed
qed (auto simp: longest_rules_def)

text \<open>Rules are kept apart by their link and suffix.\<close>

definition rule_key :: "domain_rule \<Rightarrow> int \<times> string" where
  "rule_key r = (dr_ifindex r, split_normalize_name (dr_suffix r))"

lemma same_rule_key: "same_rule r rule \<longleftrightarrow> rule_key r = rule_key rule"
  by (auto simp: same_rule_def rule_key_def)

lemma keys_upsert: "rule_key ` set (upsert rule rules) = insert (rule_key rule) (rule_key ` set rules)"
  by (induction rules) (auto simp: same_rule_key)

lemma upsert_distinct: "distinct (map rule_key rules) \<Longrightarrow> distinct (map rule_key (upsert rule rules))"
proof (induction rules)
  case (Cons r rules)
  have "rule_key r \<notin> rule_key ` set (upsert rule rules)" if "rule_key r \<noteq> rule_key rule"
    using that Cons.prems by (simp add: keys_upsert)
  then show ?case using Cons by (auto simp: same_rule_key)
qed simp

lemma upsert_set:
  "distinct (map rule_key rules) \<Longrightarrow>
     set (upsert rule rules) = insert rule {r \<in> set rules. rule_key r \<noteq> rule_key rule}"
proof (induction rules)
  case (Cons r rules)
  have "rule_key x \<noteq> rule_key rule" if "x \<in> set rules" "rule_key r = rule_key rule" for x
    using that Cons.prems by (auto simp: image_iff)
  then show ?case using Cons by (auto simp: same_rule_key)
qed simp

lemma distinct_remdups_adj_sorted: "sorted xs \<Longrightarrow> distinct (remdups_adj xs)" for xs :: "'a::linorder list"
proof (induction xs rule: remdups_adj.induct)
  case (3 x y xs)
  then show ?case by (auto dest: order.antisym)
qed auto

section \<open>Properties\<close>

definition ex_rules :: "domain_rule list" where
  "ex_rules = [\<lparr>dr_suffix = ''corp'', dr_ifindex = 3, dr_search = True, dr_route_only = False, dr_priority = 5\<rparr>,
               \<lparr>dr_suffix = ''eu.corp'', dr_ifindex = 4, dr_search = False, dr_route_only = True, dr_priority = 5\<rparr>]"

text \<open>
  C37: Longest suffix wins. The links picked for a name are, sorted and each once, exactly those of the rules
  whose suffix labels end the name's labels, with no longer such suffix in the table and no better priority
  among the equally long ones. A name that no rule covers goes to the default route if that is allowed and
  nowhere otherwise, so a name under a private suffix never reaches the default route.
\<close>

theorem pick_links_longest_suffix:
  "case sd_pick t name of
     PickLinks links \<Rightarrow>
       sorted links \<and> distinct links \<and> links \<noteq> [] \<and>
       set links = {dr_ifindex r | r. r \<in> set (sd_rules t) \<and> rule_matches name r \<and>
         (\<forall>r' \<in> set (sd_rules t). rule_matches name r' \<longrightarrow>
            suffix_len r' < suffix_len r \<or> suffix_len r' = suffix_len r \<and> dr_priority r \<le> dr_priority r')}
   | DefaultRoute \<Rightarrow> sd_allow_default t \<and> (\<forall>r \<in> set (sd_rules t). \<not> rule_matches name r)
   | Blackhole \<Rightarrow> \<not> sd_allow_default t \<and> (\<forall>r \<in> set (sd_rules t). \<not> rule_matches name r)"
proof (cases "longest_rules name (sd_rules t) = []")
  case True
  then show ?thesis using longest_rules_empty [of name "sd_rules t"]
    by (simp add: sd_pick_def pick_links_for_name_def pick_hits)
next
  case False
  let ?L = "longest_rules name (sd_rules t)"
  obtain p where p: "iter_min (map dr_priority ?L) = Some p"
    using False by (cases "iter_min (map dr_priority ?L)") auto
  then have mn: "p \<in> dr_priority ` set ?L" "\<forall>r \<in> set ?L. p \<le> dr_priority r" by (auto simp: iter_min_eq_Some)
  let ?links = "map dr_ifindex (filter (\<lambda>r. dr_priority r = p) ?L)"
  have pick: "sd_pick t name = PickLinks (remdups_adj (sort ?links))"
    using False p by (simp add: sd_pick_def pick_links_for_name_def pick_hits comp_def filter_map)
  have "?links \<noteq> []" using mn(1) by (auto simp: filter_empty_conv)
  then have ne: "remdups_adj (sort ?links) \<noteq> []" by (metis remdups_adj_Nil_iff length_sort length_0_conv)
  have mem: "r \<in> set (filter (\<lambda>r. dr_priority r = p) ?L) \<longleftrightarrow> r \<in> set (sd_rules t) \<and> rule_matches name r \<and>
         (\<forall>r' \<in> set (sd_rules t). rule_matches name r' \<longrightarrow>
            suffix_len r' < suffix_len r \<or> suffix_len r' = suffix_len r \<and> dr_priority r \<le> dr_priority r')" (is "_ \<longleftrightarrow> ?R r") for r
  proof
    assume r: "r \<in> set (filter (\<lambda>r. dr_priority r = p) ?L)"
    have "dr_priority r \<le> dr_priority r'"
      if "r' \<in> set (sd_rules t)" "rule_matches name r'" "\<not> suffix_len r' < suffix_len r" for r'
    proof -
      have "r' \<in> set ?L" using that r by (force simp: longest_rules_def)
      then show ?thesis using mn(2) r by simp
    qed
    then show "?R r" using r by (force simp: longest_rules_def)
  next
    assume r: "?R r"
    then have L: "r \<in> set ?L" by (force simp: longest_rules_def)
    obtain r0 where "r0 \<in> set ?L" "dr_priority r0 = p" using mn(1) by auto
    then have "dr_priority r \<le> p" using r L by (force simp: longest_rules_def)
    then show "r \<in> set (filter (\<lambda>r. dr_priority r = p) ?L)" using L mn(2) by force
  qed
  have "set (remdups_adj (sort ?links)) = dr_ifindex ` set (filter (\<lambda>r. dr_priority r = p) ?L)" by simp
  then have eq: "set (remdups_adj (sort ?links)) = {dr_ifindex r | r. ?R r}" using mem by blast
  show ?thesis unfolding pick pick.case using eq ne by (auto simp: distinct_remdups_adj_sorted sorted_remdups_adj)
qed

theorem pick_links_longest_suffix_witness:
  "\<exists>links. sd_pick (split_dns_default\<lparr>sd_rules := ex_rules\<rparr>) ''a.eu.corp'' = PickLinks links \<and> links = [4] \<and> distinct links"
proof -
  let ?t = "split_dns_default\<lparr>sd_rules := ex_rules\<rparr>"
  have "sd_pick ?t ''a.eu.corp'' = PickLinks [4]" by code_simp
  then show ?thesis using pick_links_longest_suffix [of ?t "''a.eu.corp''"] by simp
qed

lemma fold_push_new_prefix: "\<exists>ys. fold push_new xs out = out @ ys"
proof (induction xs arbitrary: out)
  case (Cons x xs)
  obtain ys where "fold push_new xs (push_new x out) = push_new x out @ ys" using Cons.IH by blast
  moreover have "\<exists>zs. push_new x out = out @ zs" by (simp add: push_new_def)
  ultimately show ?case by auto
qed simp

lemma fold_push_new_snoc:
  "x \<notin> set xs \<Longrightarrow> x \<notin> set out \<Longrightarrow> fold push_new (xs @ [x]) out = fold push_new xs out @ [x]"
proof -
  assume "x \<notin> set xs" "x \<notin> set out"
  then have "x \<notin> set (fold push_new xs out)" using fold_push_new(1) [of "\<lambda>x. x" xs out] by simp
  then show ?thesis by (simp add: push_new_def)
qed

text \<open>
  C38: Search expansion. A name that ends in a dot stands for itself alone. Any other name expands to itself
  and to its extension by every usable search domain, each once; it comes first if it has at least \<open>ndots\<close>
  dots and last otherwise.
\<close>

theorem expand_search_order:
  assumes "trim name \<noteq> []"
  shows "if ends_with ''.'' (trim name) then expand_search name search ndots = [split_normalize_name (trim name)]
    else let n = split_normalize_name (trim name); out = expand_search name search ndots in
      distinct out \<and>
      set out = insert n {n @ ''.'' @ s | s. s \<in> split_normalize_name ` set search \<and> s \<noteq> [] \<and> s \<noteq> ''.''} \<and>
      (if length (filter (\<lambda>c. c = CHR ''.'') n) \<ge> ndots then hd out = n else last out = n)"
proof (cases "ends_with ''.'' (trim name)")
  case True
  then show ?thesis using assms by (simp add: expand_search_def)
next
  case False
  define n where "n = split_normalize_name (trim name)"
  define sx where "sx = map (\<lambda>s. n @ ''.'' @ s) (filter (\<lambda>s. s \<noteq> [] \<and> s \<noteq> ''.'') (map split_normalize_name search))"
  define early where "early \<longleftrightarrow> ndots \<le> length (filter (\<lambda>c. c = CHR ''.'') n)"
  have out: "expand_search name search ndots = fold push_new ((if early then [n] else []) @ sx @ (if early then [] else [n])) []"
    using assms False by (simp add: expand_search_def Let_def n_def sx_def early_def not_less)
  have sx: "set sx = {n @ ''.'' @ s | s. s \<in> split_normalize_name ` set search \<and> s \<noteq> [] \<and> s \<noteq> ''.''}" "n \<notin> set sx"
    by (auto simp: sx_def)
  have "distinct (expand_search name search ndots)" "set (expand_search name search ndots) = insert n (set sx)"
    using fold_push_new [of "\<lambda>x. x" "(if early then [n] else []) @ sx @ (if early then [] else [n])" "[]"]
    unfolding out by auto
  moreover have "hd (expand_search name search ndots) = n" if early
  proof -
    obtain ys where "fold push_new sx [n] = [n] @ ys" using fold_push_new_prefix by blast
    then show ?thesis using that by (simp add: out push_new_def)
  qed
  moreover have "last (expand_search name search ndots) = n" if "\<not> early"
  proof -
    have "expand_search name search ndots = fold push_new (sx @ [n]) []" using that by (simp add: out)
    also have "\<dots> = fold push_new sx [] @ [n]" using fold_push_new_snoc [OF sx(2)] by simp
    finally show ?thesis by simp
  qed
  ultimately show ?thesis using False sx(1) by (simp add: n_def [symmetric] early_def [symmetric] Let_def)
qed

theorem expand_search_order_witness:
  "expand_search ''host'' [''corp''] 1 = [''host.corp'', ''host''] \<and> last (expand_search ''host'' [''corp''] 1) = ''host''"
proof -
  have e: "trim ''host'' = ''host''" "\<not> ends_with ''.'' ''host''" "split_normalize_name ''host'' = ''host''" by code_simp+
  have x: "expand_search ''host'' [''corp''] 1 = [''host.corp'', ''host'']" by code_simp
  from expand_search_order [of "''host''" "[''corp'']" 1] show ?thesis unfolding e(1,3) using e(2) x by simp
qed

end
