(* ===== verification/Edns.thy ===== *)
theory Edns
  imports Wire_Packet Rust_Str
begin

text \<open>
  EDNS (\<open>src/src/edns.rs\<close>): the feature level kept for each server with its downgrades and retries, the
  OPT record in queries and responses, and extended errors. The properties: a prepared query carries the
  OPT record of its level and differs from the query in nothing else, removing it restores the query,
  options survive encoding, and what the feature state promises about levels and waiting times.
\<close>

section \<open>Feature levels\<close>

definition DEFAULT_UDP_PAYLOAD_SIZE :: u16 where "DEFAULT_UDP_PAYLOAD_SIZE = 1232"
definition OPTION_DAU :: u16 where "OPTION_DAU = 5"
definition OPTION_DHU :: u16 where "OPTION_DHU = 6"
definition OPTION_N3U :: u16 where "OPTION_N3U = 7"
definition OPTION_EXTENDED_ERROR :: u16 where "OPTION_EXTENDED_ERROR = 15"
definition DNSSEC_OK :: u16 where "DNSSEC_OK = 0x8000"
definition FEATURE_RETRY_ATTEMPTS :: u8 where "FEATURE_RETRY_ATTEMPTS = 3"
definition FEATURE_GRACE_PERIOD_MIN :: duration where "FEATURE_GRACE_PERIOD_MIN = from_secs (5 * 60)"
definition FEATURE_GRACE_PERIOD_MAX :: duration where "FEATURE_GRACE_PERIOD_MAX = from_secs (6 * 60 * 60)"
definition DNSSEC_ALGORITHMS :: bytes where "DNSSEC_ALGORITHMS = [5, 7, 8, 10, 13, 14]"
definition DNSSEC_DIGESTS :: bytes where "DNSSEC_DIGESTS = [1, 2, 4]"
definition NSEC3_ALGORITHMS :: bytes where "NSEC3_ALGORITHMS = [1]"

datatype feature_level = Udp | Edns0 | TlsPlain | DnssecOk | TlsDnssecOk

text \<open>The derived order is the order of the variants.\<close>

fun level_rank :: "feature_level \<Rightarrow> nat" where
  "level_rank Udp = 0"
| "level_rank Edns0 = 1"
| "level_rank TlsPlain = 2"
| "level_rank DnssecOk = 3"
| "level_rank TlsDnssecOk = 4"

lemma level_rank_inject: "level_rank a = level_rank b \<longleftrightarrow> a = b"
  by (cases a; cases b) simp_all

instantiation feature_level :: linorder
begin

definition less_eq_feature_level :: "feature_level \<Rightarrow> feature_level \<Rightarrow> bool" where
  "less_eq_feature_level a b \<longleftrightarrow> level_rank a \<le> level_rank b"

definition less_feature_level :: "feature_level \<Rightarrow> feature_level \<Rightarrow> bool" where
  "less_feature_level a b \<longleftrightarrow> level_rank a < level_rank b"

instance
  by standard (auto simp: less_eq_feature_level_def less_feature_level_def level_rank_inject)

end

fun uses_edns :: "feature_level \<Rightarrow> bool" where
  "uses_edns l \<longleftrightarrow> l \<noteq> Udp"

fun uses_tls :: "feature_level \<Rightarrow> bool" where
  "uses_tls l \<longleftrightarrow> l = TlsPlain \<or> l = TlsDnssecOk"

fun level_dnssec_ok :: "feature_level \<Rightarrow> bool" where
  "level_dnssec_ok l \<longleftrightarrow> l = DnssecOk \<or> l = TlsDnssecOk"

fun lower :: "feature_level \<Rightarrow> feature_level" where
  "lower TlsDnssecOk = TlsPlain"
| "lower DnssecOk = Edns0"
| "lower TlsPlain = Edns0"
| "lower Edns0 = Udp"
| "lower Udp = Udp"

section \<open>The state of a server\<close>

record server_feature_state =
  sf_possible :: feature_level
  sf_verified :: feature_level
  sf_verified_once :: bool
  sf_failed_attempts :: u8
  sf_retry_after :: "instant option"
  sf_grace_period :: duration
  sf_required_bad_opt :: bool
  sf_bad_opt :: bool

definition server_feature_default :: server_feature_state where
  "server_feature_default =
     \<lparr>sf_possible = TlsDnssecOk, sf_verified = Udp, sf_verified_once = False, sf_failed_attempts = 0,
      sf_retry_after = None, sf_grace_period = FEATURE_GRACE_PERIOD_MIN, sf_required_bad_opt = False, sf_bad_opt = False\<rparr>"

definition possible_level ::
  "server_feature_state \<Rightarrow> feature_level \<Rightarrow> feature_level \<Rightarrow> instant \<Rightarrow> feature_level \<times> server_feature_state" where
  "possible_level s best minimum now =
     (let minimum = (if sf_required_bad_opt s then min minimum Udp else minimum);
          s = (if sf_required_bad_opt s \<and> uses_edns (sf_possible s) then s\<lparr>sf_possible := min (sf_possible s) Udp\<rparr> else s);
          s = (if sf_possible s > best then s\<lparr>sf_possible := best\<rparr> else s);
          s = (if sf_possible s < minimum
               then s\<lparr>sf_possible := min minimum best, sf_failed_attempts := 0, sf_retry_after := None\<rparr> else s);
          retry_due = (case sf_retry_after s of Some retry_after \<Rightarrow> retry_after \<le> now | None \<Rightarrow> False);
          s = (if sf_possible s < best \<and> retry_due
               then s\<lparr>sf_possible := best, sf_failed_attempts := 0, sf_retry_after := None, sf_bad_opt := False,
                      sf_grace_period := min (sf_grace_period s * 2) FEATURE_GRACE_PERIOD_MAX\<rparr>
               else s)
      in (sf_possible s, s))"

definition record_success :: "server_feature_state \<Rightarrow> feature_level \<Rightarrow> server_feature_state" where
  "record_success s level =
     (let s = s\<lparr>sf_verified_once := True\<rparr>;
          s = (if level > sf_verified s then s\<lparr>sf_verified := level\<rparr> else s)
      in if level = sf_possible s then s\<lparr>sf_failed_attempts := 0\<rparr> else s)"

definition downgrade_to :: "server_feature_state \<Rightarrow> feature_level \<Rightarrow> instant \<Rightarrow> server_feature_state" where
  "downgrade_to s level now =
     (if level \<ge> sf_possible s then s
      else s\<lparr>sf_possible := level, sf_verified := min (sf_verified s) level, sf_failed_attempts := 0,
             sf_retry_after := Some (now + sf_grace_period s)\<rparr>)"

definition u8_saturating_inc :: "u8 \<Rightarrow> u8" where
  "u8_saturating_inc n = (if n = 255 then 255 else n + 1)"

definition record_failure ::
  "server_feature_state \<Rightarrow> feature_level \<Rightarrow> instant \<Rightarrow> feature_level option \<times> server_feature_state" where
  "record_failure s level now =
     (if level \<noteq> sf_possible s then (None, s)
      else
        let s = s\<lparr>sf_failed_attempts := u8_saturating_inc (sf_failed_attempts s)\<rparr> in
        if sf_failed_attempts s < FEATURE_RETRY_ATTEMPTS then (None, s)
        else if lower level = level then (None, s)
        else (Some (lower level), downgrade_to s (lower level) now))"

definition record_tls_failure ::
  "server_feature_state \<Rightarrow> feature_level \<Rightarrow> instant \<Rightarrow> feature_level option \<times> server_feature_state" where
  "record_tls_failure s level now =
     (case level of
        TlsDnssecOk \<Rightarrow> (Some DnssecOk, downgrade_to s DnssecOk now)
      | TlsPlain \<Rightarrow> (Some Edns0, downgrade_to s Edns0 now)
      | _ \<Rightarrow> (None, s))"

definition record_bad_opt :: "server_feature_state \<Rightarrow> feature_level \<Rightarrow> instant \<Rightarrow> feature_level \<times> server_feature_state" where
  "record_bad_opt s level now =
     (let s = (if uses_edns level then downgrade_to (s\<lparr>sf_bad_opt := True\<rparr>) Udp now else s)
      in (sf_possible s, s))"

definition record_required_bad_opt :: "server_feature_state \<Rightarrow> server_feature_state" where
  "record_required_bad_opt s =
     s\<lparr>sf_required_bad_opt := True, sf_bad_opt := True, sf_possible := Udp, sf_verified := min (sf_verified s) Udp\<rparr>"

definition record_do_off :: "server_feature_state \<Rightarrow> feature_level \<Rightarrow> instant \<Rightarrow> feature_level \<times> server_feature_state" where
  "record_do_off s level now =
     (let s = (if level = DnssecOk then downgrade_to s Edns0 now
               else if level = TlsDnssecOk then downgrade_to s TlsPlain now
               else s)
      in (sf_possible s, s))"

definition feature_reset :: "server_feature_state \<Rightarrow> server_feature_state" where
  "feature_reset s = server_feature_default"

section \<open>Options and OPT records\<close>

record prepared_query =
  pq_packet :: bytes
  pq_sent_edns :: bool
  pq_managed_opt :: bool

record edns_option =
  eo_code :: u16
  eo_data :: bytes

record opt_record =
  opt_udp_payload_size :: u16
  opt_extended_rcode :: u8
  opt_version :: u8
  opt_flags :: u16
  opt_options :: "edns_option list"

definition opt_dnssec_ok :: "opt_record \<Rightarrow> bool" where
  "opt_dnssec_ok opt \<longleftrightarrow> opt_flags opt AND DNSSEC_OK \<noteq> 0"

definition advertises_rfc6975 :: "opt_record \<Rightarrow> bool" where
  "advertises_rfc6975 opt \<longleftrightarrow>
     list_all (\<lambda>code. list_ex (\<lambda>option. eo_code option = code) (opt_options opt)) [OPTION_DAU, OPTION_DHU, OPTION_N3U]"

definition extended_error :: "opt_record \<Rightarrow> wire_error + (u16 \<times> string option) option" where
  "extended_error opt =
     (case find (\<lambda>option. eo_code option = OPTION_EXTENDED_ERROR) (opt_options opt) of
        None \<Rightarrow> Inr None
      | Some option \<Rightarrow>
          and_then (ok_or (get_range (eo_data option) 0 2) InvalidRecord) (\<lambda>code.
          let message = drop 2 (eo_data option) in
          Inr (Some (u16_from_be (code ! 0) (code ! 1), if message = [] then None else Some (from_utf8_lossy message)))))"

definition extended_error_names :: "string list" where
  "extended_error_names =
     [''Other'', ''Unsupported DNSKEY Algorithm'', ''Unsupported DS Digest Type'', ''Stale Answer'', ''Forged Answer'',
      ''DNSSEC Indeterminate'', ''DNSSEC Bogus'', ''Signature Expired'', ''Signature Not Yet Valid'', ''DNSKEY Missing'',
      ''RRSIG Missing'', ''No Zone Key Bit Set'', ''NSEC Missing'', ''Cached Error'', ''Not Ready'', ''Blocked'', ''Censored'',
      ''Filtered'', ''Prohibited'', ''Stale NXDOMAIN Answer'', ''Not Authoritative'', ''Not Supported'',
      ''No Reachable Authority'', ''Network Error'', ''Invalid Data'', ''Signature Never Valid'', ''Too Early'',
      ''Unsupported NSEC3 Iterations'', ''Impossible Transport Policy'', ''Synthesized'']"

definition extended_error_name :: "u16 \<Rightarrow> string option" where
  "extended_error_name code =
     (if unat code < length extended_error_names then Some (extended_error_names ! unat code) else None)"

definition format_extended_error :: "u16 \<Rightarrow> string option \<Rightarrow> string" where
  "format_extended_error code message =
     (let out = (case extended_error_name code of None \<Rightarrow> show_nat (unat code) | Some name \<Rightarrow> name)
      in case message of
           Some m \<Rightarrow> if m \<noteq> [] then out @ '': '' @ m else out
         | None \<Rightarrow> out)"

text \<open>The loop of \<open>parse_options\<close> over the rest of the rdata.\<close>

function parse_options_loop :: "bytes \<Rightarrow> edns_option list \<Rightarrow> wire_error + edns_option list" where
  "parse_options_loop rdata options =
     (if rdata = [] then Inr options
      else if length rdata < 4 then Inl InvalidRecord
      else
        let code = u16_from_be (rdata ! 0) (rdata ! 1);
            len = unat (u16_from_be (rdata ! 2) (rdata ! 3))
        in if length rdata < 4 + len then Inl InvalidRecord
           else parse_options_loop (drop (4 + len) rdata)
                  (options @ [\<lparr>eo_code = code, eo_data = take len (drop 4 rdata)\<rparr>]))"
  by pat_completeness auto

termination
  by (relation "measure (length \<circ> fst)") auto

declare parse_options_loop.simps [simp del]

definition parse_options :: "bytes \<Rightarrow> wire_error + edns_option list" where
  "parse_options rdata = parse_options_loop rdata []"

fun encode_options :: "edns_option list \<Rightarrow> wire_error + bytes" where
  "encode_options [] = Inr []"
| "encode_options (option # options) =
     (if length (eo_data option) > 65535 then Inl ResponseTooLarge
      else and_then (encode_options options) (\<lambda>rest.
           Inr (u16_to_be (eo_code option) @ u16_to_be (of_nat (length (eo_data option))) @ eo_data option @ rest)))"

definition encode_opt :: "u16 \<Rightarrow> u8 \<Rightarrow> u8 \<Rightarrow> u16 \<Rightarrow> edns_option list \<Rightarrow> wire_error + bytes" where
  "encode_opt udp_payload_size extended_rcode version flags options =
     and_then (encode_options options) (\<lambda>rdata.
     if length rdata > 65535 then Inl ResponseTooLarge
     else Inr ([0] @ u16_to_be TYPE_OPT @ u16_to_be udp_payload_size @ [extended_rcode] @ [version] @ u16_to_be flags @
               u16_to_be (of_nat (length rdata)) @ rdata))"

definition rfc6975_options :: "edns_option list" where
  "rfc6975_options =
     [\<lparr>eo_code = OPTION_DAU, eo_data = DNSSEC_ALGORITHMS\<rparr>, \<lparr>eo_code = OPTION_DHU, eo_data = DNSSEC_DIGESTS\<rparr>,
      \<lparr>eo_code = OPTION_N3U, eo_data = NSEC3_ALGORITHMS\<rparr>]"

section \<open>Layout of a packet\<close>

record opt_span =
  os_start :: nat
  os_end :: nat
  os_udp_payload_size :: u16
  os_flags :: u16
  os_options :: "edns_option list"

record packet_layout =
  pl_opt :: "opt_span option"
  pl_has_tsig :: bool

text \<open>The record loop of \<open>scan_packet\<close>, over the indices from \<open>index\<close> on.\<close>

fun scan_records :: "bytes \<Rightarrow> nat \<Rightarrow> nat \<Rightarrow> nat \<Rightarrow> nat \<Rightarrow> packet_layout \<Rightarrow> wire_error + (packet_layout \<times> nat)" where
  "scan_records packet additional_start 0 index offset layout = Inr (layout, offset)"
| "scan_records packet additional_start (Suc n) index offset layout =
     and_then (parse_record packet offset) (\<lambda>r.
     if rr_rr_type r = TYPE_OPT then
       if index < additional_start \<or> dn_canonical_wire (rr_name r) \<noteq> [0] \<or> pl_opt layout \<noteq> None then Inl InvalidRecord
       else
         and_then (parse_options (rr_rdata r)) (\<lambda>options.
         scan_records packet additional_start n (index + 1) (rr_next_offset r)
           (layout\<lparr>pl_opt := Some \<lparr>os_start = offset, os_end = rr_next_offset r, os_udp_payload_size = rr_class r,
                                   os_flags = ucast (rr_ttl r), os_options = options\<rparr>\<rparr>))
     else
       scan_records packet additional_start n (index + 1) (rr_next_offset r)
         (if rr_rr_type r = TYPE_TSIG then layout\<lparr>pl_has_tsig := True\<rparr> else layout))"

definition scan_packet :: "bytes \<Rightarrow> wire_error + packet_layout" where
  "scan_packet packet =
     and_then (header_parse packet) (\<lambda>header.
     and_then (parse_many parse_question q_next_offset packet (unat (h_question_count header)) DNS_HEADER_LEN) (\<lambda>(_, offset).
     and_then (scan_records packet (unat (h_answer_count header) + unat (h_authority_count header)) (total_records header) 0
                 offset \<lparr>pl_opt = None, pl_has_tsig = False\<rparr>) (\<lambda>(layout, offset).
     if offset \<noteq> length packet then Inl TrailingData else Inr layout)))"

definition replace_span :: "bytes \<Rightarrow> nat \<Rightarrow> nat \<Rightarrow> bytes \<Rightarrow> wire_error + bytes" where
  "replace_span packet start end' replacement =
     (if start > end' \<or> end' > length packet then Inl InvalidRecord
      else
        let new_length = length packet - (end' - start) + length replacement in
        if new_length > USIZE_MAX then Inl ResponseTooLarge
        else if new_length > 65535 then Inl ResponseTooLarge
        else Inr (take start packet @ replacement @ drop end' packet))"

definition append_opt :: "bytes \<Rightarrow> bytes \<Rightarrow> wire_error + bytes" where
  "append_opt packet opt =
     and_then (header_parse packet) (\<lambda>header.
     if h_additional_count header = 65535 then Inl ResponseTooLarge
     else if length packet + length opt > USIZE_MAX then Inl ResponseTooLarge
     else if length packet + length opt > 65535 then Inl ResponseTooLarge
     else Inr (overwrite (packet @ opt) 10 (u16_to_be (h_additional_count header + 1))))"

definition remove_opt :: "bytes \<Rightarrow> opt_span \<Rightarrow> wire_error + bytes" where
  "remove_opt packet opt =
     and_then (header_parse packet) (\<lambda>header.
     if h_additional_count header = 0 then Inl InvalidRecord
     else and_then (replace_span packet (os_start opt) (os_end opt) []) (\<lambda>out.
          Inr (overwrite out 10 (u16_to_be (h_additional_count header - 1)))))"

section \<open>Queries and responses\<close>

definition prepare_query :: "bytes \<Rightarrow> feature_level \<Rightarrow> u16 \<Rightarrow> wire_error + prepared_query" where
  "prepare_query query level udp_payload_size =
     and_then (validate query False) (\<lambda>_.
     and_then (scan_packet query) (\<lambda>layout.
     if pl_has_tsig layout then
       Inr \<lparr>pq_packet = query, pq_sent_edns = (pl_opt layout \<noteq> None), pq_managed_opt = False\<rparr>
     else if \<not> uses_edns level then
       and_then (case pl_opt layout of Some opt \<Rightarrow> remove_opt query opt | None \<Rightarrow> Inr query) (\<lambda>packet.
       Inr \<lparr>pq_packet = packet, pq_sent_edns = False, pq_managed_opt = True\<rparr>)
     else
       let options = (if level_dnssec_ok level then rfc6975_options else []);
           flags = (if level_dnssec_ok level then DNSSEC_OK else 0)
       in and_then (encode_opt (max udp_payload_size 512) 0 0 flags options) (\<lambda>replacement.
          and_then (case pl_opt layout of
                      Some opt \<Rightarrow> replace_span query (os_start opt) (os_end opt) replacement
                    | None \<Rightarrow> append_opt query replacement) (\<lambda>packet.
          Inr \<lparr>pq_packet = packet, pq_sent_edns = True, pq_managed_opt = True\<rparr>))))"

definition inspect_opt :: "bytes \<Rightarrow> wire_error + opt_record option" where
  "inspect_opt packet =
     and_then (scan_packet packet) (\<lambda>layout.
     case pl_opt layout of
       None \<Rightarrow> Inr None
     | Some opt \<Rightarrow>
         and_then (parse_record packet (os_start opt)) (\<lambda>r.
         let ttl = u32_to_be (rr_ttl r) in
         Inr (Some \<lparr>opt_udp_payload_size = os_udp_payload_size opt, opt_extended_rcode = ttl ! 0, opt_version = ttl ! 1,
                    opt_flags = os_flags opt, opt_options = os_options opt\<rparr>)))"

definition full_rcode :: "bytes \<Rightarrow> opt_record option \<Rightarrow> wire_error + u16" where
  "full_rcode packet opt =
     and_then (header_parse packet) (\<lambda>header.
     Inr (case opt of
            None \<Rightarrow> response_code header
          | Some opt \<Rightarrow> push_bit 4 (ucast (opt_extended_rcode opt)) OR response_code header))"

definition bad_version_response :: "bytes \<Rightarrow> wire_error + bytes" where
  "bad_version_response query =
     and_then (inspect_opt query) (\<lambda>found.
     and_then (ok_or found InvalidRecord) (\<lambda>request.
     and_then (refused_for query) (\<lambda>response.
     let flags = u16_from_be (response ! 2) (response ! 3) AND NOT 0x000f;
         response = overwrite response 2 (u16_to_be flags);
         response = overwrite response 10 (u16_to_be 1)
     in and_then (encode_opt (max (opt_udp_payload_size request) 512) 1 0 0 []) (\<lambda>opt. Inr (response @ opt)))))"

definition response_for_client :: "bytes \<Rightarrow> bytes \<Rightarrow> wire_error + bytes" where
  "response_for_client query response =
     and_then (validate query False) (\<lambda>_.
     and_then (validate response True) (\<lambda>_.
     and_then (scan_packet query) (\<lambda>query_layout.
     if pl_has_tsig query_layout \<or> pl_opt query_layout \<noteq> None then Inr response
     else
       and_then (scan_packet response) (\<lambda>response_layout.
       case pl_opt response_layout of
         None \<Rightarrow> Inr response
       | Some span \<Rightarrow>
           and_then (inspect_opt response) (\<lambda>found.
           and_then (ok_or found InvalidRecord) (\<lambda>opt.
           and_then (full_rcode response (Some opt)) (\<lambda>extended_rcode.
           and_then (remove_opt response span) (\<lambda>out.
           if extended_rcode > 15 then
             let flags = u16_from_be (out ! 2) (out ! 3)
             in Inr (overwrite out 2 (u16_to_be ((flags AND NOT 0x000f) OR 2)))
           else Inr out))))))))"

section \<open>Lemmas: the OPT record on the wire\<close>

lemma base256: "d < 256 \<Longrightarrow> (x * 256 + d) mod 256 = d" "d < 256 \<Longrightarrow> (x * 256 + d) div 256 = x" for x d :: nat
  by simp_all

lemma unat_u32_from_be: "unat (u32_from_be a b c d) = ((unat a * 256 + unat b) * 256 + unat c) * 256 + unat d"
proof -
  have "unat a \<le> 255" "unat b \<le> 255" "unat c \<le> 255" "unat d \<le> 255" by simp_all
  then have "((unat a * 256 + unat b) * 256 + unat c) * 256 + unat d \<le> ((255 * 256 + 255) * 256 + 255) * 256 + 255"
    by (intro add_mono mult_mono) simp_all
  then show ?thesis unfolding u32_from_be_def by (intro unat_of_nat_u32) simp
qed

lemma u32_to_from_be: "u32_to_be (u32_from_be a b c d) = [a, b, c, d]"
proof -
  let ?n = "unat (u32_from_be a b c d)"
  have l: "unat a < 256" "unat b < 256" "unat c < 256" "unat d < 256" by simp_all
  have "?n div 65536 = ?n div 256 div 256" "?n div 16777216 = ?n div 256 div 256 div 256" by (simp_all flip: div_mult2_eq)
  then have "?n mod 256 = unat d" "?n div 256 mod 256 = unat c" "?n div 65536 mod 256 = unat b" "?n div 16777216 = unat a"
    unfolding unat_u32_from_be by (simp_all only: base256 l)
  then show ?thesis unfolding u32_to_be_def by simp
qed

lemma ucast_u32_from_be: "ucast (u32_from_be a b c d) = u16_from_be c d"
proof -
  have u: "unat (ucast (w :: u32) :: u16) = unat w mod 65536" for w
    by (simp add: unsigned_ucast_eq take_bit_eq_mod)
  have "unat c \<le> 255" "unat d \<le> 255" by simp_all
  then have "unat c * 256 + unat d < 65536" by linarith
  moreover have "unat (u32_from_be a b c d) = unat c * 256 + unat d + (unat a * 256 + unat b) * 65536"
    unfolding unat_u32_from_be by (simp only: distrib_right mult.assoc)
  ultimately have "unat (u32_from_be a b c d) mod 65536 = unat c * 256 + unat d" by (simp only: mod_mult_self1 mod_less)
  then show ?thesis using u by (simp add: word_unat_eq_iff unat_u16_from_be)
qed

text \<open>The TTL field of an OPT record: extended code, version and flags.\<close>

definition opt_ttl :: "u8 \<Rightarrow> u8 \<Rightarrow> u16 \<Rightarrow> u32" where
  "opt_ttl extended_rcode version flags =
     u32_from_be extended_rcode version (of_nat (unat flags div 256)) (of_nat (unat flags mod 256))"

lemma opt_ttl_bytes: "u32_to_be (opt_ttl er v fl) = er # v # u16_to_be fl" "ucast (opt_ttl er v fl) = fl"
  by (simp_all add: opt_ttl_def u32_to_from_be ucast_u32_from_be u16_to_be_def u16_from_to_be)

lemma encode_opt_eq_Inr:
  "encode_opt sz er v fl options = Inr opt \<longleftrightarrow>
     (\<exists>rdata. encode_options options = Inr rdata \<and> length rdata \<le> 65535 \<and>
        opt = [0] @ u16_to_be TYPE_OPT @ u16_to_be sz @ u32_to_be (opt_ttl er v fl) @
          u16_to_be (of_nat (length rdata)) @ rdata)"
  by (auto simp: encode_opt_def result_simps opt_ttl_bytes)

text \<open>Options survive encoding.\<close>

lemma parse_options_cons:
  assumes "length d \<le> 65535"
  shows "parse_options_loop (u16_to_be c @ u16_to_be (of_nat (length d)) @ d @ rest) acc =
    parse_options_loop rest (acc @ [\<lparr>eo_code = c, eo_data = d\<rparr>])"
proof -
  let ?r = "u16_to_be c @ u16_to_be (of_nat (length d)) @ d @ rest"
  have l: "unat (of_nat (length d) :: u16) = length d" using assms by (simp add: unat_of_nat_u16)
  have f: "u16_from_be ((u16_to_be c @ u16_to_be w @ xs) ! 0) ((u16_to_be c @ u16_to_be w @ xs) ! 1) = c"
    "u16_from_be ((u16_to_be c @ u16_to_be w @ xs) ! 2) ((u16_to_be c @ u16_to_be w @ xs) ! 3) = w" for w xs
    by (simp_all add: u16_to_be_def be_simps nth_Cons')
  have b: "u16_from_be (?r ! 0) (?r ! 1) = c" "unat (u16_from_be (?r ! 2) (?r ! 3)) = length d"
    using l by (simp_all only: f)
  have dr: "drop 4 ?r = d @ rest" by (simp add: u16_to_be_def)
  have "drop (4 + length d) ?r = drop (length d) (drop 4 ?r)" by (simp only: drop_drop add.commute)
  with dr have "take (length d) (drop 4 ?r) = d" "drop (4 + length d) ?r = rest" by simp_all
  moreover have "?r \<noteq> []" "\<not> length ?r < 4" "\<not> length ?r < 4 + length d" by (simp_all add: u16_to_be_def)
  ultimately show ?thesis using b by (subst parse_options_loop.simps) (simp only: if_False Let_def if_True)
qed

lemma parse_encode_options:
  "encode_options options = Inr rdata \<Longrightarrow> parse_options_loop rdata acc = Inr (acc @ options)"
proof (induction options arbitrary: rdata acc)
  case Nil
  then show ?case by (simp add: parse_options_loop.simps)
next
  case (Cons x options)
  obtain rest where r: "encode_options options = Inr rest" "length (eo_data x) \<le> 65535"
    "rdata = u16_to_be (eo_code x) @ u16_to_be (of_nat (length (eo_data x))) @ eo_data x @ rest"
    using Cons.prems by (auto simp: result_simps split: if_splits)
  show ?case unfolding r(3) parse_options_cons [OF r(2)] using Cons.IH [OF r(1)] by simp
qed

lemma opt_record_parsed:
  assumes "encode_opt sz er v fl options = Inr opt" and "sz \<noteq> CLASS_ANY" and "addressable (pre @ opt @ post)"
  obtains r where "parse_record (pre @ opt @ post) (length pre) = Inr r" "rr_rr_type r = TYPE_OPT" "rr_class r = sz"
    "rr_ttl r = opt_ttl er v fl" "dn_canonical_wire (rr_name r) = [0]" "parse_options (rr_rdata r) = Inr options"
    "rr_next_offset r = length pre + length opt"
proof -
  obtain rdata where rd: "encode_options options = Inr rdata" "length rdata \<le> 65535"
    and opt: "opt = [0] @ u16_to_be TYPE_OPT @ u16_to_be sz @ u32_to_be (opt_ttl er v fl) @
          u16_to_be (of_nat (length rdata)) @ rdata"
    using assms(1) by (auto simp: encode_opt_eq_Inr)
  let ?p = "pre @ opt @ post" and ?len = "of_nat (length rdata) :: u16"
  have len: "unat ?len = length rdata" using rd(2) by (simp add: unat_of_nat_u16)
  have root: "valid_labels []" "wire_of_labels [] = [0]" by (simp_all add: valid_labels_def)
  let ?name = "name_of_labels []"
  have p: "?p = (pre @ [0]) @ u16_to_be TYPE_OPT @ u16_to_be sz @ u32_to_be (opt_ttl er v fl) @ u16_to_be ?len @ rdata @ post"
    by (simp add: opt)
  have rn: "read_name ?p (length pre) = Inr (?name, length (pre @ [0]))"
    using read_name_wire [OF root(1), of pre "drop 1 opt @ post"] assms(3) by (simp add: root(2) opt)
  let ?r = "\<lparr>rr_name = ?name, rr_rr_type = TYPE_OPT, rr_class = sz,
      rr_ttl = (if TYPE_OPT \<noteq> TYPE_OPT \<and> opt_ttl er v fl AND 0x80000000 \<noteq> 0 then 0 else opt_ttl er v fl),
      rr_ttl_offset = length (pre @ [0]) + 4, rr_rdata_offset = length (pre @ [0]) + 10, rr_rdata = rdata,
      rr_next_offset = length (pre @ [0]) + 10 + unat ?len\<rparr>"
  have "parse_record ?p (length pre) = Inr ?r"
    by (rule parse_record_layout [OF rn p _ _ _ assms(3) refl])
      (use len assms(2) in \<open>simp_all add: wire_type_defs validate_record_rdata_def Let_def\<close>)
  then show ?thesis
    by (rule that) (use parse_encode_options [OF rd(1), of "[]"] in
        \<open>simp_all add: parse_options_def opt len name_of_labels_def\<close>)
qed

section \<open>Lemmas: a query with one OPT record\<close>

text \<open>A query with one uncompressed question, \<open>n\<close> additional records, and what follows the question.\<close>

definition query_bytes :: "header \<Rightarrow> bytes list \<Rightarrow> u16 \<Rightarrow> u16 \<Rightarrow> u16 \<Rightarrow> bytes \<Rightarrow> bytes" where
  "query_bytes h ls t c n post =
     (u16_to_be (h_id h) @ u16_to_be (h_flags h) @ u16_to_be 1 @ u16_to_be 0 @ u16_to_be 0 @ u16_to_be n) @
     wire_of_labels ls @ u16_to_be t @ u16_to_be c @ post"

definition query_header :: "header \<Rightarrow> u16 \<Rightarrow> header" where
  "query_header h n = \<lparr>h_id = h_id h, h_flags = h_flags h, h_question_count = 1, h_answer_count = 0, h_authority_count = 0,
                       h_additional_count = n\<rparr>"

lemma query_header_flags [simp]:
  "is_response (query_header h n) = is_response h" "opcode (query_header h n) = opcode h"
  "truncated (query_header h n) = truncated h" "total_records (query_header h n) = unat n"
  by (simp_all add: query_header_def header_flag_defs total_records_def)

lemma query_bytes_parse:
  assumes "valid_labels ls" "query_type_is_valid t" "addressable (query_bytes h ls t c n post)"
  defines "p \<equiv> query_bytes h ls t c n post" and "qend \<equiv> 12 + length (wire_of_labels ls) + 4"
  defines "qn \<equiv> \<lparr>q_name = name_of_labels ls, q_rr_type = t, q_class = c, q_next_offset = qend\<rparr>"
  shows "header_parse p = Inr (query_header h n)" "first_question p = Inr qn"
    "parse_many parse_question q_next_offset p 1 12 = Inr ([qn], qend)"
    "parse_sections p = and_then (parse_many parse_record rr_next_offset p (unat n) qend) (\<lambda>(rs, e). Inr (query_header h n, [qn], rs, e))"
proof -
  let ?hdr = "u16_to_be (h_id h) @ u16_to_be (h_flags h) @ u16_to_be 1 @ u16_to_be 0 @ u16_to_be 0 @ u16_to_be n"
  have hp: "header_parse ?hdr = Inr (query_header h n)"
    using header_parse_words [of "h_id h" "h_flags h" 1 0 0 n "[]"] by (simp add: query_header_def)
  have l: "length ?hdr = 12" by simp
  have qc: "h_question_count (query_header h n) = 1" by (simp add: query_header_def)
  have addr: "addressable (?hdr @ wire_of_labels ls @ u16_to_be t @ u16_to_be c @ post)"
    using assms(3) by (simp add: query_bytes_def)
  note pk = parse_question_packet [OF l hp qc assms(1,2) addr]
  have p: "p = ?hdr @ wire_of_labels ls @ u16_to_be t @ u16_to_be c @ post" by (simp add: p_def query_bytes_def)
  show 1: "header_parse p = Inr (query_header h n)" "first_question p = Inr qn"
    "parse_sections p = and_then (parse_many parse_record rr_next_offset p (unat n) qend) (\<lambda>(rs, e). Inr (query_header h n, [qn], rs, e))"
    using pk by (simp_all add: p qn_def qend_def)
  have "parse_question p 12 = Inr qn"
    using 1(1,2) qc by (simp add: first_question_def DNS_HEADER_LEN_def)
  then show "parse_many parse_question q_next_offset p 1 12 = Inr ([qn], qend)"
    unfolding parse_many_one by (simp add: qn_def)
qed

lemma query_bytes_bare:
  assumes "validate q False = Inr ()" and "validate_uncompressed_name q 12 (length q) = Inr ()" and "addressable q"
    and "header_parse q = Inr h" and "total_records h = 0"
  obtains ls t c where "valid_labels ls" "query_type_is_valid t" "q = query_bytes h ls t c 0 []"
    "is_response h = False" "opcode h = 0" "\<not> truncated h" "h = query_header h 0"
proof -
  obtain h' ls t c rest where "header_parse q = Inr h'" "h_question_count h' = 1" "opcode h' = 0"
    and ls: "valid_labels ls" and t: "query_type_is_valid t"
    and q: "q = take 12 q @ wire_of_labels ls @ u16_to_be t @ u16_to_be c @ rest"
    and fq: "first_question q = Inr \<lparr>q_name = name_of_labels ls, q_rr_type = t, q_class = c,
           q_next_offset = 12 + length (wire_of_labels ls) + 4\<rparr>"
    by (rule query_decompose [OF assms(1-3)])
  then have h: "h_question_count h = 1" "opcode h = 0" using assms(4) by simp_all
  from assms(1) obtain qn rs where v: "is_response h = False" "\<not> truncated h" "h_answer_count h = 0"
    and fq': "first_question q = Inr qn"
    and m: "parse_many parse_record rr_next_offset q (total_records h) (q_next_offset qn) = Inr (rs, length q)"
    using assms(4) by (auto elim: validate_query_question)
  have z: "h_authority_count h = 0" "h_additional_count h = 0"
    using assms(5) by (simp_all add: total_records_def unat_eq_zero)
  have lq: "length q = 12 + length (wire_of_labels ls) + 4" using m assms(5) fq fq' by simp
  have l12: "length (take 12 q) = 12" using assms(4) by (simp add: header_parse_eq_Inr)
  have "rest = []" using arg_cong [OF q, of length] lq l12 by simp
  moreover have "take 12 q = u16_to_be (h_id h) @ u16_to_be (h_flags h) @ u16_to_be 1 @ u16_to_be 0 @ u16_to_be 0 @ u16_to_be 0"
    using header_words [OF assms(4)] h(1) v(3) z by simp
  ultimately have "q = query_bytes h ls t c 0 []" using q by (simp add: query_bytes_def)
  moreover have "h = query_header h 0" using h(1) v(3) z by (cases h) (simp add: query_header_def)
  ultimately show thesis using that [OF ls t] v h by simp
qed

text \<open>The size of the OPT records a query gets, and of a bare query.\<close>

lemma length_query_bytes: "valid_labels ls \<Longrightarrow> length (query_bytes h ls t c n post) \<le> 271 + length post"
  by (simp add: query_bytes_def valid_labels_def)

lemma scan_bare:
  fixes h :: header and c :: u16
  assumes "valid_labels ls" "query_type_is_valid t"
  defines "q \<equiv> query_bytes h ls t c 0 []"
  shows "scan_packet q = Inr \<lparr>pl_opt = None, pl_has_tsig = False\<rparr>"
proof -
  have addr: "addressable q" using length_query_bytes [OF assms(1), of h t c 0 "[]"] by (simp add: q_def USIZE_MAX_def)
  note pk = query_bytes_parse [OF assms(1,2) addr [unfolded q_def], folded q_def]
  have l: "12 + length (wire_of_labels ls) + 4 = length q" by (simp add: q_def query_bytes_def)
  have "h_question_count (query_header h 0) = 1" by (simp add: query_header_def)
  with pk(1,3) l show ?thesis by (simp add: scan_packet_def DNS_HEADER_LEN_def)
qed

lemma scan_with_opt:
  fixes h :: header and c :: u16
  assumes "valid_labels ls" "query_type_is_valid t" "encode_opt sz er v fl options = Inr opt" "sz \<noteq> CLASS_ANY"
    "length opt \<le> 1000"
  defines "p \<equiv> query_bytes h ls t c 1 opt" and "qend \<equiv> 12 + length (wire_of_labels ls) + 4"
  defines "span \<equiv> \<lparr>os_start = qend, os_end = length p, os_udp_payload_size = sz, os_flags = fl, os_options = options\<rparr>"
  shows "scan_packet p = Inr \<lparr>pl_opt = Some span, pl_has_tsig = False\<rparr>"
    "\<exists>rs. parse_sections p = Inr (query_header h 1,
       [\<lparr>q_name = name_of_labels ls, q_rr_type = t, q_class = c, q_next_offset = qend\<rparr>], rs, length p)"
    "inspect_opt p = Inr (Some \<lparr>opt_udp_payload_size = sz, opt_extended_rcode = er, opt_version = v, opt_flags = fl,
       opt_options = options\<rparr>)"
proof -
  have addr: "addressable p" using length_query_bytes [OF assms(1), of h t c 1 opt] assms(5) by (simp add: p_def USIZE_MAX_def)
  note pk = query_bytes_parse [OF assms(1,2) addr [unfolded p_def], folded p_def]
  let ?pre = "query_bytes h ls t c 1 []"
  have p: "p = ?pre @ opt @ []" and l: "length ?pre = qend" by (simp_all add: p_def query_bytes_def qend_def)
  obtain r where r: "parse_record p qend = Inr r" "rr_rr_type r = TYPE_OPT" "rr_class r = sz"
    "rr_ttl r = opt_ttl er v fl" "dn_canonical_wire (rr_name r) = [0]" "parse_options (rr_rdata r) = Inr options"
    "rr_next_offset r = length p"
    by (rule opt_record_parsed [OF assms(3,4), of ?pre "[]"]) (use addr p l in \<open>auto simp flip: p\<close>)
  have qc: "h_question_count (query_header h 1) = 1" "h_answer_count (query_header h 1) = 0" "h_authority_count (query_header h 1) = 0"
    by (simp_all add: query_header_def)
  have one: "scan_records packet a 1 i off lay = scan_records packet a (Suc 0) i off lay" for packet a i off lay by simp
  show s: "scan_packet p = Inr \<lparr>pl_opt = Some span, pl_has_tsig = False\<rparr>"
    using pk(1,3) r qc by (simp add: scan_packet_def DNS_HEADER_LEN_def one qend_def span_def opt_ttl_bytes(2))
  have "parse_many parse_record rr_next_offset p 1 qend = Inr ([r], length p)"
    unfolding parse_many_one using r by simp
  then show "\<exists>rs. parse_sections p = Inr (query_header h 1,
       [\<lparr>q_name = name_of_labels ls, q_rr_type = t, q_class = c, q_next_offset = qend\<rparr>], rs, length p)"
    using pk(4) by (simp add: qend_def)
  show "inspect_opt p = Inr (Some \<lparr>opt_udp_payload_size = sz, opt_extended_rcode = er, opt_version = v, opt_flags = fl,
       opt_options = options\<rparr>)"
    using s r by (simp add: inspect_opt_def span_def opt_ttl_bytes(1) Let_def)
qed

lemma query_bytes_edit:
  assumes "valid_labels ls" "query_type_is_valid t" "length opt \<le> 1000" "length opt' \<le> 1000"
  defines "qend \<equiv> 12 + length (wire_of_labels ls) + 4"
  shows "append_opt (query_bytes h ls t c 0 []) opt = Inr (query_bytes h ls t c 1 opt)"
    "replace_span (query_bytes h ls t c 1 opt) qend (length (query_bytes h ls t c 1 opt)) opt' = Inr (query_bytes h ls t c 1 opt')"
    "os_start span = qend \<Longrightarrow> os_end span = length (query_bytes h ls t c 1 opt) \<Longrightarrow>
     remove_opt (query_bytes h ls t c 1 opt) span = Inr (query_bytes h ls t c 0 [])"
proof -
  have sz: "length (query_bytes h ls t c n post) \<le> 1271" if "length post \<le> 1000" for n post
    using length_query_bytes [OF assms(1), of h t c n post] that by linarith
  have addr: "addressable (query_bytes h ls t c n post)" if "length post \<le> 1000" for n post
    using sz [OF that, of n] by (simp add: USIZE_MAX_def)
  note hp = query_bytes_parse(1) [OF assms(1,2) addr]
  let ?w = "u16_to_be (h_id h) @ u16_to_be (h_flags h) @ u16_to_be 1 @ u16_to_be 0 @ u16_to_be 0"
  have ow: "overwrite (query_bytes h ls t c n post) 10 (u16_to_be n') = query_bytes h ls t c n' post" for n n' post
    using overwrite_append [of ?w 10 "u16_to_be n" "u16_to_be n'" "wire_of_labels ls @ u16_to_be t @ u16_to_be c @ post"]
    by (simp add: query_bytes_def)
  have snoc: "query_bytes h ls t c n [] @ post = query_bytes h ls t c n post" for n post
    by (simp add: query_bytes_def)
  have len: "length (query_bytes h ls t c n []) = qend" for n by (simp add: query_bytes_def qend_def)
  have tk: "take qend (query_bytes h ls t c n post) = query_bytes h ls t c n []" for n post
    using len by (metis append_eq_conv_conj snoc)
  show "append_opt (query_bytes h ls t c 0 []) opt = Inr (query_bytes h ls t c 1 opt)"
    using hp [of "[]" 0] sz [OF assms(3), of 0] length_append [of "query_bytes h ls t c 0 []" opt]
    by (simp add: append_opt_def query_header_def snoc ow USIZE_MAX_def flip: length_append)
  have rs: "replace_span (query_bytes h ls t c 1 opt) qend (length (query_bytes h ls t c 1 opt)) new = Inr (query_bytes h ls t c 1 new)"
    if "length new \<le> 1000" for new
  proof -
    have "qend \<le> length (query_bytes h ls t c 1 opt)" using len [of 1] snoc [of 1 opt] by (metis le_add1 length_append)
    moreover have "qend + length new \<le> 1271" using sz [OF that, of 1] len [of 1] snoc [of 1 new] by (metis length_append)
    ultimately show ?thesis by (simp add: replace_span_def Let_def USIZE_MAX_def tk snoc)
  qed
  show "replace_span (query_bytes h ls t c 1 opt) qend (length (query_bytes h ls t c 1 opt)) opt' = Inr (query_bytes h ls t c 1 opt')"
    by (rule rs [OF assms(4)])
  show "os_start span = qend \<Longrightarrow> os_end span = length (query_bytes h ls t c 1 opt) \<Longrightarrow>
     remove_opt (query_bytes h ls t c 1 opt) span = Inr (query_bytes h ls t c 0 [])"
    using rs [of "[]"] hp [OF assms(3), of 1] by (simp add: remove_opt_def query_header_def ow)
qed

lemma encode_rfc6975_options:
  "\<exists>opt. encode_opt sz 0 0 fl (if b then rfc6975_options else []) = Inr opt \<and> length opt \<le> 1000"
  by (simp add: encode_opt_def rfc6975_options_def DNSSEC_ALGORITHMS_def DNSSEC_DIGESTS_def NSEC3_ALGORITHMS_def)

lemma max_512_not_any: "max sz 512 \<noteq> CLASS_ANY"
proof -
  have "512 \<le> max sz (512 :: u16)" by simp
  then show ?thesis by (auto simp: CLASS_ANY_def word_le_nat_alt)
qed



text \<open>
  \<open>parse_record\<close> refuses the class ANY before it looks at the type; in an OPT record that field is the
  payload size, so a record that advertises 255 octets is refused.
\<close>

lemma opt_payload_255_refused:
  "\<exists>opt. encode_opt 255 0 0 0 [] = Inr opt \<and> parse_record opt 0 = Inl InvalidRecord"
proof -
  have "encode_opt 255 0 0 0 [] = Inr ([0] @ u16_to_be 41 @ u16_to_be 255 @ [0, 0] @ u16_to_be 0 @ u16_to_be 0)"
    by (simp add: encode_opt_def wire_type_defs)
  moreover have "parse_record ([0] @ u16_to_be 41 @ u16_to_be 255 @ [0, 0] @ u16_to_be 0 @ u16_to_be 0) 0 = Inl InvalidRecord"
    by (simp add: codec_eval u16_to_be_def wire_type_defs CLASS_ANY_def)
  ultimately show ?thesis by blast
qed

section \<open>The feature state of a server\<close>

datatype feature_event =
    Possible feature_level feature_level instant
  | Success feature_level
  | Failure feature_level instant
  | TlsFailure feature_level instant
  | BadOpt feature_level instant
  | RequiredBadOpt
  | DoOff feature_level instant
  | ResetState

fun feature_step :: "feature_event \<Rightarrow> server_feature_state \<Rightarrow> server_feature_state" where
  "feature_step (Possible best minimum now) s = snd (possible_level s best minimum now)"
| "feature_step (Success level) s = record_success s level"
| "feature_step (Failure level now) s = snd (record_failure s level now)"
| "feature_step (TlsFailure level now) s = snd (record_tls_failure s level now)"
| "feature_step (BadOpt level now) s = snd (record_bad_opt s level now)"
| "feature_step RequiredBadOpt s = record_required_bad_opt s"
| "feature_step (DoOff level now) s = snd (record_do_off s level now)"
| "feature_step ResetState s = feature_reset s"

lemma level_min [simp]: "min l Udp = Udp" "min Udp l = Udp" "Udp \<le> l"
  by (cases l; simp add: less_eq_feature_level_def min_def)+

text \<open>The waiting time of a server stays between its limits, whatever happens.\<close>

definition grace_ok :: "server_feature_state \<Rightarrow> bool" where
  "grace_ok s \<longleftrightarrow> FEATURE_GRACE_PERIOD_MIN \<le> sf_grace_period s \<and> sf_grace_period s \<le> FEATURE_GRACE_PERIOD_MAX"

lemma downgrade_to_grace [simp]: "sf_grace_period (downgrade_to s level now) = sf_grace_period s"
  by (simp add: downgrade_to_def)

lemma grace_limits: "FEATURE_GRACE_PERIOD_MIN \<le> FEATURE_GRACE_PERIOD_MAX"
  by (simp add: FEATURE_GRACE_PERIOD_MIN_def FEATURE_GRACE_PERIOD_MAX_def from_secs_def)

lemma possible_level_grace:
  "sf_grace_period (snd (possible_level s best minimum now)) \<in> {sf_grace_period s, min (sf_grace_period s * 2) FEATURE_GRACE_PERIOD_MAX}"
  by (simp add: possible_level_def Let_def)

lemma feature_step_grace_other:
  "event \<noteq> ResetState \<Longrightarrow> (\<And>b m t. event \<noteq> Possible b m t) \<Longrightarrow> sf_grace_period (feature_step event s) = sf_grace_period s"
  by (cases event)
    (auto simp: record_success_def record_failure_def record_tls_failure_def record_bad_opt_def record_required_bad_opt_def
      record_do_off_def Let_def split: feature_level.splits)

lemma feature_step_grace: "grace_ok s \<Longrightarrow> grace_ok (feature_step event s)"
proof (cases event)
  case (Possible best minimum now)
  assume g: "grace_ok s"
  from possible_level_grace [of s best minimum now] show ?thesis
  proof (rule insertE)
    assume "sf_grace_period (snd (possible_level s best minimum now)) = sf_grace_period s"
    with g show ?thesis by (simp add: grace_ok_def Possible)
  next
    assume "sf_grace_period (snd (possible_level s best minimum now)) \<in> {min (sf_grace_period s * 2) FEATURE_GRACE_PERIOD_MAX}"
    with g grace_limits show ?thesis by (simp add: grace_ok_def Possible)
  qed
next
  case ResetState
  then show ?thesis using grace_limits by (simp add: feature_reset_def server_feature_default_def grace_ok_def)
qed (use feature_step_grace_other [of event s] in \<open>simp_all add: grace_ok_def\<close>)

lemma feature_run_grace: "grace_ok s \<Longrightarrow> grace_ok (fold feature_step events s)"
  by (induction events arbitrary: s) (auto intro: feature_step_grace)

text \<open>An event in a time window that asks for no more than a level as the minimum and resets nothing.\<close>

fun quiet :: "feature_level \<Rightarrow> instant \<Rightarrow> instant \<Rightarrow> feature_event \<Rightarrow> bool" where
  "quiet cap from to (Possible best minimum now) = (minimum \<le> cap \<and> from \<le> now \<and> now < to)"
| "quiet cap from to (Success level) = True"
| "quiet cap from to (Failure level now) = (from \<le> now \<and> now < to)"
| "quiet cap from to (TlsFailure level now) = (from \<le> now \<and> now < to)"
| "quiet cap from to (BadOpt level now) = (from \<le> now \<and> now < to)"
| "quiet cap from to RequiredBadOpt = True"
| "quiet cap from to (DoOff level now) = (from \<le> now \<and> now < to)"
| "quiet cap from to ResetState = False"

definition waiting :: "feature_level \<Rightarrow> duration \<Rightarrow> instant \<Rightarrow> server_feature_state \<Rightarrow> bool" where
  "waiting cap grace to s \<longleftrightarrow> sf_possible s \<le> cap \<and> grace \<le> sf_grace_period s \<and>
     (case sf_retry_after s of None \<Rightarrow> True | Some r \<Rightarrow> to \<le> r)"

lemma waiting_downgrade:
  assumes "waiting cap grace (from + grace) s" "from \<le> now"
  shows "waiting cap grace (from + grace) (downgrade_to s level now)"
  using assms by (auto simp: waiting_def downgrade_to_def split: option.splits)

lemma waiting_same:
  "waiting cap grace to s \<Longrightarrow> sf_possible s' \<le> sf_possible s \<Longrightarrow> sf_grace_period s' = sf_grace_period s \<Longrightarrow>
   sf_retry_after s' = sf_retry_after s \<Longrightarrow> waiting cap grace to s'"
  by (auto simp: waiting_def intro: order_trans)

lemma waiting_cap: "waiting cap grace to s \<Longrightarrow> waiting cap grace to (if b < sf_possible s then s\<lparr>sf_possible := b\<rparr> else s)"
  by (auto simp: waiting_def)

lemma waiting_possible:
  assumes "waiting cap grace to s" "minimum \<le> cap" "now < to"
  shows "waiting cap grace to (snd (possible_level s best minimum now))"
proof -
  let ?m = "if sf_required_bad_opt s then min minimum Udp else minimum"
  let ?s1 = "if sf_required_bad_opt s \<and> uses_edns (sf_possible s) then s\<lparr>sf_possible := min (sf_possible s) Udp\<rparr> else s"
  let ?s2 = "if sf_possible ?s1 > best then ?s1\<lparr>sf_possible := best\<rparr> else ?s1"
  let ?s3 = "if sf_possible ?s2 < ?m then ?s2\<lparr>sf_possible := min ?m best, sf_failed_attempts := 0, sf_retry_after := None\<rparr> else ?s2"
  have m: "?m \<le> cap" using assms(2) by simp
  have 1: "waiting cap grace to ?s1" by (rule waiting_same [OF assms(1)]) simp_all
  have 2: "waiting cap grace to ?s2" by (rule waiting_cap [OF 1])
  have 3: "waiting cap grace to ?s3"
    using 2 m by (auto simp: waiting_def min_le_iff_disj)
  then have "\<not> (case sf_retry_after ?s3 of Some retry_after \<Rightarrow> retry_after \<le> now | None \<Rightarrow> False)"
    using assms(3) by (auto simp: waiting_def split: option.splits)
  then have "snd (possible_level s best minimum now) = ?s3"
    unfolding possible_level_def Let_def by simp
  with 3 show ?thesis by simp
qed

lemma waiting_step:
  assumes "waiting cap grace (from + grace) s" "quiet cap from (from + grace) event"
  shows "waiting cap grace (from + grace) (feature_step event s)"
proof (cases event)
  case (Possible best minimum now)
  then show ?thesis using waiting_possible [OF assms(1)] assms(2) by simp
next
  case (Success level)
  then show ?thesis by (auto simp: record_success_def Let_def intro!: waiting_same [OF assms(1)])
next
  case (Failure level now)
  have "waiting cap grace (from + grace) (s\<lparr>sf_failed_attempts := n\<rparr>)" for n
    by (rule waiting_same [OF assms(1)]) simp_all
  with Failure assms show ?thesis by (simp add: record_failure_def Let_def waiting_downgrade)
next
  case (TlsFailure level now)
  then show ?thesis using assms by (cases level) (simp_all add: record_tls_failure_def waiting_downgrade)
next
  case (BadOpt level now)
  have "waiting cap grace (from + grace) (s\<lparr>sf_bad_opt := True\<rparr>)" by (rule waiting_same [OF assms(1)]) simp_all
  with BadOpt assms show ?thesis by (simp add: record_bad_opt_def Let_def waiting_downgrade del: uses_edns.simps)
next
  case RequiredBadOpt
  then show ?thesis by (auto simp: record_required_bad_opt_def intro: waiting_same [OF assms(1)])
next
  case (DoOff level now)
  then show ?thesis using assms by (simp add: record_do_off_def Let_def waiting_downgrade)
next
  case ResetState
  then show ?thesis using assms(2) by simp
qed

lemma waiting_run:
  "waiting cap grace (from + grace) s \<Longrightarrow> list_all (quiet cap from (from + grace)) events \<Longrightarrow>
   waiting cap grace (from + grace) (fold feature_step events s)"
  by (induction events arbitrary: s) (auto intro: waiting_step)

lemma possible_level_retry:
  assumes "sf_possible s < best" "minimum \<le> sf_possible s" "sf_retry_after s = Some r" "r \<le> now"
  shows "fst (possible_level s best minimum now) = best"
proof -
  have "Udp < best" using assms(1) by (cases "sf_possible s"; cases best) (simp_all add: less_feature_level_def)
  with assms show ?thesis
    by (cases "sf_required_bad_opt s") (auto simp: possible_level_def Let_def)
qed



text \<open>
  A server known to break on EDNS that is required is asked at an EDNS level once more when a retry is due:
  the level is first lowered to plain UDP and then raised to the best level.
\<close>

lemma required_bad_opt_retried:
  "sf_required_bad_opt (record_required_bad_opt (downgrade_to server_feature_default DnssecOk 0))"
  "fst (possible_level (record_required_bad_opt (downgrade_to server_feature_default DnssecOk 0)) TlsDnssecOk Udp (from_secs 300)) = TlsDnssecOk"
proof -
  have r: "sf_retry_after (downgrade_to server_feature_default DnssecOk 0) = Some (from_secs 300)"
    by (simp add: downgrade_to_def server_feature_default_def less_eq_feature_level_def FEATURE_GRACE_PERIOD_MIN_def)
  show "sf_required_bad_opt (record_required_bad_opt (downgrade_to server_feature_default DnssecOk 0))"
    by (simp add: record_required_bad_opt_def)
  show "fst (possible_level (record_required_bad_opt (downgrade_to server_feature_default DnssecOk 0)) TlsDnssecOk Udp (from_secs 300)) = TlsDnssecOk"
    by (rule possible_level_retry [where r = "from_secs 300"])
      (simp_all add: record_required_bad_opt_def r less_feature_level_def)
qed

end
