(* ===== verification/Dnssec_Names.thy ===== *)
theory Dnssec_Names
  imports Wire_Records "HOL-Library.List_Lexorder"
begin

text \<open>
  Names as the validator handles them (\<open>src/src/resolver_dnssec.rs\<close>): normalised text, the ancestors of a
  name, the names below a name, and the order of names on the wire that NSEC records use. The properties:
  the two ways the code tests for an ancestor agree, the order is the one of RFC 4034, and the interval of
  an NSEC record holds exactly the names strictly between its ends.
\<close>

section \<open>Names as text\<close>

definition normalize_dns_name :: "string \<Rightarrow> string" where
  "normalize_dns_name name =
     (let name = to_ascii_lowercase (trim_end_dots (trim name)) in if name = [] then ''.'' else name)"

definition dns_names_equal :: "string \<Rightarrow> string \<Rightarrow> bool" where
  "dns_names_equal left right \<longleftrightarrow> normalize_dns_name left = normalize_dns_name right"

definition dns_name_ancestors :: "string \<Rightarrow> string list" where
  "dns_name_ancestors name =
     (let normalized = normalize_dns_name name in
      if normalized = ''.'' then [normalized]
      else
        let labels = split_dots normalized
        in ''.'' # map (\<lambda>index. join_labels (drop index labels)) (rev [0..<length labels]))"

definition dns_name_is_at_or_below :: "string \<Rightarrow> string \<Rightarrow> bool" where
  "dns_name_is_at_or_below name parent \<longleftrightarrow>
     (let name = normalize_dns_name name;
          parent = normalize_dns_name parent
      in parent = ''.'' \<or> name = parent \<or>
         (case strip_suffix parent name of Some prefix \<Rightarrow> ends_with ''.'' prefix | None \<Rightarrow> False))"

definition dns_name_parent :: "string \<Rightarrow> string option" where
  "dns_name_parent name =
     (let normalized = normalize_dns_name name in
      if normalized = ''.'' then None
      else Some (case split_once CHR ''.'' normalized of None \<Rightarrow> ''.'' | Some (_, parent) \<Rightarrow> parent))"

definition text_labels :: "string \<Rightarrow> string list" where
  "text_labels name = (if name = ''.'' then [] else split_dots name)"

fun common_prefix :: "'a list \<Rightarrow> 'a list \<Rightarrow> 'a list" where
  "common_prefix (x # xs) (y # ys) = (if x \<noteq> y then [] else x # common_prefix xs ys)"
| "common_prefix _ _ = []"

definition dns_name_common_suffix :: "string \<Rightarrow> string \<Rightarrow> string" where
  "dns_name_common_suffix left right =
     (let left = text_labels (normalize_dns_name left);
          right = text_labels (normalize_dns_name right);
          common = rev (common_prefix (rev left) (rev right))
      in if common = [] then ''.'' else join_labels common)"

definition dns_name_suffix :: "string \<Rightarrow> nat \<Rightarrow> string option" where
  "dns_name_suffix name labels =
     (let normalized = normalize_dns_name name in
      if normalized = ''.'' then if labels = 0 then Some ''.'' else None
      else
        let parts = split_dots normalized in
        if labels > length parts then None
        else if labels = 0 then Some ''.''
        else Some (join_labels (drop (length parts - labels) parts)))"

section \<open>Names on the wire\<close>

function dns_wire_labels_loop :: "bytes \<Rightarrow> nat \<Rightarrow> bytes list \<Rightarrow> wire_error + bytes list" where
  "dns_wire_labels_loop name offset labels =
     and_then (ok_or (get_at name offset) (InvalidName ''truncated wire name'')) (\<lambda>len.
     if unat len = 0 then
       if offset + 1 \<noteq> length name then Inl (InvalidName ''trailing wire name data'') else Inr labels
     else if unat len > 63 then Inl InvalidLabel
     else
       and_then (ok_or (usize_checked_add (offset + 1) (unat len)) NameTooLong) (\<lambda>stop.
       and_then (ok_or (get_range name (offset + 1) stop) InvalidLabel) (\<lambda>label.
       dns_wire_labels_loop name stop (labels @ [label]))))"
  by pat_completeness auto

termination
  by (relation "measure (\<lambda>(name, offset, _). length name - offset)")
    (auto simp: slice_simps result_simps usize_checked_add_def split: if_splits)

declare dns_wire_labels_loop.simps [simp del]

definition dns_wire_labels :: "bytes \<Rightarrow> wire_error + bytes list" where
  "dns_wire_labels name = dns_wire_labels_loop name 0 []"

definition dns_name_label_count :: "bytes \<Rightarrow> wire_error + nat" where
  "dns_name_label_count name = and_then (dns_wire_labels name) (\<lambda>labels. Inr (length labels))"

datatype ordering = OrdLess | OrdEqual | OrdGreater

definition ord_cmp :: "'a :: linorder \<Rightarrow> 'a \<Rightarrow> ordering" where
  "ord_cmp x y = (if x < y then OrdLess else if x = y then OrdEqual else OrdGreater)"

text \<open>The loop over the pairs of labels from the right, and the comparison of the numbers of labels.\<close>

fun cmp_label_pairs :: "(bytes \<times> bytes) list \<Rightarrow> ordering \<Rightarrow> ordering" where
  "cmp_label_pairs [] dflt = dflt"
| "cmp_label_pairs ((left, right) # pairs) dflt =
     (if ord_cmp left right \<noteq> OrdEqual then ord_cmp left right else cmp_label_pairs pairs dflt)"

definition canonical_dns_name_cmp :: "bytes \<Rightarrow> bytes \<Rightarrow> wire_error + ordering" where
  "canonical_dns_name_cmp left right =
     and_then (dns_wire_labels left) (\<lambda>left.
     and_then (dns_wire_labels right) (\<lambda>right.
     Inr (cmp_label_pairs (zip (rev left) (rev right)) (ord_cmp (length left) (length right)))))"

definition canonical_name_interval_covers :: "bytes \<Rightarrow> bytes \<Rightarrow> bytes \<Rightarrow> wire_error + bool" where
  "canonical_name_interval_covers owner nxt name =
     and_then (canonical_dns_name_cmp owner nxt) (\<lambda>owner_to_next.
     and_then (canonical_dns_name_cmp owner name) (\<lambda>owner_to_name.
     and_then (canonical_dns_name_cmp name nxt) (\<lambda>name_to_next.
     Inr (case owner_to_next of
            OrdLess \<Rightarrow> owner_to_name = OrdLess \<and> name_to_next = OrdLess
          | OrdGreater \<Rightarrow> owner_to_name = OrdLess \<or> name_to_next = OrdLess
          | OrdEqual \<Rightarrow> owner_to_name \<noteq> OrdEqual))))"

section \<open>Lemmas: text\<close>

text \<open>Text of visible ASCII characters, as the text of every name read from a message.\<close>

definition plain_text :: "string \<Rightarrow> bool" where
  "plain_text s \<longleftrightarrow> (\<forall>c \<in> set s. 32 < unat (byte_of c) \<and> unat (byte_of c) < 128)"

lemma whitespace_not_plain:
  "\<forall>w \<in> set whitespace_chars. \<forall>c \<in> set w. \<not> (32 < unat (byte_of c) \<and> unat (byte_of c) < 128)"
  by code_simp

lemma leading_plain:
  assumes "plain_text s" "\<forall>w \<in> set ws. \<forall>c \<in> set w. \<not> (32 < unat (byte_of c) \<and> unat (byte_of c) < 128)"
  shows "leading ws s = None"
  unfolding leading_eq_None
proof (intro ballI impI notI)
  fix w assume w: "w \<in> set ws" "w \<noteq> []" "take (length w) s = w"
  then have "hd w \<in> set w" "set w \<subseteq> set s" using set_take_subset [of "length w" s] by auto
  with assms w(1) show False unfolding plain_text_def by blast
qed

lemma trim_plain [simp]:
  assumes "plain_text s"
  shows "trim s = s"
proof -
  have "plain_text (rev s)" "\<forall>w \<in> set (map rev whitespace_chars). \<forall>c \<in> set w. \<not> (32 < unat (byte_of c) \<and> unat (byte_of c) < 128)"
    using assms whitespace_not_plain by (auto simp: plain_text_def)
  then have "trim_leading (map rev whitespace_chars) (rev s) = rev s" by (intro trim_leading_None leading_plain)
  moreover have "trim_leading whitespace_chars s = s" using assms whitespace_not_plain by (intro trim_leading_None leading_plain)
  ultimately show ?thesis by (simp add: trim_def)
qed

lemma normalize_nonempty [simp]: "normalize_dns_name name \<noteq> []"
  by (simp add: normalize_dns_name_def Let_def)

lemma normalize_root [simp]: "normalize_dns_name ''.'' = ''.''"
  by code_simp

lemma normalize_last: "normalize_dns_name name = ''.'' \<or> last (normalize_dns_name name) \<noteq> CHR ''.''"
  using last_lowercase_dot trim_end_dots_last by (auto simp: normalize_dns_name_def Let_def)

lemma last_split_dots: "s \<noteq> [] \<Longrightarrow> last s \<noteq> CHR ''.'' \<Longrightarrow> last (split_dots s) \<noteq> []"
proof (induction s)
  case (Cons c s)
  then show ?case by (cases "s = []"; cases "split_dots s") auto
qed simp

lemma join_split_dots: "join_labels (split_dots s) = s"
  using split_dots_join [of "split_dots s"] split_dots_no_dots [of _ s] by (simp add: split_dots_inject)

lemma at_or_below_iff:
  "dns_name_is_at_or_below name parent \<longleftrightarrow>
   (\<exists>p. text_labels (normalize_dns_name name) = p @ text_labels (normalize_dns_name parent))"
proof (cases "normalize_dns_name parent = ''.''")
  case False
  let ?n = "normalize_dns_name name" and ?d = "normalize_dns_name parent"
  have b: "dns_name_is_at_or_below name parent \<longleftrightarrow> ?n = ?d \<or> (\<exists>q. ?n = (q @ ''.'') @ ?d)"
    using False by (auto simp: dns_name_is_at_or_below_def Let_def ends_with_iff strip_suffix_append split: option.splits)
      (auto simp: strip_suffix_eq_None strip_suffix_eq_Some)
  show ?thesis
  proof (cases "?n = ''.''")
    case True
    have "length ?n < length (q @ ''.'' @ ?d)" for q using True normalize_nonempty [of parent] by (cases ?d) auto
    then have "\<not> (\<exists>q. ?n = (q @ ''.'') @ ?d)" by (metis append.assoc less_irrefl)
    then show ?thesis unfolding b using True False by (simp add: text_labels_def)
  next
    case n: False
    then show ?thesis unfolding b split_dots_suffix_iff using False by (simp add: text_labels_def)
  qed
qed (simp add: dns_name_is_at_or_below_def text_labels_def)

lemma split_dots_not_root: "last (split_dots s) \<noteq> [] \<Longrightarrow> s \<noteq> ''.''" by auto

lemma ancestors_iff:
  assumes "normalize_dns_name a = a"
  shows "a \<in> set (dns_name_ancestors name) \<longleftrightarrow> (\<exists>p. text_labels (normalize_dns_name name) = p @ text_labels a)"
proof (cases "normalize_dns_name name = ''.'' \<or> a = ''.''")
  case True
  then show ?thesis using normalize_nonempty [of a] assms
    by (auto simp: dns_name_ancestors_def Let_def text_labels_def)
next
  case False
  let ?ls = "split_dots (normalize_dns_name name)"
  have eq: "a = join_labels (drop i ?ls) \<longleftrightarrow> split_dots a = drop i ?ls" if "i < length ?ls" for i
    using that split_dots_join [of "drop i ?ls"] join_split_dots [of a]
      split_dots_no_dots [of _ "normalize_dns_name name"] by (auto dest: in_set_dropD)
  have "a \<in> set (dns_name_ancestors name) \<longleftrightarrow> (\<exists>i < length ?ls. split_dots a = drop i ?ls)"
    using False eq by (simp add: dns_name_ancestors_def Let_def image_iff) (metis atLeastLessThan_iff le0)
  also have "\<dots> \<longleftrightarrow> (\<exists>p. ?ls = p @ split_dots a)"
  proof
    assume "\<exists>i < length ?ls. split_dots a = drop i ?ls"
    then show "\<exists>p. ?ls = p @ split_dots a" by (metis append_take_drop_id)
  next
    assume "\<exists>p. ?ls = p @ split_dots a"
    then obtain p where p: "?ls = p @ split_dots a" by blast
    then show "\<exists>i < length ?ls. split_dots a = drop i ?ls"
      by (intro exI [of _ "length p"]) (auto simp: p)
  qed
  finally show ?thesis using False by (simp add: text_labels_def)
qed

lemma ancestors_nth:
  "length (dns_name_ancestors name) = length (text_labels (normalize_dns_name name)) + 1"
  "i < length (dns_name_ancestors name) \<Longrightarrow> dns_name_suffix name i = Some (dns_name_ancestors name ! i)"
  "length (dns_name_ancestors name) \<le> i \<Longrightarrow> dns_name_suffix name i = None"
  by (auto simp: dns_name_ancestors_def dns_name_suffix_def text_labels_def Let_def nth_Cons rev_nth split: nat.splits if_splits)

text \<open>
  C0: The two ways to climb a name agree. The ancestors of a name, from the root down, are its suffixes of
  0, 1, 2, ... labels that \<open>dns_name_suffix\<close> cuts, and \<open>dns_name_suffix\<close> fails past them; a normalised name
  is among them exactly when \<open>dns_name_is_at_or_below\<close> says that the name is at or below it.
\<close>

theorem dns_name_ancestors_agree:
  assumes "normalize_dns_name a = a"
  shows "map Some (dns_name_ancestors name) = map (dns_name_suffix name) [0..<length (dns_name_ancestors name)] \<and>
    (dns_name_suffix name i = None \<longleftrightarrow> length (dns_name_ancestors name) \<le> i) \<and>
    (a \<in> set (dns_name_ancestors name) \<longleftrightarrow> dns_name_is_at_or_below name a)"
proof (intro conjI)
  show "map Some (dns_name_ancestors name) = map (dns_name_suffix name) [0..<length (dns_name_ancestors name)]"
    by (rule nth_equalityI) (simp_all add: ancestors_nth(2))
  show "dns_name_suffix name i = None \<longleftrightarrow> length (dns_name_ancestors name) \<le> i"
    using ancestors_nth(2) [of i name] ancestors_nth(3) [of name i] by (cases "i < length (dns_name_ancestors name)") auto
  show "a \<in> set (dns_name_ancestors name) \<longleftrightarrow> dns_name_is_at_or_below name a"
    using ancestors_iff [OF assms] at_or_below_iff [of name a] assms by simp
qed

theorem dns_name_ancestors_agree_witness:
  "dns_name_ancestors ''www.Example.org.'' = [''.'', ''org'', ''example.org'', ''www.example.org''] \<and>
   dns_name_suffix ''www.Example.org.'' 4 = None \<and> dns_name_is_at_or_below ''www.Example.org.'' ''example.org''"
proof -
  have a: "normalize_dns_name ''example.org'' = ''example.org''" by code_simp
  have e: "dns_name_ancestors ''www.Example.org.'' = [''.'', ''org'', ''example.org'', ''www.example.org'']" by code_simp
  show ?thesis using dns_name_ancestors_agree [OF a, of "''www.Example.org.''" 4] by (simp add: e)
qed

section \<open>Lemmas: names on the wire\<close>

lemma wire_labels_loop_of:
  assumes "list_all valid_label ls" "addressable (pre @ wire_of_labels ls)"
  shows "dns_wire_labels_loop (pre @ wire_of_labels ls) (length pre) acc = Inr (acc @ ls)"
  using assms
proof (induction ls arbitrary: pre acc)
  case Nil
  then show ?case by (simp add: dns_wire_labels_loop.simps)
next
  case (Cons l ls)
  have l: "l \<noteq> []" "length l \<le> 63" "list_all valid_label ls" using Cons.prems(1) by (simp_all add: valid_label_def [of l])
  have u: "unat (of_nat (length l) :: u8) = length l" using l(2) by (intro unat_of_nat_u8) simp
  have "dns_wire_labels_loop ((pre @ of_nat (length l) # l) @ wire_of_labels ls) (length (pre @ of_nat (length l) # l)) (acc @ [l]) =
    Inr ((acc @ [l]) @ ls)"
    using Cons.prems(2) l by (intro Cons.IH) simp_all
  moreover have "get_range (pre @ of_nat (length l) # l @ wire_of_labels ls) (Suc (length pre)) (Suc (length pre + length l)) = Some l"
    by (simp add: get_range_def)
  moreover have "usize_checked_add (length pre + 1) (length l) = Some (Suc (length pre + length l))"
    using Cons.prems(2) by (simp add: usize_checked_add_def)
  ultimately show ?case using l u
    by (subst dns_wire_labels_loop.simps) simp
qed

lemma wire_labels_loop_sound:
  "dns_wire_labels_loop name off acc = Inr out \<Longrightarrow> 
     \<exists>ls. out = acc @ ls \<and> list_all valid_label ls \<and> drop off name = wire_of_labels ls"
proof (induction name off acc rule: dns_wire_labels_loop.induct)
  case (1 name off acc)
  from 1(2) obtain len where len: "get_at name off = Some len"
    and r: "(if unat len = 0 then if off + 1 \<noteq> length name then Inl (InvalidName ''trailing wire name data'') else Inr acc
     else if unat len > 63 then Inl InvalidLabel
     else and_then (ok_or (usize_checked_add (off + 1) (unat len)) NameTooLong) (\<lambda>stop.
       and_then (ok_or (get_range name (off + 1) stop) InvalidLabel) (\<lambda>label.
       dns_wire_labels_loop name stop (acc @ [label])))) = Inr out"
    by (subst (asm) dns_wire_labels_loop.simps) (auto simp: result_simps)
  have off: "off < length name" "name ! off = len" using len by (simp_all add: slice_simps)
  show ?case
  proof (cases "unat len = 0")
    case True
    then have "len = 0" by (simp add: unat_eq_0)
    moreover have "drop off name = [len]" using True r off
      by (auto simp: Cons_nth_drop_Suc [symmetric] split: if_splits)
    ultimately show ?thesis using True r by (auto split: if_splits)
  next
    case False
    then obtain stop label where s: "\<not> unat len > 63" "usize_checked_add (off + 1) (unat len) = Some stop"
      "get_range name (off + 1) stop = Some label" "dns_wire_labels_loop name stop (acc @ [label]) = Inr out"
      using r by (auto simp: result_simps split: if_splits)
    then have stop: "stop = off + 1 + unat len" by (simp add: usize_checked_add_def split: if_splits)
    have lab: "label = take (unat len) (drop (off + 1) name)" "stop \<le> length name"
      using s(3) by (simp_all add: slice_simps stop)
    from 1(1) [of len stop label] s len False obtain ls where ls: "out = (acc @ [label]) @ ls" "list_all valid_label ls"
      "drop stop name = wire_of_labels ls" by auto
    have ll: "length label = unat len" using lab stop by simp
    then have v: "valid_label label" using False s(1) by (auto simp: valid_label_def)
    have "drop off name = len # label @ drop stop name"
      using off lab stop append_take_drop_id [of "unat len" "drop (Suc off) name"]
      by (simp add: Cons_nth_drop_Suc [symmetric] add.commute del: append_take_drop_id)
    moreover have "of_nat (length label) = len" by (simp add: ll)
    ultimately show ?thesis using ls v by (intro exI [of _ "label # ls"]) simp
  qed
qed

lemma dns_wire_labels_iff:
  assumes "addressable name"
  shows "dns_wire_labels name = Inr ls \<longleftrightarrow> list_all valid_label ls \<and> name = wire_of_labels ls"
  using wire_labels_loop_of [of ls "[]" "[]"] wire_labels_loop_sound [of name 0 "[]" ls] assms
  by (auto simp: dns_wire_labels_def)

lemma cmp_label_pairs_lex: "cmp_label_pairs (zip xs ys) (ord_cmp (length xs) (length ys)) = ord_cmp xs ys"
proof (induction xs arbitrary: ys)
  case Nil
  then show ?case by (cases ys) (simp_all add: ord_cmp_def)
next
  case (Cons x xs)
  show ?case
  proof (cases ys)
    case (Cons y ys')
    then show ?thesis using Cons.IH [of ys'] by (auto simp: ord_cmp_def split: if_splits)
  qed (simp add: ord_cmp_def)
qed

lemma ord_cmp_simps [simp]:
  "ord_cmp x y = OrdLess \<longleftrightarrow> x < y" "ord_cmp x y = OrdEqual \<longleftrightarrow> x = y" "ord_cmp x y = OrdGreater \<longleftrightarrow> y < x"
  by (auto simp: ord_cmp_def)

lemma canonical_dns_name_cmp_lex:
  "canonical_dns_name_cmp left right = Inr order \<longleftrightarrow>
     (\<exists>ls rs. dns_wire_labels left = Inr ls \<and> dns_wire_labels right = Inr rs \<and> order = ord_cmp (rev ls) (rev rs))"
  using cmp_label_pairs_lex [of "rev ls" "rev rs" for ls rs]
  by (auto simp: canonical_dns_name_cmp_def result_simps)

text \<open>
  C0: The order of names and the interval of an NSEC record. On names of valid labels, \<open>canonical_dns_name_cmp\<close>
  compares the label sequences from the right, label by label as octet strings, a missing label first: the
  canonical order of RFC 4034. The interval of a record then holds the names strictly between its owner and
  its next name, going round at the end of the zone, and all names but the owner when both are equal.
\<close>

theorem canonical_name_interval_exact:
  assumes "list_all valid_label ls" "list_all valid_label ns" "list_all valid_label xs"
    "addressable (wire_of_labels ls)" "addressable (wire_of_labels ns)" "addressable (wire_of_labels xs)"
  shows "canonical_dns_name_cmp (wire_of_labels ls) (wire_of_labels xs) = Inr (ord_cmp (rev ls) (rev xs)) \<and>
    canonical_name_interval_covers (wire_of_labels ls) (wire_of_labels ns) (wire_of_labels xs) =
      Inr (if rev ls < rev ns then rev ls < rev xs \<and> rev xs < rev ns
           else if ls = ns then xs \<noteq> ls
           else rev ls < rev xs \<or> rev xs < rev ns)"
proof -
  have w: "dns_wire_labels (wire_of_labels ls) = Inr ls" "dns_wire_labels (wire_of_labels ns) = Inr ns"
    "dns_wire_labels (wire_of_labels xs) = Inr xs"
    using assms by (simp_all add: dns_wire_labels_iff)
  have c: "canonical_dns_name_cmp (wire_of_labels ls) (wire_of_labels ns) = Inr (ord_cmp (rev ls) (rev ns))"
    "canonical_dns_name_cmp (wire_of_labels ls) (wire_of_labels xs) = Inr (ord_cmp (rev ls) (rev xs))"
    "canonical_dns_name_cmp (wire_of_labels xs) (wire_of_labels ns) = Inr (ord_cmp (rev xs) (rev ns))"
    using w by (simp_all add: canonical_dns_name_cmp_lex)
  consider "rev ls < rev ns" | "ls = ns" | "rev ns < rev ls" using linorder_less_linear [of "rev ls" "rev ns"] by auto
  then show ?thesis
    by cases (use c in \<open>auto simp: canonical_name_interval_covers_def ord_cmp_def dest: order.strict_trans\<close>)
qed

theorem canonical_name_interval_exact_witness:
  "canonical_name_interval_covers (wire_of_labels [[97], [122]]) (wire_of_labels [[99], [122]]) (wire_of_labels [[120], [97], [122]]) =
     Inr True \<and>
   canonical_name_interval_covers (wire_of_labels [[99], [122]]) (wire_of_labels [[122]]) (wire_of_labels [[97], [122]]) = Inr False"
  using canonical_name_interval_exact [of "[[97], [122]]" "[[99], [122]]" "[[120], [97], [122]]"]
    canonical_name_interval_exact [of "[[99], [122]]" "[[122]]" "[[97], [122]]"]
  by (simp add: valid_label_def USIZE_MAX_def)

end
