(* ===== verification/Dnssec_Records.thy ===== *)
theory Dnssec_Records
  imports Wire_Packet
begin

text \<open>
  DNSSEC records (\<open>src/src/wire/dnssec_records.rs\<close>, \<open>src/src/wire/dnssec.rs\<close>): the data of DNSKEY, DS,
  RRSIG, NSEC, NSEC3 and NSEC3PARAM records, key tags, type bitmaps, and the test for missing root
  signatures. The properties: a type bitmap is accepted exactly when it is the canonical encoding of the
  types that are read from it, and the sum of a key tag never wraps around.
\<close>

section \<open>Records\<close>

definition TYPE_DS :: u16 where "TYPE_DS = 43"
definition TYPE_NSEC :: u16 where "TYPE_NSEC = 47"
definition TYPE_DNSKEY :: u16 where "TYPE_DNSKEY = 48"
definition TYPE_NSEC3 :: u16 where "TYPE_NSEC3 = 50"
definition RRSIG_FIXED_FIELDS_LEN :: nat where "RRSIG_FIXED_FIELDS_LEN = 18"
definition RRSIG_MINIMUM_RDATA_LEN :: nat where "RRSIG_MINIMUM_RDATA_LEN = RRSIG_FIXED_FIELDS_LEN + 2"

record nsec3_param_record =
  n3p_hash_algorithm :: u8
  n3p_flags :: u8
  n3p_iterations :: u16
  n3p_salt_length :: u8
  n3p_salt :: bytes

record dnskey_record =
  dk_flags :: u16
  dk_protocol :: u8
  dk_algorithm :: u8
  dk_public_key :: bytes

record ds_record =
  ds_key_tag :: u16
  ds_algorithm :: u8
  ds_digest_type :: u8
  ds_digest :: bytes

record rrsig_record =
  sig_type_covered :: u16
  sig_algorithm :: u8
  sig_labels :: u8
  sig_original_ttl :: u32
  sig_expiration :: u32
  sig_inception :: u32
  sig_key_tag :: u16
  sig_signer :: dns_name
  sig_signature :: bytes

record nsec_record =
  nsec_next_domain :: dns_name
  nsec_types :: "u16 list"

record nsec3_record =
  n3_hash_algorithm :: u8
  n3_flags :: u8
  n3_iterations :: u16
  n3_salt :: bytes
  n3_next_hashed_owner :: bytes
  n3_types :: "u16 list"

definition nsec3_param_parse :: "bytes \<Rightarrow> wire_error + nsec3_param_record" where
  "nsec3_param_parse rdata =
     (if length rdata < 5 then Inl InvalidRecord
      else if length rdata \<noteq> 5 + unat (rdata ! 4) then Inl InvalidRecord
      else Inr \<lparr>n3p_hash_algorithm = rdata ! 0, n3p_flags = rdata ! 1, n3p_iterations = u16_from_be (rdata ! 2) (rdata ! 3),
                n3p_salt_length = rdata ! 4, n3p_salt = drop 5 rdata\<rparr>)"

definition parse_dnskey :: "resource_record \<Rightarrow> wire_error + dnskey_record" where
  "parse_dnskey r =
     (if rr_rr_type r \<noteq> TYPE_DNSKEY \<or> length (rr_rdata r) < 4 then Inl InvalidRecord
      else
        let protocol = rr_rdata r ! 2;
            public_key = drop 4 (rr_rdata r)
        in if protocol \<noteq> 3 \<or> public_key = [] then Inl InvalidRecord
           else Inr \<lparr>dk_flags = u16_from_be (rr_rdata r ! 0) (rr_rdata r ! 1), dk_protocol = protocol,
                     dk_algorithm = rr_rdata r ! 3, dk_public_key = public_key\<rparr>)"

definition parse_ds :: "resource_record \<Rightarrow> wire_error + ds_record" where
  "parse_ds r =
     (if rr_rr_type r \<noteq> TYPE_DS \<or> length (rr_rdata r) < 5 then Inl InvalidRecord
      else
        let digest_type = rr_rdata r ! 3;
            digest = drop 4 (rr_rdata r);
            expected = (if digest_type = 1 then 20 else if digest_type = 2 then 32 else if digest_type = 4 then 48
                        else length digest)
        in if digest = [] \<or> length digest \<noteq> expected then Inl InvalidRecord
           else Inr \<lparr>ds_key_tag = u16_from_be (rr_rdata r ! 0) (rr_rdata r ! 1), ds_algorithm = rr_rdata r ! 2,
                     ds_digest_type = digest_type, ds_digest = digest\<rparr>)"

definition parse_rrsig :: "bytes \<Rightarrow> resource_record \<Rightarrow> wire_error + rrsig_record" where
  "parse_rrsig packet r =
     (if rr_rr_type r \<noteq> TYPE_RRSIG \<or> length (rr_rdata r) < RRSIG_MINIMUM_RDATA_LEN then Inl InvalidRecord
      else
        and_then (checked_end (rr_rdata_offset r) RRSIG_FIXED_FIELDS_LEN) (\<lambda>signer_offset.
        and_then (read_name packet signer_offset) (\<lambda>(signer, signature_offset).
        if signature_offset \<ge> rr_next_offset r then Inl InvalidRecord
        else
          and_then (ok_or (get_range packet signature_offset (rr_next_offset r)) InvalidRecord) (\<lambda>signature.
          if signature = [] then Inl InvalidRecord
          else
            let d = rr_rdata r in
            Inr \<lparr>sig_type_covered = u16_from_be (d ! 0) (d ! 1), sig_algorithm = d ! 2, sig_labels = d ! 3,
                 sig_original_ttl = u32_from_be (d ! 4) (d ! 5) (d ! 6) (d ! 7),
                 sig_expiration = u32_from_be (d ! 8) (d ! 9) (d ! 10) (d ! 11),
                 sig_inception = u32_from_be (d ! 12) (d ! 13) (d ! 14) (d ! 15),
                 sig_key_tag = u16_from_be (d ! 16) (d ! 17), sig_signer = signer, sig_signature = signature\<rparr>))))"

section \<open>Type bitmaps\<close>

text \<open>The types of one window: the bits of its octets from the most significant one on.\<close>

definition octet_types :: "u8 \<Rightarrow> nat \<Rightarrow> u8 \<Rightarrow> u16 list" where
  "octet_types window octet byte =
     map (\<lambda>bit. ucast window * 256 + of_nat (octet * 8 + bit)) (filter (\<lambda>bit. byte AND drop_bit bit 0x80 \<noteq> 0) [0..<8])"

definition window_types :: "u8 \<Rightarrow> bytes \<Rightarrow> u16 list" where
  "window_types window bytes = concat (map (\<lambda>(octet, byte). octet_types window octet byte) (enumerate 0 bytes))"

text \<open>The loop of \<open>parse_type_bitmap\<close> over the rest of the bitmap.\<close>

function parse_bitmap_loop :: "bytes \<Rightarrow> u8 option \<Rightarrow> u16 list \<Rightarrow> wire_error + u16 list" where
  "parse_bitmap_loop bitmap previous_window types =
     (if bitmap = [] then Inr types
      else
        and_then (ok_or (get_at bitmap 1) InvalidRecord) (\<lambda>len.
        let window = bitmap ! 0 in
        if unat len = 0 \<or> unat len > 32 \<or> (case previous_window of Some previous \<Rightarrow> window \<le> previous | None \<Rightarrow> False)
        then Inl InvalidRecord
        else
          and_then (ok_or (get_range bitmap 2 (2 + unat len)) InvalidRecord) (\<lambda>bytes.
          if last bytes = 0 then Inl InvalidRecord
          else parse_bitmap_loop (drop (2 + unat len) bitmap) (Some window) (types @ window_types window bytes))))"
  by pat_completeness auto

termination
  by (relation "measure (\<lambda>(bitmap, _, _). length bitmap)") (auto simp: slice_simps)

declare parse_bitmap_loop.simps [simp del]

definition parse_type_bitmap :: "bytes \<Rightarrow> wire_error + u16 list" where
  "parse_type_bitmap bitmap =
     and_then (parse_bitmap_loop bitmap None []) (\<lambda>types.
     if types = [] then Inl InvalidRecord else Inr types)"

definition parse_nsec :: "bytes \<Rightarrow> resource_record \<Rightarrow> wire_error + nsec_record" where
  "parse_nsec packet r =
     (if rr_rr_type r \<noteq> TYPE_NSEC \<or> rr_rdata r = [] then Inl InvalidRecord
      else
        and_then (read_name packet (rr_rdata_offset r)) (\<lambda>(next_domain, bitmap_offset).
        if bitmap_offset \<ge> rr_next_offset r then Inl InvalidRecord
        else
          and_then (ok_or (get_range packet bitmap_offset (rr_next_offset r)) InvalidRecord) (\<lambda>bitmap.
          and_then (parse_type_bitmap bitmap) (\<lambda>types.
          Inr \<lparr>nsec_next_domain = next_domain, nsec_types = types\<rparr>))))"

definition parse_nsec3 :: "resource_record \<Rightarrow> wire_error + nsec3_record" where
  "parse_nsec3 r =
     (if rr_rr_type r \<noteq> TYPE_NSEC3 \<or> length (rr_rdata r) < 6 then Inl InvalidRecord
      else
        let d = rr_rdata r;
            salt_end = 5 + unat (d ! 4)
        in and_then (ok_or (get_at d salt_end) InvalidRecord) (\<lambda>hash_len.
           let hash_start = salt_end + 1;
               hash_end = hash_start + unat hash_len
           in if unat hash_len = 0 \<or> hash_end > length d then Inl InvalidRecord
              else
                and_then (if hash_end = length d then Inr [] else parse_type_bitmap (drop hash_end d)) (\<lambda>types.
                Inr \<lparr>n3_hash_algorithm = d ! 0, n3_flags = d ! 1, n3_iterations = u16_from_be (d ! 2) (d ! 3),
                     n3_salt = take (salt_end - 5) (drop 5 d),
                     n3_next_hashed_owner = take (hash_end - hash_start) (drop hash_start d), n3_types = types\<rparr>)))"

definition parse_nsec3param :: "resource_record \<Rightarrow> wire_error + nsec3_param_record" where
  "parse_nsec3param r =
     (if rr_rr_type r \<noteq> TYPE_NSEC3PARAM \<or> length (rr_rdata r) < 5 then Inl InvalidRecord
      else
        let d = rr_rdata r;
            salt_end = 5 + unat (d ! 4)
        in if salt_end \<noteq> length d then Inl InvalidRecord
           else Inr \<lparr>n3p_hash_algorithm = d ! 0, n3p_flags = d ! 1, n3p_iterations = u16_from_be (d ! 2) (d ! 3),
                     n3p_salt_length = d ! 4, n3p_salt = take (salt_end - 5) (drop 5 d)\<rparr>)"

section \<open>Key tags\<close>

text \<open>The loop that sums up the octets of the rdata, from the given index on.\<close>

fun key_tag_sum :: "nat \<Rightarrow> bytes \<Rightarrow> u32 \<Rightarrow> u32" where
  "key_tag_sum index [] accumulator = accumulator"
| "key_tag_sum index (byte # bytes) accumulator =
     key_tag_sum (index + 1) bytes (accumulator + (if index AND 1 = 0 then push_bit 8 (ucast byte) else ucast byte))"

definition dnskey_key_tag :: "resource_record \<Rightarrow> wire_error + u16" where
  "dnskey_key_tag r =
     (if rr_rr_type r \<noteq> TYPE_DNSKEY \<or> length (rr_rdata r) < 4 then Inl InvalidRecord
      else if rr_rdata r ! 3 = 1 then
        if length (rr_rdata r) < 4 then Inl InvalidRecord
        else Inr (u16_from_be (rr_rdata r ! (length (rr_rdata r) - 3)) (rr_rdata r ! (length (rr_rdata r) - 2)))
      else
        let accumulator = key_tag_sum 0 (rr_rdata r) 0;
            accumulator = accumulator + (drop_bit 16 accumulator AND 0xffff)
        in Inr (ucast (accumulator AND 0xffff)))"

section \<open>Missing root signatures\<close>

text \<open>The record loop, over the indices from \<open>index\<close> on, with the required and the covered types.\<close>

fun root_rrsig_loop ::
  "bytes \<Rightarrow> nat \<Rightarrow> nat \<Rightarrow> nat \<Rightarrow> nat \<Rightarrow> u16 set \<times> u16 set \<Rightarrow> wire_error + (u16 set \<times> u16 set) \<times> nat" where
  "root_rrsig_loop packet signed_record_count 0 index offset sets = Inr (sets, offset)"
| "root_rrsig_loop packet signed_record_count (Suc n) index offset (required, covered) =
     and_then (parse_record packet offset) (\<lambda>r.
     if rr_class r \<noteq> CLASS_IN \<or> dn_canonical_wire (rr_name r) \<noteq> [0] then
       root_rrsig_loop packet signed_record_count n (index + 1) (rr_next_offset r) (required, covered)
     else if rr_rr_type r = TYPE_RRSIG then
       if length (rr_rdata r) < RRSIG_MINIMUM_RDATA_LEN then Inl InvalidRecord
       else
         and_then (checked_end (rr_rdata_offset r) RRSIG_FIXED_FIELDS_LEN) (\<lambda>signer_offset.
         and_then (read_name packet signer_offset) (\<lambda>(signer, signature_offset).
         if dn_canonical_wire signer \<noteq> [0] \<or> signature_offset \<ge> rr_next_offset r then Inl InvalidRecord
         else root_rrsig_loop packet signed_record_count n (index + 1) (rr_next_offset r)
                (required, insert (u16_from_be (rr_rdata r ! 0) (rr_rdata r ! 1)) covered)))
     else if index < signed_record_count \<and> rr_rr_type r \<noteq> TYPE_OPT \<and> rr_rr_type r \<noteq> TYPE_TSIG then
       root_rrsig_loop packet signed_record_count n (index + 1) (rr_next_offset r)
         (insert (rr_rr_type r) required, covered)
     else root_rrsig_loop packet signed_record_count n (index + 1) (rr_next_offset r) (required, covered))"

definition root_rrsig_missing :: "bytes \<Rightarrow> wire_error + bool" where
  "root_rrsig_missing packet =
     and_then (header_parse packet) (\<lambda>header.
     if \<not> is_response header then Inl WrongDirection
     else
       and_then (parse_many parse_question q_next_offset packet (unat (h_question_count header)) DNS_HEADER_LEN) (\<lambda>(_, offset).
       and_then (root_rrsig_loop packet (unat (h_answer_count header) + unat (h_authority_count header))
                   (total_records header) 0 offset ({}, {})) (\<lambda>((required, covered), offset).
       if offset \<noteq> length packet then Inl TrailingData
       else Inr (\<not> required \<subseteq> covered))))"

section \<open>Lemmas: type bitmaps\<close>

text \<open>Position \<open>l\<close> of a window is set in its octets.\<close>

definition in_octets :: "bytes \<Rightarrow> nat \<Rightarrow> bool" where
  "in_octets bs l \<longleftrightarrow> l div 8 < length bs \<and> bit (bs ! (l div 8)) (7 - l mod 8)"

lemma test_bit: "b < 8 \<Longrightarrow> (byte :: u8) AND drop_bit b 0x80 \<noteq> 0 \<longleftrightarrow> bit byte (7 - b)"
proof -
  assume "b < 8"
  then have "b \<in> {0, 1, 2, 3, 4, 5, 6, 7}" by auto
  then have "drop_bit b (0x80 :: u8) = 2 ^ (7 - b)" by auto
  then show ?thesis by (simp add: and_exp_eq_0_iff_not_bit)
qed

lemma octet_types_eq:
  "octet_types w (length bs) byte =
     map (\<lambda>l. ucast w * 256 + of_nat l) (filter (in_octets (bs @ [byte])) [8 * length bs..<8 * length bs + 8])"
proof -
  have "[8 * length bs..<8 * length bs + 8] = map (\<lambda>b. length bs * 8 + b) [0..<8]"
    by (simp add: map_add_upt mult.commute add.commute)
  moreover have "in_octets (bs @ [byte]) (length bs * 8 + b) \<longleftrightarrow> byte AND drop_bit b 0x80 \<noteq> 0" if "b < 8" for b
    using that test_bit [OF that, of byte] by (simp add: in_octets_def)
  then have "filter (in_octets (bs @ [byte])) (map (\<lambda>b. length bs * 8 + b) [0..<8]) =
      map (\<lambda>b. length bs * 8 + b) (filter (\<lambda>b. byte AND drop_bit b 0x80 \<noteq> 0) [0..<8])"
    unfolding filter_map by (intro arg_cong [where f = "map _"] filter_cong) auto
  ultimately show ?thesis by (simp add: octet_types_def comp_def)
qed

lemma window_types_eq:
  "window_types w bs = map (\<lambda>l. ucast w * 256 + of_nat l) (filter (in_octets bs) [0..<8 * length bs])"
proof (induction bs rule: rev_induct)
  case Nil
  then show ?case by (simp add: window_types_def)
next
  case (snoc byte bs)
  have "enumerate 0 (bs @ [byte]) = enumerate 0 bs @ [(length bs, byte)]" by (simp add: enumerate_append_eq)
  then have "window_types w (bs @ [byte]) = window_types w bs @ octet_types w (length bs) byte"
    by (simp add: window_types_def)
  moreover have "[0..<8 * length (bs @ [byte])] = [0..<8 * length bs] @ [8 * length bs..<8 * length bs + 8]"
    using upt_add_eq_append [of 0 "8 * length bs" 8] by (simp add: add.commute)
  moreover have "filter (in_octets (bs @ [byte])) [0..<8 * length bs] = filter (in_octets bs) [0..<8 * length bs]"
    by (intro filter_cong refl) (auto simp: in_octets_def nth_append)
  ultimately show ?case using snoc octet_types_eq by simp
qed

lemma unat_type: "l < 256 \<Longrightarrow> unat (ucast (w :: u8) * 256 + of_nat l :: u16) = unat w * 256 + l"
proof -
  assume l: "l < 256"
  have w: "unat w \<le> 255" by simp
  then have "unat w * 256 + l < 65536" using l by linarith
  moreover have "(ucast w * 256 + of_nat l :: u16) = of_nat (unat w * 256 + l)" by simp
  ultimately show ?thesis by (simp add: unat_of_nat_u16 del: of_nat_add of_nat_mult)
qed

text \<open>A bitmap as a list of windows.\<close>

type_synonym windows = "(u8 \<times> bytes) list"

definition encode_windows :: "windows \<Rightarrow> bytes" where
  "encode_windows ws = concat (map (\<lambda>(w, bs). [w, of_nat (length bs)] @ bs) ws)"

definition valid_windows :: "windows \<Rightarrow> bool" where
  "valid_windows ws \<longleftrightarrow> sorted_wrt (<) (map fst ws) \<and>
     (\<forall>(w, bs) \<in> set ws. 1 \<le> length bs \<and> length bs \<le> 32 \<and> last bs \<noteq> 0)"

definition windows_types :: "windows \<Rightarrow> u16 list" where
  "windows_types ws = concat (map (\<lambda>(w, bs). window_types w bs) ws)"

lemma parse_bitmap_loop_step:
  assumes "1 \<le> length bs" "length bs \<le> 32" "last bs \<noteq> 0" "case prev of Some v \<Rightarrow> v < w | None \<Rightarrow> True"
  shows "parse_bitmap_loop (w # of_nat (length bs) # bs @ rest) prev acc = parse_bitmap_loop rest (Some w) (acc @ window_types w bs)"
proof -
  have n: "unat (of_nat (length bs) :: u8) = length bs" using assms(2) by (intro unat_of_nat_u8) simp
  have "get_range (w # of_nat (length bs) # bs @ rest) 2 (2 + length bs) = Some bs" by (simp add: get_range_def)
  moreover have "\<not> (case prev of Some previous \<Rightarrow> w \<le> previous | None \<Rightarrow> False)" using assms(4) by (auto split: option.splits)
  ultimately show ?thesis
    using assms n by (subst parse_bitmap_loop.simps) (auto simp: get_at_def Let_def)
qed

lemma parse_bitmap_loop_iff:
  "parse_bitmap_loop bitmap prev acc = Inr ts \<longleftrightarrow>
     (\<exists>ws. bitmap = encode_windows ws \<and> valid_windows ws \<and> (\<forall>w \<in> fst ` set ws. case prev of Some v \<Rightarrow> v < w | None \<Rightarrow> True) \<and>
        ts = acc @ windows_types ws)"
  (is "?l \<longleftrightarrow> ?r bitmap prev acc")
proof
  assume ?l
  then show "?r bitmap prev acc"
  proof (induction bitmap prev acc rule: parse_bitmap_loop.induct)
    case (1 bitmap prev acc)
    show ?case
    proof (cases "bitmap = []")
      case True
      with "1.prems" have "ts = acc" by (simp add: parse_bitmap_loop.simps)
      with True show ?thesis by (intro exI [of _ "[]"]) (simp add: encode_windows_def valid_windows_def windows_types_def)
    next
      case False
      from "1.prems" False obtain len bs where len: "get_at bitmap 1 = Some len"
        and ok: "\<not> (unat len = 0 \<or> unat len > 32 \<or> (case prev of Some previous \<Rightarrow> bitmap ! 0 \<le> previous | None \<Rightarrow> False))"
        and bs: "get_range bitmap 2 (2 + unat len) = Some bs" "last bs \<noteq> 0"
        and rest: "parse_bitmap_loop (drop (2 + unat len) bitmap) (Some (bitmap ! 0)) (acc @ window_types (bitmap ! 0) bs) = Inr ts"
        by (subst (asm) parse_bitmap_loop.simps) (auto simp: result_simps Let_def split: if_splits)
      from "1.IH" [OF False _ refl _ _ _ rest] len ok bs
      obtain ws where ws: "drop (2 + unat len) bitmap = encode_windows ws" "valid_windows ws"
        "\<forall>w \<in> fst ` set ws. bitmap ! 0 < w" "ts = (acc @ window_types (bitmap ! 0) bs) @ windows_types ws"
        by auto
      have lb: "length bs = unat len" "bs = take (unat len) (drop 2 bitmap)" "2 + unat len \<le> length bitmap"
        using bs(1) by (auto simp: get_range_eq_Some)
      have "take 2 bitmap = [bitmap ! 0, len]"
        using len lb(3) by (intro nth_equalityI) (auto simp: get_at_eq_Some less_2_cases_iff)
      moreover have "bitmap = take 2 bitmap @ take (unat len) (drop 2 bitmap) @ drop (2 + unat len) bitmap"
        by (metis add.commute append_take_drop_id drop_drop)
      ultimately have "bitmap = encode_windows ((bitmap ! 0, bs) # ws)"
        using lb ws(1) by (simp add: encode_windows_def)
      moreover have "valid_windows ((bitmap ! 0, bs) # ws)"
        using ws(2,3) ok bs(2) lb(1) by (auto simp: valid_windows_def)
      moreover have "\<forall>w \<in> fst ` set ((bitmap ! 0, bs) # ws). case prev of Some v \<Rightarrow> v < w | None \<Rightarrow> True"
        using ok ws(3) by (auto split: option.splits)
      ultimately show ?thesis
        using ws(4) by (intro exI [of _ "(bitmap ! 0, bs) # ws"]) (simp add: windows_types_def)
    qed
  qed
next
  assume "?r bitmap prev acc"
  then obtain ws where "bitmap = encode_windows ws" "valid_windows ws"
    "\<forall>w \<in> fst ` set ws. case prev of Some v \<Rightarrow> v < w | None \<Rightarrow> True" "ts = acc @ windows_types ws"
    by blast
  then show ?l
  proof (induction ws arbitrary: bitmap prev acc)
    case Nil
    then show ?case by (simp add: parse_bitmap_loop.simps encode_windows_def windows_types_def)
  next
    case (Cons x ws)
    obtain w bs where x: "x = (w, bs)" by fastforce
    have v: "1 \<le> length bs" "length bs \<le> 32" "last bs \<noteq> 0" "case prev of Some v \<Rightarrow> v < w | None \<Rightarrow> True"
      "valid_windows ws" "\<forall>w' \<in> fst ` set ws. w < w'"
      using Cons.prems(2,3) by (auto simp: valid_windows_def x)
    have "bitmap = w # of_nat (length bs) # bs @ encode_windows ws"
      using Cons.prems(1) by (simp add: encode_windows_def x)
    then have "parse_bitmap_loop bitmap prev acc = parse_bitmap_loop (encode_windows ws) (Some w) (acc @ window_types w bs)"
      using parse_bitmap_loop_step [OF v(1-4)] by simp
    also have "\<dots> = Inr ts"
      using Cons.prems(4) v(5,6) by (intro Cons.IH) (auto simp: windows_types_def x)
    finally show ?case .
  qed
qed

text \<open>The encoding RFC 4034 section 4.1.2 asks for: every window with a type, in ascending order and without trailing zero octets.\<close>

definition octet_of :: "(nat \<Rightarrow> bool) \<Rightarrow> u8" where
  "octet_of P = foldr (\<lambda>b w. (if P b then 2 ^ (7 - b) else 0) OR w) [0..<8] 0"

definition window_positions :: "u16 list \<Rightarrow> u8 \<Rightarrow> nat list" where
  "window_positions ts w = map (\<lambda>t. unat t mod 256) (filter (\<lambda>t. unat t div 256 = unat w) ts)"

definition window_octets :: "nat list \<Rightarrow> bytes" where
  "window_octets ls = map (\<lambda>octet. octet_of (\<lambda>b. octet * 8 + b \<in> set ls)) [0..<Max (set ls) div 8 + 1]"

definition windows_of :: "u16 list \<Rightarrow> windows" where
  "windows_of ts = map (\<lambda>w. (w, window_octets (window_positions ts w)))
     (filter (\<lambda>w. window_positions ts w \<noteq> []) (map of_nat [0..<256]))"

definition encode_type_bitmap :: "u16 list \<Rightarrow> bytes" where
  "encode_type_bitmap ts = encode_windows (windows_of ts)"

lemma bit_octet_of: "b < 8 \<Longrightarrow> bit (octet_of P) (7 - b) \<longleftrightarrow> P b"
proof -
  assume b: "b < 8"
  have "bit (foldr (\<lambda>b w. (if P b then 2 ^ (7 - b) else 0) OR w) bs (0 :: u8)) (7 - b) \<longleftrightarrow> P b \<and> b \<in> set bs"
    if "set bs \<subseteq> {..<8}" for bs
    using that
  proof (induction bs)
    case (Cons x bs)
    have "bit (2 ^ (7 - x) :: u8) (7 - b) \<longleftrightarrow> x = b"
      using Cons.prems b by (auto simp: bit_exp_iff)
    with Cons show ?case by (auto simp: bit_or_iff)
  qed simp
  moreover have "set [0..<8] \<subseteq> {..<8 :: nat}" by auto
  ultimately show ?thesis using b by (simp add: octet_of_def del: upt_Suc)
qed

lemma octet_eqI:
  assumes "\<And>b. b < 8 \<Longrightarrow> bit x (7 - b) \<longleftrightarrow> bit y (7 - b)"
  shows "x = (y :: u8)"
proof (rule bit_word_eqI)
  fix n assume "n < LENGTH(8)"
  then have "7 - (7 - n) = n" by simp
  then show "bit x n \<longleftrightarrow> bit y n" using assms [of "7 - n"] by simp
qed

lemma octet_nonzero: "x \<noteq> (0 :: u8) \<Longrightarrow> \<exists>b < 8. bit x (7 - b)"
  using octet_eqI [of x 0] by auto

lemma in_octets_window_octets:
  assumes "ls \<noteq> []"
  shows "in_octets (window_octets ls) l \<longleftrightarrow> l \<in> set ls"
proof -
  let ?n = "Max (set ls) div 8 + 1"
  have nth: "window_octets ls ! o' = octet_of (\<lambda>b. o' * 8 + b \<in> set ls)" if "o' < ?n" for o'
    using that by (simp add: window_octets_def del: upt_Suc)
  have "l div 8 < ?n" if "l \<in> set ls"
    using that by (simp add: div_le_mono less_Suc_eq_le)
  moreover have "in_octets (window_octets ls) l \<longleftrightarrow> l \<in> set ls" if "l div 8 < ?n"
    using that nth [OF that] bit_octet_of [of "l mod 8" "\<lambda>b. l div 8 * 8 + b \<in> set ls"]
    by (simp add: in_octets_def window_octets_def)
  ultimately show ?thesis by (auto simp: in_octets_def window_octets_def)
qed

lemma window_octets_valid:
  assumes "ls \<noteq> []" "set ls \<subseteq> {..<256}"
  shows "1 \<le> length (window_octets ls)" "length (window_octets ls) \<le> 32" "last (window_octets ls) \<noteq> 0"
proof -
  let ?m = "Max (set ls)"
  have m: "?m \<in> set ls" using assms(1) by simp
  then have "?m < 256" using assms(2) by auto
  then show "1 \<le> length (window_octets ls)" "length (window_octets ls) \<le> 32" by (simp_all add: window_octets_def)
  have "last (window_octets ls) = octet_of (\<lambda>b. ?m div 8 * 8 + b \<in> set ls)" by (simp add: window_octets_def)
  moreover have "bit (octet_of (\<lambda>b. ?m div 8 * 8 + b \<in> set ls)) (7 - ?m mod 8)"
    using m by (simp add: bit_octet_of)
  ultimately show "last (window_octets ls) \<noteq> 0" by (metis bit_0_eq bot_apply bot_bool_def)
qed

lemma octets_unique:
  assumes "1 \<le> length bs" "last bs \<noteq> 0" "set ls = {l. in_octets bs l}"
  shows "ls \<noteq> []" "bs = window_octets ls"
proof -
  let ?n = "length bs"
  have lst: "last bs = bs ! (?n - 1)" using assms(1) by (intro last_conv_nth) auto
  obtain b where b: "b < 8" "bit (last bs) (7 - b)" using octet_nonzero [OF assms(2)] by blast
  then have top: "(?n - 1) * 8 + b \<in> set ls"
    using assms(1,3) lst by (simp add: in_octets_def)
  then show ne: "ls \<noteq> []" by auto
  have "l div 8 \<le> ?n - 1" if "l \<in> set ls" for l using that assms(3) by (auto simp: in_octets_def)
  then have "Max (set ls) div 8 \<le> ?n - 1" using ne Max_in [of "set ls"] by auto
  moreover have "?n - 1 \<le> Max (set ls) div 8"
    using div_le_mono [OF Max_ge [OF _ top], of 8] b(1) by simp
  ultimately have n: "Max (set ls) div 8 + 1 = ?n" using assms(1) by simp
  show "bs = window_octets ls"
  proof (rule nth_equalityI)
    show "length bs = length (window_octets ls)" using n by (simp add: window_octets_def)
    fix i assume i: "i < length bs"
    have "window_octets ls ! i = octet_of (\<lambda>b. i * 8 + b \<in> set ls)" using i n by (simp add: window_octets_def del: upt_Suc)
    moreover have "bs ! i = octet_of (\<lambda>b. i * 8 + b \<in> set ls)"
      using i assms(3) by (intro octet_eqI) (simp add: bit_octet_of in_octets_def)
    ultimately show "bs ! i = window_octets ls ! i" by simp
  qed
qed

lemma window_types_props:
  assumes "length bs \<le> 32"
  shows "sorted_wrt (<) (window_types w bs)"
    "t \<in> set (window_types w bs) \<longleftrightarrow> unat t div 256 = unat w \<and> in_octets bs (unat t mod 256)"
proof -
  have l: "l < 256" if "l < 8 * length bs" for l using that assms by linarith
  have "sorted_wrt (<) (filter (in_octets bs) [0..<8 * length bs])" by (intro sorted_wrt_filter sorted_wrt_upt)
  then show "sorted_wrt (<) (window_types w bs)"
    unfolding window_types_eq sorted_wrt_map
    by (rule sorted_wrt_mono_rel [rotated]) (auto simp: word_less_nat_alt unat_type l)
  have oct: "l < 8 * length bs" if "in_octets bs l" for l
    using that by (auto simp: in_octets_def)
  show "t \<in> set (window_types w bs) \<longleftrightarrow> unat t div 256 = unat w \<and> in_octets bs (unat t mod 256)" (is "_ \<longleftrightarrow> ?r")
  proof
    assume "t \<in> set (window_types w bs)"
    then obtain i where i: "i < 8 * length bs" "in_octets bs i" "t = ucast w * 256 + of_nat i"
      by (auto simp: window_types_eq)
    then have "unat t = unat w * 256 + i" using unat_type l by simp
    moreover have "i < 256" using l i(1) by simp
    ultimately show ?r using i(2) by simp
  next
    assume r: ?r
    then have "unat t mod 256 < 8 * length bs" using oct by simp
    moreover have "t = ucast w * 256 + of_nat (unat t mod 256)"
    proof -
      have "unat (ucast w * 256 + of_nat (unat t mod 256) :: u16) = unat w * 256 + unat t mod 256" by (intro unat_type) simp
      also have "\<dots> = unat t" using r by (metis div_mult_mod_eq)
      finally show ?thesis by (simp add: word_unat_eq_iff)
    qed
    ultimately show "t \<in> set (window_types w bs)" using r unfolding window_types_eq by force
  qed
qed

lemma windows_types_props:
  assumes "valid_windows ws"
  shows "sorted_wrt (<) (windows_types ws)"
    "t \<in> set (windows_types ws) \<longleftrightarrow> (\<exists>(w, bs) \<in> set ws. unat t div 256 = unat w \<and> in_octets bs (unat t mod 256))"
proof -
  have mem: "t \<in> set (windows_types ws) \<longleftrightarrow> (\<exists>(w, bs) \<in> set ws. unat t div 256 = unat w \<and> in_octets bs (unat t mod 256))"
    if "valid_windows ws" for t ws
    using that window_types_props(2) by (fastforce simp: windows_types_def valid_windows_def)
  show "t \<in> set (windows_types ws) \<longleftrightarrow> (\<exists>(w, bs) \<in> set ws. unat t div 256 = unat w \<and> in_octets bs (unat t mod 256))"
    by (rule mem [OF assms])
  show "sorted_wrt (<) (windows_types ws)"
    using assms
  proof (induction ws)
    case (Cons x ws)
    obtain w bs where x: "x = (w, bs)" by fastforce
    have v: "valid_windows ws" "length bs \<le> 32" "\<forall>(w', bs') \<in> set ws. w < w'"
      using Cons.prems by (auto simp: valid_windows_def x)
    have less: "a < b" if a: "a \<in> set (window_types w bs)" and b: "b \<in> set (windows_types ws)" for a b
    proof -
      obtain w' where "unat b div 256 = unat w'" "w < w'" using b v(3) mem [OF v(1)] by auto
      moreover have "unat a div 256 = unat w" using a window_types_props(2) [OF v(2)] by simp
      ultimately have "unat a div 256 < unat b div 256" by (simp add: word_less_nat_alt)
      then show ?thesis by (metis div_le_mono not_le word_less_nat_alt)
    qed
    show ?case
      using Cons.IH [OF v(1)] window_types_props(1) [OF v(2)] less by (simp add: windows_types_def x sorted_wrt_append)
  qed (simp add: windows_types_def)
qed

lemma u8_upt: "sorted_wrt (<) (map of_nat [0..<256] :: u8 list)" "set (map of_nat [0..<256] :: u8 list) = UNIV"
proof -
  show "sorted_wrt (<) (map of_nat [0..<256] :: u8 list)"
    unfolding sorted_wrt_map by (rule sorted_wrt_mono_rel [OF _ sorted_wrt_upt]) (auto simp: word_less_nat_alt unat_of_nat_u8)
  have "x \<in> of_nat ` {0..<256}" for x :: u8 by (rule image_eqI [of _ _ "unat x"]) simp_all
  then show "set (map of_nat [0..<256] :: u8 list) = UNIV" by auto
qed

lemma strictly_sorted_unique: "sorted_wrt (<) xs \<Longrightarrow> sorted_wrt (<) ys \<Longrightarrow> set xs = set ys \<Longrightarrow> xs = (ys :: 'a :: linorder list)"
  by (simp add: sorted_distinct_set_unique strict_sorted_iff)

lemma div_mod_256: "l < 256 \<Longrightarrow> (x * 256 + l) div 256 = x" "l < 256 \<Longrightarrow> (x * 256 + l) mod 256 = l" for x l :: nat
  by simp_all

lemma window_positions_mem: "l \<in> set (window_positions ts w) \<longleftrightarrow> (\<exists>t \<in> set ts. unat t div 256 = unat w \<and> unat t mod 256 = l)"
  by (auto simp: window_positions_def)

lemma type_eqI:
  assumes "l < 256" "unat t div 256 = unat w" "unat t mod 256 = l"
  shows "t = (ucast (w :: u8) * 256 + of_nat l :: u16)"
proof -
  have "unat t = unat t div 256 * 256 + unat t mod 256" by (simp only: div_mult_mod_eq)
  then have "unat t = unat w * 256 + l" unfolding assms(2,3) .
  then have "unat t = unat (ucast w * 256 + of_nat l :: u16)" unfolding unat_type [OF assms(1)] .
  then show ?thesis unfolding word_unat_eq_iff .
qed

lemma window_positions_props:
  "window_positions ts w \<noteq> [] \<longleftrightarrow> (\<exists>t \<in> set ts. unat t div 256 = unat w)" "set (window_positions ts w) \<subseteq> {..<256}"
  by (auto simp: window_positions_def filter_empty_conv)

lemma window_positions_type:
  assumes "l < 256"
  shows "l \<in> set (window_positions ts w) \<longleftrightarrow> ucast w * 256 + of_nat l \<in> set ts"
proof
  assume "l \<in> set (window_positions ts w)"
  then obtain t where t: "t \<in> set ts" "unat t div 256 = unat w" "unat t mod 256 = l" unfolding window_positions_mem by blast
  from t(1) show "ucast w * 256 + of_nat l \<in> set ts" unfolding type_eqI [OF assms t(2,3)] .
next
  have "unat (ucast w * 256 + of_nat l :: u16) div 256 = unat w" "unat (ucast w * 256 + of_nat l :: u16) mod 256 = l"
    unfolding unat_type [OF assms] by (simp_all only: div_mod_256 assms)
  then show "ucast w * 256 + of_nat l \<in> set ts \<Longrightarrow> l \<in> set (window_positions ts w)" unfolding window_positions_mem by blast
qed

lemma fst_windows_of: "map fst (windows_of ts) = filter (\<lambda>w. window_positions ts w \<noteq> []) (map of_nat [0..<256])"
  by (simp add: windows_of_def comp_def del: upt_Suc)

lemma set_windows_of: "set (windows_of ts) = (\<lambda>w. (w, window_octets (window_positions ts w))) ` {w. window_positions ts w \<noteq> []}"
proof -
  have "set (filter P (map of_nat [0..<256])) = {w :: u8. P w}" for P
    unfolding set_filter u8_upt(2) by simp
  then show ?thesis by (simp only: windows_of_def set_map)
qed

lemma windows_of_valid: "valid_windows (windows_of ts)"
  unfolding valid_windows_def fst_windows_of
  using window_octets_valid [OF _ window_positions_props(2)] sorted_wrt_filter [OF u8_upt(1)]
  by (auto simp: set_windows_of)

lemma windows_of_types: "sorted_wrt (<) ts \<Longrightarrow> windows_types (windows_of ts) = ts"
proof (rule strictly_sorted_unique)
  show "sorted_wrt (<) (windows_types (windows_of ts))" by (rule windows_types_props(1) [OF windows_of_valid])
  show "set (windows_types (windows_of ts)) = set ts"
  proof (intro set_eqI)
    fix t :: u16
    let ?w = "of_nat (unat t div 256) :: u8"
    have w: "unat ?w = unat t div 256" by (intro unat_of_nat_u8 less_mult_imp_div_less) simp
    have t: "ucast ?w * 256 + of_nat (unat t mod 256) = t"
      using unat_type [of "unat t mod 256" ?w] w by (simp add: word_unat_eq_iff)
    have "t \<in> set (windows_types (windows_of ts)) \<longleftrightarrow>
        (\<exists>w. unat t div 256 = unat w \<and> window_positions ts w \<noteq> [] \<and> in_octets (window_octets (window_positions ts w)) (unat t mod 256))"
      unfolding windows_types_props(2) [OF windows_of_valid] set_windows_of by auto
    also have "\<dots> \<longleftrightarrow> (\<exists>w. unat t div 256 = unat w \<and> unat t mod 256 \<in> set (window_positions ts w))"
      using in_octets_window_octets by (metis empty_iff list.set(1))
    also have "\<dots> \<longleftrightarrow> unat t mod 256 \<in> set (window_positions ts ?w)"
      using w by (metis word_unat_eq_iff)
    also have "\<dots> \<longleftrightarrow> t \<in> set ts" using window_positions_type [of "unat t mod 256" ts ?w] t by simp
    finally show "t \<in> set (windows_types (windows_of ts)) \<longleftrightarrow> t \<in> set ts" .
  qed
qed

lemma window_positions_octets:
  assumes "valid_windows ws" "(w, bs) \<in> set ws"
  shows "{l. in_octets bs l} = set (window_positions (windows_types ws) w)"
proof (intro set_eqI)
  fix l
  have b: "length bs \<le> 32" and d: "distinct (map fst ws)"
    using assms by (auto simp: valid_windows_def strict_sorted_iff)
  have uniq: "bs' = bs" if "(w, bs') \<in> set ws" for bs' using eq_key_imp_eq_value [OF d that assms(2)] .
  show "l \<in> {l. in_octets bs l} \<longleftrightarrow> l \<in> set (window_positions (windows_types ws) w)"
  proof (cases "l < 256")
    case True
    have "l \<in> set (window_positions (windows_types ws) w) \<longleftrightarrow> (\<exists>(w', bs') \<in> set ws. unat w = unat w' \<and> in_octets bs' l)"
      unfolding window_positions_type [OF True] windows_types_props(2) [OF assms(1)] unat_type [OF True]
      by (simp only: div_mod_256 True)
    also have "\<dots> \<longleftrightarrow> in_octets bs l" using assms(2) uniq unfolding word_unat_eq_iff [symmetric] by blast
    finally show ?thesis by simp
  next
    case False
    have "l < 256" if "in_octets bs l"
    proof -
      have "l div 8 < 32" using that b by (simp add: in_octets_def)
      then show ?thesis by (simp add: div_less_iff_less_mult)
    qed
    with False show ?thesis using window_positions_props(2) [of "windows_types ws" w] by blast
  qed
qed

lemma windows_of_unique:
  assumes "valid_windows ws"
  shows "ws = windows_of (windows_types ws)"
proof -
  let ?ts = "windows_types ws" and ?f = "\<lambda>w. (w, window_octets (window_positions (windows_types ws) w))"
  have oct: "window_positions ?ts w \<noteq> []" "bs = window_octets (window_positions ?ts w)" if "(w, bs) \<in> set ws" for w bs
    using octets_unique [OF _ _ window_positions_octets [OF assms that, symmetric]] assms that
    by (auto simp: valid_windows_def)
  have key: "w \<in> fst ` set ws" if "window_positions ?ts w \<noteq> []" for w
  proof -
    obtain t where "t \<in> set ?ts" "unat t div 256 = unat w" using \<open>window_positions ?ts w \<noteq> []\<close> window_positions_props(1) by blast
    then obtain w' bs where "(w', bs) \<in> set ws" "unat w = unat w'" using windows_types_props(2) [OF assms] by auto
    then show ?thesis by (force simp flip: word_unat_eq_iff)
  qed
  have "map fst ws = map fst (windows_of ?ts)"
  proof (rule strictly_sorted_unique)
    show "sorted_wrt (<) (map fst ws)" "sorted_wrt (<) (map fst (windows_of ?ts))"
      using assms windows_of_valid [of ?ts] by (simp_all add: valid_windows_def)
    have "w \<in> fst ` set ws \<longleftrightarrow> window_positions ?ts w \<noteq> []" for w using key oct(1) by auto
    then show "set (map fst ws) = set (map fst (windows_of ?ts))"
      unfolding fst_windows_of set_filter u8_upt(2) by auto
  qed
  moreover have "x = ?f (fst x)" if "x \<in> set ws" for x using oct(2) [of "fst x" "snd x"] that by (cases x) simp
  then have "ws = map ?f (map fst ws)" by (simp add: map_idI comp_def)
  ultimately have "ws = map ?f (map fst (windows_of ?ts))" by simp
  then show ?thesis unfolding fst_windows_of by (simp only: windows_of_def)
qed

text \<open>
  C28: Type bitmaps are canonical. \<open>parse_type_bitmap\<close> accepts an octet string exactly when it is the
  encoding of RFC 4034, section 4.1.2, of the types it returns, which are then in ascending order, each
  once; so every nonempty set of types has one accepted bitmap and no two bitmaps denote the same types.
\<close>

theorem type_bitmap_canonical:
  "parse_type_bitmap bitmap = Inr types \<longleftrightarrow> types \<noteq> [] \<and> sorted_wrt (<) types \<and> bitmap = encode_type_bitmap types"
proof
  assume "parse_type_bitmap bitmap = Inr types"
  then obtain ws where "bitmap = encode_windows ws" "valid_windows ws" "types = windows_types ws" "types \<noteq> []"
    by (auto simp: parse_type_bitmap_def parse_bitmap_loop_iff result_simps split: if_splits)
  then show "types \<noteq> [] \<and> sorted_wrt (<) types \<and> bitmap = encode_type_bitmap types"
    using windows_types_props(1) windows_of_unique by (auto simp: encode_type_bitmap_def)
next
  assume r: "types \<noteq> [] \<and> sorted_wrt (<) types \<and> bitmap = encode_type_bitmap types"
  then have "parse_bitmap_loop bitmap None [] = Inr types"
    using windows_of_valid [of types] windows_of_types [of types]
    by (auto simp: parse_bitmap_loop_iff encode_type_bitmap_def)
  then show "parse_type_bitmap bitmap = Inr types" using r by (simp add: parse_type_bitmap_def)
qed

section \<open>Lemmas: key tags\<close>

text \<open>The sum of RFC 4034, appendix B, on natural numbers.\<close>

fun octet_sum :: "nat \<Rightarrow> bytes \<Rightarrow> nat" where
  "octet_sum index [] = 0"
| "octet_sum index (byte # bytes) = (if even index then unat byte * 256 else unat byte) + octet_sum (index + 1) bytes"

lemma octet_sum_le: "octet_sum index bytes \<le> 65280 * length bytes"
proof (induction bytes arbitrary: index)
  case (Cons byte bytes)
  have "unat byte \<le> 255" by simp
  then have "(if even index then unat byte * 256 else unat byte) \<le> 65280" by (cases "even index"; simp only: if_True if_False; linarith)
  with Cons [of "index + 1"] show ?case by simp
qed simp

lemma unat_summand:
  "unat (if index AND 1 = 0 then push_bit 8 (ucast byte) else ucast byte :: u32) = (if even index then unat byte * 256 else unat (byte :: u8))"
proof -
  have b: "unat byte < 256" by simp
  then have "unat byte mod 4294967296 = unat byte" "unat byte * 256 mod 4294967296 = unat byte * 256" by (intro mod_less; linarith)+
  then have "unat (push_bit 8 (ucast byte) :: u32) = unat byte * 256" "unat (ucast byte :: u32) = unat byte"
    by (simp_all add: push_bit_eq_mult unat_word_ariths unsigned_ucast_eq take_bit_eq_mod)
  then show ?thesis by (simp add: and_one_eq even_iff_mod_2_eq_zero)
qed

lemma unat_key_tag_sum:
  "unat acc + octet_sum index bytes < 2 ^ 32 \<Longrightarrow> unat (key_tag_sum index bytes acc) = unat acc + octet_sum index bytes"
proof (induction bytes arbitrary: index acc)
  case (Cons byte bytes)
  let ?x = "if index AND 1 = 0 then push_bit 8 (ucast byte) else ucast byte :: u32"
  have "unat (acc + ?x) = unat acc + unat ?x"
    using Cons.prems unat_summand [of index byte] by (intro unat_add_lem [THEN iffD1]) simp
  with Cons.IH [of "acc + ?x" "index + 1"] Cons.prems unat_summand [of index byte] show ?case by simp
qed simp

text \<open>The key tag of a record is the folded sum; none of the additions wraps around.\<close>

lemma dnskey_key_tag_sum:
  assumes "rr_rr_type r = TYPE_DNSKEY" "4 \<le> length (rr_rdata r)" "length (rr_rdata r) \<le> 65535" "rr_rdata r ! 3 \<noteq> 1"
  shows "\<exists>tag. dnskey_key_tag r = Inr tag \<and>
    unat tag = (octet_sum 0 (rr_rdata r) + octet_sum 0 (rr_rdata r) div 65536) mod 65536"
proof -
  let ?s = "octet_sum 0 (rr_rdata r)" and ?a = "key_tag_sum 0 (rr_rdata r) 0"
  have s: "?s \<le> 4278124800" using octet_sum_le [of 0 "rr_rdata r"] assms(3) by linarith
  then have a: "unat ?a = ?s" using unat_key_tag_sum [of 0 0 "rr_rdata r"] by simp
  have sd: "?s div 65536 \<le> 65280" using div_le_mono [OF s, of 65536] by simp
  have m: "(w :: u32) AND 0xffff = take_bit 16 w" for w by (simp add: take_bit_eq_mask mask_eq_exp_minus_1)
  have hi: "unat (drop_bit 16 ?a AND 0xffff) = ?s div 65536"
  proof -
    have "unat (drop_bit 16 ?a AND 0xffff) = take_bit 16 (drop_bit 16 (unat ?a))"
      unfolding m by (simp only: unsigned_take_bit_eq unsigned_drop_bit_eq take_bit_nat_eq_self [OF unsigned_less])
    then show ?thesis using sd unfolding a by (simp add: drop_bit_eq_div take_bit_eq_mod)
  qed
  have sum: "unat (?a + (drop_bit 16 ?a AND 0xffff)) = ?s + ?s div 65536"
    using s sd a hi by (subst unat_add_lem [THEN iffD1]) simp_all
  have "unat (ucast (w AND 0xffff) :: u16) = unat w mod 65536" for w :: u32
  proof -
    have "unat (ucast (w AND 0xffff) :: u16) = take_bit 16 (take_bit 16 (unat w))"
      unfolding m by (simp only: unsigned_ucast_eq unsigned_take_bit_eq) simp
    then show ?thesis by (simp add: take_bit_eq_mod)
  qed
  then show ?thesis using assms sum by (simp add: dnskey_key_tag_def Let_def)
qed

section \<open>Lemmas: root signatures\<close>

text \<open>Which types the records at the root need signatures for, and which the signatures at the root cover.\<close>

definition at_root :: "resource_record \<Rightarrow> bool" where
  "at_root r \<longleftrightarrow> rr_class r = CLASS_IN \<and> dn_canonical_wire (rr_name r) = [0]"

definition required_types :: "resource_record list \<Rightarrow> u16 set" where
  "required_types rs = {rr_rr_type r |r. r \<in> set rs \<and> at_root r \<and> rr_rr_type r \<notin> {TYPE_RRSIG, TYPE_OPT, TYPE_TSIG}}"

definition covered_types :: "resource_record list \<Rightarrow> u16 set" where
  "covered_types rs = {u16_from_be (rr_rdata r ! 0) (rr_rdata r ! 1) |r. r \<in> set rs \<and> at_root r \<and> rr_rr_type r = TYPE_RRSIG}"

lemma required_types_simps [simp]:
  "required_types [] = {}"
  "required_types (r # rs) =
     (if at_root r \<and> rr_rr_type r \<notin> {TYPE_RRSIG, TYPE_OPT, TYPE_TSIG} then insert (rr_rr_type r) (required_types rs)
      else required_types rs)"
  by (auto simp: required_types_def)

lemma covered_types_simps [simp]:
  "covered_types [] = {}"
  "covered_types (r # rs) =
     (if at_root r \<and> rr_rr_type r = TYPE_RRSIG then insert (u16_from_be (rr_rdata r ! 0) (rr_rdata r ! 1)) (covered_types rs)
      else covered_types rs)"
  by (auto simp: covered_types_def)

lemma root_rrsig_loop_many:
  "root_rrsig_loop p k n i off (req, cov) = Inr ((req', cov'), e) \<Longrightarrow>
   \<exists>rs. parse_many parse_record rr_next_offset p n off = Inr (rs, e) \<and>
     req' = req \<union> required_types (take (k - i) rs) \<and> cov' = cov \<union> covered_types rs"
proof (induction n arbitrary: i off req cov)
  case 0
  then show ?case by simp
next
  case (Suc n)
  from Suc.prems obtain r where r: "parse_record p off = Inr r" by (auto simp: result_simps)
  define req1 where "req1 = (if at_root r \<and> rr_rr_type r \<notin> {TYPE_RRSIG, TYPE_OPT, TYPE_TSIG} \<and> i < k then insert (rr_rr_type r) req else req)"
  define cov1 where "cov1 = (if at_root r \<and> rr_rr_type r = TYPE_RRSIG then insert (u16_from_be (rr_rdata r ! 0) (rr_rdata r ! 1)) cov else cov)"
  have "root_rrsig_loop p k n (i + 1) (rr_next_offset r) (req1, cov1) = Inr ((req', cov'), e)"
    using Suc.prems r unfolding req1_def cov1_def at_root_def
    by (auto simp: result_simps split: if_splits)
  from Suc.IH [OF this] obtain rs where rs: "parse_many parse_record rr_next_offset p n (rr_next_offset r) = Inr (rs, e)"
    "req' = req1 \<union> required_types (take (k - (i + 1)) rs)" "cov' = cov1 \<union> covered_types rs"
    by blast
  have "req \<union> required_types (take (k - i) (r # rs)) = req'"
  proof (cases "i < k")
    case True
    then have "take (k - i) (r # rs) = r # take (k - (i + 1)) rs" by (simp add: take_Cons')
    with True show ?thesis unfolding rs(2) req1_def by simp
  qed (simp add: rs(2) req1_def)
  moreover have "cov \<union> covered_types (r # rs) = cov'"
    unfolding rs(3) cov1_def by simp
  moreover have "parse_many parse_record rr_next_offset p (Suc n) off = Inr (r # rs, e)" using r rs(1) by simp
  ultimately show ?case by metis
qed

text \<open>
  The answer of \<open>root_rrsig_missing\<close> is about the records of the whole message: some record at the root in
  the answer or authority section has a type that no signature at the root covers.
\<close>

lemma root_rrsig_missing_exact:
  assumes "root_rrsig_missing p = Inr missing"
  shows "\<exists>h qs rs. parse_sections p = Inr (h, qs, rs, length p) \<and> is_response h \<and>
    (missing \<longleftrightarrow> \<not> required_types (take (unat (h_answer_count h) + unat (h_authority_count h)) rs) \<subseteq> covered_types rs)"
proof -
  obtain h qs off req cov where h: "header_parse p = Inr h" "is_response h"
    "parse_many parse_question q_next_offset p (unat (h_question_count h)) DNS_HEADER_LEN = Inr (qs, off)"
    "root_rrsig_loop p (unat (h_answer_count h) + unat (h_authority_count h)) (total_records h) 0 off ({}, {}) = Inr ((req, cov), length p)"
    "missing \<longleftrightarrow> \<not> req \<subseteq> cov"
  proof -
    from assms obtain h where h: "header_parse p = Inr h" "is_response h"
      by (cases "header_parse p") (auto simp: root_rrsig_missing_def split: if_splits)
    obtain x where x: "parse_many parse_question q_next_offset p (unat (h_question_count h)) DNS_HEADER_LEN = Inr x"
      using assms h by (auto simp: root_rrsig_missing_def and_then_eq_Inr)
    obtain y where y: "root_rrsig_loop p (unat (h_answer_count h) + unat (h_authority_count h)) (total_records h) 0 (snd x) ({}, {}) = Inr y"
      using assms h x by (cases x) (auto simp: root_rrsig_missing_def and_then_eq_Inr)
    have "snd y = length p" "missing = (\<not> fst (fst y) \<subseteq> snd (fst y))"
      using assms h x y by (auto simp: root_rrsig_missing_def split_beta if_eq_Inr)
    with h x y show thesis by (intro that [of h "fst x" "snd x" "fst (fst y)" "snd (fst y)"]) (auto simp: prod_eq_iff)
  qed
  from root_rrsig_loop_many [OF h(4)] obtain rs where
    "parse_many parse_record rr_next_offset p (total_records h) off = Inr (rs, length p)"
    "req = required_types (take (unat (h_answer_count h) + unat (h_authority_count h)) rs)" "cov = covered_types rs"
    by auto
  with h show ?thesis by (auto simp: parse_sections_def)
qed

end
