(* ===== verification/Dnssec_Denial.thy ===== *)
theory Dnssec_Denial
  imports Dnssec_Names Dnssec_Records
begin

text \<open>
  Authenticated denial of existence (\<open>src/src/resolver_dnssec.rs\<close>): what the NSEC and NSEC3 records of a
  validated response prove about a name, the proofs that go with wildcard answers, and the verdict on the
  response. The SHA-1 function of NSEC3 is outside the source tree and an argument of the model. The
  property: a secure verdict on NXDOMAIN or on a wildcard answer rests on a proof in the records; a lemma
  shows that the NSEC record of a delegation counts as such a proof for the names below it.
\<close>

section \<open>Results\<close>

datatype dnssec_denial_result = DenialFound | DenialCname | DenialNoData | DenialNxDomain | DenialOptOut | DenialMissing

datatype dnssec_verdict = VerdictSecure | VerdictInsecure | VerdictNotValidated

datatype denial_error = DenialWire wire_error | DnssecValidationFailed string

text \<open>\<open>unwrap_or(false)\<close>.\<close>

definition unwrap_or_false :: "'e + bool \<Rightarrow> bool" where
  "unwrap_or_false r = (case r of Inr b \<Rightarrow> b | Inl _ \<Rightarrow> False)"

text \<open>What the types at an existing name say about the type asked for.\<close>

definition denial_of_types :: "u16 \<Rightarrow> u16 list \<Rightarrow> dnssec_denial_result" where
  "denial_of_types rr_type types =
     (if rr_type \<in> set types then DenialFound
      else if TYPE_CNAME \<in> set types then DenialCname
      else DenialNoData)"

text \<open>A record from the wrong side of a zone cut: the apex for a DS query, the parent for any other.\<close>

definition wrong_side_of_cut :: "u16 \<Rightarrow> u16 list \<Rightarrow> bool" where
  "wrong_side_of_cut rr_type types \<longleftrightarrow>
     rr_type = TYPE_DS \<and> TYPE_SOA \<in> set types \<or>
     rr_type \<noteq> TYPE_DS \<and> TYPE_NS \<in> set types \<and> TYPE_SOA \<notin> set types"

definition wildcard_of :: "string \<Rightarrow> string" where
  "wildcard_of closest = (if closest = ''.'' then ''*'' else ''*.'' @ closest)"

section \<open>NSEC\<close>

definition dns_record_name_equal :: "resource_record \<Rightarrow> string \<Rightarrow> bool" where
  "dns_record_name_equal r name \<longleftrightarrow>
     (case encode_name (normalize_dns_name name) of
        Inr wire_name \<Rightarrow> dn_canonical_wire (rr_name r) = wire_name
      | Inl _ \<Rightarrow> False)"

definition nsec_covers_name :: "bytes \<Rightarrow> resource_record \<Rightarrow> string \<Rightarrow> wire_error + bool" where
  "nsec_covers_name packet r name =
     and_then (parse_nsec packet r) (\<lambda>nsec.
     and_then (encode_name (normalize_dns_name name)) (\<lambda>name.
     canonical_name_interval_covers (dn_canonical_wire (rr_name r)) (dn_canonical_wire (nsec_next_domain nsec)) name))"

definition nsec_proves_empty_nonterminal :: "bytes \<Rightarrow> resource_record \<Rightarrow> string \<Rightarrow> wire_error + bool" where
  "nsec_proves_empty_nonterminal packet r name =
     and_then (parse_nsec packet r) (\<lambda>nsec.
     let nxt = normalize_dns_name (dn_text (nsec_next_domain nsec)) in
     case dns_name_parent nxt of
       None \<Rightarrow> Inr False
     | Some next_parent \<Rightarrow>
         if \<not> dns_name_is_at_or_below next_parent name then Inr False
         else Inr (dns_name_is_at_or_below name (dns_name_common_suffix (dn_text (rr_name r)) nxt)))"

definition closest_existing_ancestor :: "resource_record list \<Rightarrow> string \<Rightarrow> string option" where
  "closest_existing_ancestor records name =
     find (\<lambda>ancestor.
             list_ex (\<lambda>r. \<not> (rr_rr_type r = TYPE_RRSIG \<or> rr_rr_type r = TYPE_OPT) \<and>
                          dns_name_is_at_or_below (dn_text (rr_name r)) ancestor) records)
       (rev (dns_name_ancestors name))"

text \<open>The loop over the NSEC records that looks for the name itself; \<open>None\<close> when it ends without a result.\<close>

fun nsec_exact :: "bytes \<Rightarrow> string \<Rightarrow> u16 \<Rightarrow> resource_record list \<Rightarrow> wire_error + dnssec_denial_result option" where
  "nsec_exact packet name rr_type [] = Inr None"
| "nsec_exact packet name rr_type (r # rs) =
     (if \<not> dns_names_equal (dn_text (rr_name r)) name then nsec_exact packet name rr_type rs
      else
        and_then (parse_nsec packet r) (\<lambda>nsec.
        if wrong_side_of_cut rr_type (nsec_types nsec) then nsec_exact packet name rr_type rs
        else Inr (Some (denial_of_types rr_type (nsec_types nsec)))))"

definition nsec_denial_result ::
  "bytes \<Rightarrow> resource_record list \<Rightarrow> string \<Rightarrow> u16 \<Rightarrow> wire_error + dnssec_denial_result" where
  "nsec_denial_result packet records name rr_type =
     (let nsec_records = filter (\<lambda>r. rr_rr_type r = TYPE_NSEC) records in
      if nsec_records = [] then Inr DenialMissing
      else
        and_then (nsec_exact packet name rr_type nsec_records) (\<lambda>exact.
        case exact of
          Some result \<Rightarrow> Inr result
        | None \<Rightarrow>
            if list_ex (\<lambda>r. unwrap_or_false (nsec_proves_empty_nonterminal packet r name)) nsec_records then Inr DenialNoData
            else
              (case find (\<lambda>r. unwrap_or_false (nsec_covers_name packet r name)) nsec_records of
                 None \<Rightarrow> Inr DenialMissing
               | Some covering \<Rightarrow>
                   let closest =
                         (case closest_existing_ancestor records name of
                            Some c \<Rightarrow> c
                          | None \<Rightarrow>
                              (case parse_nsec packet covering of
                                 Inl _ \<Rightarrow> ''.''
                               | Inr nsec \<Rightarrow>
                                   (case dns_name_parent (dn_text (nsec_next_domain nsec)) of Some p \<Rightarrow> p | None \<Rightarrow> ''.'')));
                       wildcard = wildcard_of closest
                   in case find (\<lambda>r. dns_record_name_equal r wildcard) nsec_records of
                        Some r \<Rightarrow>
                          and_then (parse_nsec packet r) (\<lambda>nsec. Inr (denial_of_types rr_type (nsec_types nsec)))
                      | None \<Rightarrow>
                          if list_ex (\<lambda>r. unwrap_or_false (nsec_covers_name packet r wildcard)) nsec_records
                          then Inr DenialNxDomain
                          else Inr DenialMissing)))"

fun nsec_proves_ds_absence_loop :: "bytes \<Rightarrow> string \<Rightarrow> resource_record list \<Rightarrow> wire_error + bool" where
  "nsec_proves_ds_absence_loop packet child [] = Inr False"
| "nsec_proves_ds_absence_loop packet child (r # rs) =
     (if \<not> dns_names_equal (dn_text (rr_name r)) child then nsec_proves_ds_absence_loop packet child rs
      else
        and_then (parse_nsec packet r) (\<lambda>nsec.
        if TYPE_DS \<notin> set (nsec_types nsec) \<and> TYPE_SOA \<notin> set (nsec_types nsec) then Inr True
        else nsec_proves_ds_absence_loop packet child rs))"

definition nsec_proves_ds_absence :: "bytes \<Rightarrow> resource_record list \<Rightarrow> string \<Rightarrow> wire_error + bool" where
  "nsec_proves_ds_absence packet records child =
     nsec_proves_ds_absence_loop packet child (filter (\<lambda>r. rr_rr_type r = TYPE_NSEC) records)"

section \<open>NSEC3\<close>

definition hash_interval_covers :: "bytes \<Rightarrow> bytes \<Rightarrow> bytes \<Rightarrow> bool" where
  "hash_interval_covers owner nxt name \<longleftrightarrow>
     (if owner < nxt then owner < name \<and> name < nxt
      else if owner > nxt then name > owner \<or> name < nxt
      else name \<noteq> owner)"

definition base32hex_digit :: "char \<Rightarrow> nat option" where
  "base32hex_digit c =
     (let b = unat (byte_of c);
          upper = (if 97 \<le> b \<and> b \<le> 122 then b - 32 else b)
      in if 48 \<le> upper \<and> upper \<le> 57 then Some (upper - 48)
         else if 65 \<le> upper \<and> upper \<le> 86 then Some (upper - 65 + 10)
         else None)"

text \<open>
  The loop of \<open>decode_base32hex\<close>: the accumulator holds \<open>bits\<close> bits that are not written yet. There are at
  most 7 of them before a digit, so that the inner loop writes at most one octet.
\<close>

fun decode_base32hex_loop :: "string \<Rightarrow> nat \<Rightarrow> nat \<Rightarrow> bytes \<Rightarrow> bytes option" where
  "decode_base32hex_loop [] accumulator bits output =
     (if bits \<noteq> 0 \<and> accumulator \<noteq> 0 then None else Some output)"
| "decode_base32hex_loop (c # s) accumulator bits output =
     (case base32hex_digit c of
        None \<Rightarrow> None
      | Some digit \<Rightarrow>
          let accumulator = accumulator * 32 + digit;
              bits = bits + 5
          in if bits \<ge> 8
             then decode_base32hex_loop s (accumulator mod 2 ^ (bits - 8)) (bits - 8)
                    (output @ [of_nat (accumulator div 2 ^ (bits - 8))])
             else decode_base32hex_loop s accumulator bits output)"

definition decode_base32hex :: "string \<Rightarrow> bytes option" where
  "decode_base32hex s = decode_base32hex_loop s 0 0 []"

definition nsec3_owner :: "resource_record \<Rightarrow> (bytes \<times> string) option" where
  "nsec3_owner r =
     (let wire = dn_canonical_wire (rr_name r) in
      case get_at wire 0 of
        None \<Rightarrow> None
      | Some len \<Rightarrow>
          if unat len = 0 \<or> unat len + 1 \<ge> length wire then None
          else
            (case get_range wire 1 (1 + unat len) of
               None \<Rightarrow> None
             | Some label \<Rightarrow>
                 if \<not> valid_utf8 label then None
                 else
                   (case decode_base32hex (map char_of_byte label) of
                      None \<Rightarrow> None
                    | Some owner_hash \<Rightarrow>
                        let zone = (case split_once CHR ''.'' (dn_text (rr_name r)) of None \<Rightarrow> ''.'' | Some (_, zone) \<Rightarrow> zone)
                        in Some (owner_hash, normalize_dns_name zone))))"

definition nsec3_hash :: "(bytes \<Rightarrow> bytes) \<Rightarrow> string \<Rightarrow> nsec3_record \<Rightarrow> wire_error + bytes" where
  "nsec3_hash sha1 name parameters =
     and_then (encode_name (normalize_dns_name name)) (\<lambda>encoded.
     Inr (((\<lambda>output. sha1 (output @ n3_salt parameters)) ^^ unat (n3_iterations parameters))
            (sha1 (map ascii_lower encoded @ n3_salt parameters))))"

definition NSEC3_MAX_ITERATIONS :: u16 where "NSEC3_MAX_ITERATIONS = 100"

type_synonym owned_nsec3 = "string \<times> bytes \<times> nsec3_record"

fun parsed_nsec3_loop :: "resource_record list \<Rightarrow> owned_nsec3 list \<Rightarrow> wire_error + owned_nsec3 list" where
  "parsed_nsec3_loop [] parsed = Inr parsed"
| "parsed_nsec3_loop (r # rs) parsed =
     and_then (parse_nsec3 r) (\<lambda>nsec3.
     if n3_hash_algorithm nsec3 \<noteq> 1 \<or> n3_flags nsec3 > 1 \<or> n3_iterations nsec3 > NSEC3_MAX_ITERATIONS
        \<or> length (n3_next_hashed_owner nsec3) \<noteq> 20
     then parsed_nsec3_loop rs parsed
     else
       (case nsec3_owner r of
          None \<Rightarrow> parsed_nsec3_loop rs parsed
        | Some (owner_hash, zone) \<Rightarrow>
            parsed_nsec3_loop rs (if length owner_hash = 20 then parsed @ [(zone, owner_hash, nsec3)] else parsed)))"

definition parsed_nsec3_records :: "resource_record list \<Rightarrow> wire_error + owned_nsec3 list" where
  "parsed_nsec3_records records = parsed_nsec3_loop (filter (\<lambda>r. rr_rr_type r = TYPE_NSEC3) records) []"

definition compatible_nsec3_records :: "owned_nsec3 list \<Rightarrow> string \<Rightarrow> nsec3_record \<Rightarrow> owned_nsec3 list" where
  "compatible_nsec3_records records zone parameters =
     filter (\<lambda>(candidate_zone, _, candidate).
               dns_names_equal candidate_zone zone \<and> n3_hash_algorithm candidate = n3_hash_algorithm parameters \<and>
               n3_iterations candidate = n3_iterations parameters \<and> n3_salt candidate = n3_salt parameters) records"

definition nsec3_matching :: "owned_nsec3 list \<Rightarrow> bytes \<Rightarrow> nsec3_record option" where
  "nsec3_matching compatible h = map_option (snd \<circ> snd) (find (\<lambda>(_, owner_hash, _). owner_hash = h) compatible)"

definition nsec3_covering :: "owned_nsec3 list \<Rightarrow> bytes \<Rightarrow> nsec3_record option" where
  "nsec3_covering compatible h =
     map_option (snd \<circ> snd)
       (find (\<lambda>(_, owner_hash, r). hash_interval_covers owner_hash (n3_next_hashed_owner r) h) compatible)"

text \<open>The closest encloser: the index of the longest ancestor inside the zone whose hash has a record.\<close>

fun nsec3_closest ::
  "(bytes \<Rightarrow> bytes) \<Rightarrow> owned_nsec3 list \<Rightarrow> string \<Rightarrow> nsec3_record \<Rightarrow> (nat \<times> string) list \<Rightarrow> (nat \<times> nsec3_record) option" where
  "nsec3_closest sha1 compatible zone parameters [] = None"
| "nsec3_closest sha1 compatible zone parameters ((index, ancestor) # rest) =
     (if \<not> dns_name_is_at_or_below ancestor zone then nsec3_closest sha1 compatible zone parameters rest
      else
        (case nsec3_hash sha1 ancestor parameters of
           Inl _ \<Rightarrow> nsec3_closest sha1 compatible zone parameters rest
         | Inr h \<Rightarrow>
             (case nsec3_matching compatible h of
                Some candidate \<Rightarrow> Some (index, candidate)
              | None \<Rightarrow> nsec3_closest sha1 compatible zone parameters rest)))"

text \<open>The turn of the loop of \<open>nsec3_denial_result\<close> for the parameters of one record; \<open>None\<close> is \<open>continue\<close>.\<close>

definition nsec3_denial_turn ::
  "(bytes \<Rightarrow> bytes) \<Rightarrow> owned_nsec3 list \<Rightarrow> string \<Rightarrow> u16 \<Rightarrow> owned_nsec3 \<Rightarrow> wire_error + dnssec_denial_result option" where
  "nsec3_denial_turn sha1 parsed name rr_type turn =
     (case turn of (zone, _, parameters) \<Rightarrow>
      let compatible = compatible_nsec3_records parsed zone parameters in
      and_then (nsec3_hash sha1 name parameters) (\<lambda>name_hash.
      case nsec3_matching compatible name_hash of
        Some exact \<Rightarrow>
          if wrong_side_of_cut rr_type (n3_types exact) then Inr None
          else Inr (Some (denial_of_types rr_type (n3_types exact)))
      | None \<Rightarrow>
          let ancestors = dns_name_ancestors name in
          (case nsec3_closest sha1 compatible zone parameters (rev (enumerate 0 ancestors)) of
             None \<Rightarrow> Inr None
           | Some (closest_index, closest) \<Rightarrow>
               if TYPE_DNAME \<in> set (n3_types closest)
                  \<or> TYPE_NS \<in> set (n3_types closest) \<and> TYPE_SOA \<notin> set (n3_types closest)
               then Inr None
               else
                 (case get_at ancestors (closest_index + 1) of
                    None \<Rightarrow> Inr None
                  | Some next_closer \<Rightarrow>
                      and_then (nsec3_hash sha1 next_closer parameters) (\<lambda>next_closer_hash.
                      case nsec3_covering compatible next_closer_hash of
                        None \<Rightarrow> Inr None
                      | Some next_cover \<Rightarrow>
                          if n3_flags next_cover = 1 then Inr (Some DenialOptOut)
                          else
                            and_then (nsec3_hash sha1 (wildcard_of (ancestors ! closest_index)) parameters) (\<lambda>wildcard_hash.
                            case nsec3_matching compatible wildcard_hash of
                              Some wildcard_exact \<Rightarrow> Inr (Some (denial_of_types rr_type (n3_types wildcard_exact)))
                            | None \<Rightarrow>
                                (case nsec3_covering compatible wildcard_hash of
                                   Some wildcard_cover \<Rightarrow>
                                     Inr (Some (if n3_flags wildcard_cover = 1 then DenialOptOut else DenialNxDomain))
                                 | None \<Rightarrow> Inr None)))))))"

fun nsec3_denial_loop ::
  "(bytes \<Rightarrow> bytes) \<Rightarrow> owned_nsec3 list \<Rightarrow> string \<Rightarrow> u16 \<Rightarrow> owned_nsec3 list \<Rightarrow> wire_error + dnssec_denial_result" where
  "nsec3_denial_loop sha1 parsed name rr_type [] = Inr DenialMissing"
| "nsec3_denial_loop sha1 parsed name rr_type (turn # turns) =
     and_then (nsec3_denial_turn sha1 parsed name rr_type turn) (\<lambda>result.
     case result of Some r \<Rightarrow> Inr r | None \<Rightarrow> nsec3_denial_loop sha1 parsed name rr_type turns)"

definition nsec3_denial_result ::
  "(bytes \<Rightarrow> bytes) \<Rightarrow> resource_record list \<Rightarrow> string \<Rightarrow> u16 \<Rightarrow> wire_error + dnssec_denial_result" where
  "nsec3_denial_result sha1 records name rr_type =
     and_then (parsed_nsec3_records records) (\<lambda>parsed. nsec3_denial_loop sha1 parsed name rr_type parsed)"

definition nsec3_proves_ds_absence :: "(bytes \<Rightarrow> bytes) \<Rightarrow> resource_record list \<Rightarrow> string \<Rightarrow> wire_error + bool" where
  "nsec3_proves_ds_absence sha1 records child =
     and_then (nsec3_denial_result sha1 records child TYPE_DS) (\<lambda>result.
     Inr (result = DenialNoData \<or> result = DenialNxDomain \<or> result = DenialOptOut))"

definition dnssec_denial_result_of ::
  "(bytes \<Rightarrow> bytes) \<Rightarrow> bytes \<Rightarrow> resource_record list \<Rightarrow> string \<Rightarrow> u16 \<Rightarrow> wire_error + dnssec_denial_result" where
  "dnssec_denial_result_of sha1 packet records name rr_type =
     and_then (nsec_denial_result packet records name rr_type) (\<lambda>nsec.
     if nsec \<noteq> DenialMissing then Inr nsec else nsec3_denial_result sha1 records name rr_type)"

section \<open>Wildcard answers\<close>

fun wildcard_nsec3_loop ::
  "(bytes \<Rightarrow> bytes) \<Rightarrow> owned_nsec3 list \<Rightarrow> string \<Rightarrow> string \<Rightarrow> owned_nsec3 list \<Rightarrow> wire_error + bool" where
  "wildcard_nsec3_loop sha1 parsed closest next_closer [] = Inr False"
| "wildcard_nsec3_loop sha1 parsed closest next_closer ((zone, _, parameters) # turns) =
     (if \<not> dns_name_is_at_or_below closest zone then wildcard_nsec3_loop sha1 parsed closest next_closer turns
      else
        let compatible = compatible_nsec3_records parsed zone parameters in
        and_then (nsec3_hash sha1 closest parameters) (\<lambda>closest_hash.
        if nsec3_matching compatible closest_hash = None then wildcard_nsec3_loop sha1 parsed closest next_closer turns
        else
          and_then (nsec3_hash sha1 next_closer parameters) (\<lambda>next_hash.
          if list_ex (\<lambda>(_, owner_hash, r). n3_flags r = 0 \<and>
                        hash_interval_covers owner_hash (n3_next_hashed_owner r) next_hash) compatible
          then Inr True
          else wildcard_nsec3_loop sha1 parsed closest next_closer turns)))"

definition wildcard_expansion_is_proven ::
  "(bytes \<Rightarrow> bytes) \<Rightarrow> bytes \<Rightarrow> resource_record list \<Rightarrow> string \<Rightarrow> nat \<Rightarrow> wire_error + bool" where
  "wildcard_expansion_is_proven sha1 packet records expanded_owner source_labels =
     (case dns_name_suffix expanded_owner source_labels of
        None \<Rightarrow> Inr False
      | Some closest \<Rightarrow>
          let expanded_labels = length (split_dots (normalize_dns_name expanded_owner)) in
          (case dns_name_suffix expanded_owner (source_labels + 1) of
             None \<Rightarrow> Inr False
           | Some next_closer \<Rightarrow>
               if source_labels \<ge> expanded_labels then Inr False
               else
                 let nsec_records = filter (\<lambda>r. rr_rr_type r = TYPE_NSEC) records in
                 if nsec_records \<noteq> [] \<and>
                    list_ex (\<lambda>r. dns_name_is_at_or_below (dn_text (rr_name r)) closest) nsec_records \<and>
                    list_ex (\<lambda>r. unwrap_or_false (nsec_covers_name packet r next_closer)) nsec_records
                 then Inr True
                 else
                   and_then (parsed_nsec3_records records) (\<lambda>parsed.
                   wildcard_nsec3_loop sha1 parsed closest next_closer parsed)))"

section \<open>The verdict on a response\<close>

text \<open>The loop of \<open>terminal_cname\<close>, with the number of turns left and the names visited.\<close>

fun terminal_cname_loop :: "nat \<Rightarrow> bytes \<Rightarrow> resource_record list \<Rightarrow> string list \<Rightarrow> string \<Rightarrow> wire_error + string" where
  "terminal_cname_loop 0 packet answers visited current = Inl CnameLoop"
| "terminal_cname_loop (Suc n) packet answers visited current =
     (if current \<in> set visited then Inl CnameLoop
      else
        (case find (\<lambda>r. rr_rr_type r = TYPE_CNAME \<and> dns_names_equal (dn_text (rr_name r)) current) answers of
           None \<Rightarrow> Inr current
         | Some r \<Rightarrow>
             and_then (read_name packet (rr_rdata_offset r)) (\<lambda>(target, stop).
             if stop \<noteq> rr_next_offset r then Inl InvalidRecord
             else terminal_cname_loop n packet answers (current # visited) (normalize_dns_name (dn_text target)))))"

definition terminal_cname :: "bytes \<Rightarrow> resource_record list \<Rightarrow> string \<Rightarrow> wire_error + string" where
  "terminal_cname packet answers initial = terminal_cname_loop 64 packet answers [] (normalize_dns_name initial)"

fun wildcard_signatures ::
  "(bytes \<Rightarrow> bytes) \<Rightarrow> bytes \<Rightarrow> resource_record list \<Rightarrow> resource_record list \<Rightarrow> denial_error + dnssec_verdict" where
  "wildcard_signatures sha1 response records [] = Inr VerdictSecure"
| "wildcard_signatures sha1 response records (sr # rest) =
     and_then (map_err DenialWire (parse_rrsig response sr)) (\<lambda>parsed.
     and_then (map_err DenialWire (dns_name_label_count (dn_canonical_wire (rr_name sr)))) (\<lambda>owner_labels.
     if unat (sig_labels parsed) < owner_labels then
       and_then (map_err DenialWire (wildcard_expansion_is_proven sha1 response records (dn_text (rr_name sr))
                                       (unat (sig_labels parsed)))) (\<lambda>proven.
       if \<not> proven then Inl (DnssecValidationFailed ''DNSSEC wildcard closest-encloser proof is missing'')
       else wildcard_signatures sha1 response records rest)
     else wildcard_signatures sha1 response records rest))"

text \<open>\<open>records\<close> are all records of the response, so that the answer section is a prefix of them.\<close>

definition authenticated_response_semantics ::
  "(bytes \<Rightarrow> bytes) \<Rightarrow> bytes \<Rightarrow> bytes \<Rightarrow> resource_record list \<Rightarrow> denial_error + dnssec_verdict" where
  "authenticated_response_semantics sha1 query response records =
     and_then (map_err DenialWire (first_question query)) (\<lambda>question.
     and_then (map_err DenialWire (header_parse response)) (\<lambda>header.
     let answers = take (unat (h_answer_count header)) records in
     and_then (map_err DenialWire (terminal_cname response answers (dn_text (q_name question)))) (\<lambda>terminal_name.
     let has_redirect = (\<not> dns_names_equal terminal_name (dn_text (q_name question)));
         has_requested_answer =
           (if q_rr_type question = 255
            then list_ex (\<lambda>r. \<not> (rr_rr_type r = TYPE_RRSIG \<or> rr_rr_type r = TYPE_OPT)) answers
            else list_ex (\<lambda>r. rr_rr_type r = q_rr_type question) answers)
     in if response_code header = 3 \<or> response_code header = 0 \<and> \<not> has_requested_answer \<and> \<not> has_redirect
        then
          and_then (map_err DenialWire
                      (dnssec_denial_result_of sha1 response records terminal_name (q_rr_type question))) (\<lambda>denial.
          if response_code header = 3 \<and> denial = DenialNxDomain \<or> response_code header = 0 \<and> denial = DenialNoData
          then Inr VerdictSecure
          else if denial = DenialOptOut then Inr VerdictInsecure
          else if response_code header = 3
          then Inl (DnssecValidationFailed ''DNSSEC NXDOMAIN proof is missing'')
          else Inl (DnssecValidationFailed ''DNSSEC NODATA proof is missing''))
        else wildcard_signatures sha1 response records (filter (\<lambda>r. rr_rr_type r = TYPE_RRSIG) answers))))"

section \<open>What a proof of non-existence is\<close>

text \<open>
  RFC 4035: some NSEC record covers the name, and some covers the wildcard at the closest encloser, which is
  the longest ancestor of the name at or above a record of the response.
\<close>

definition nsec_nxdomain_proof :: "bytes \<Rightarrow> resource_record list \<Rightarrow> string \<Rightarrow> bool" where
  "nsec_nxdomain_proof packet records name \<longleftrightarrow>
     (let ancestors = dns_name_ancestors name;
          exists = (\<lambda>a. \<exists>x \<in> set records. rr_rr_type x \<noteq> TYPE_RRSIG \<and> rr_rr_type x \<noteq> TYPE_OPT \<and>
                          dns_name_is_at_or_below (dn_text (rr_name x)) a);
          nsec = filter (\<lambda>r. rr_rr_type r = TYPE_NSEC) records
      in \<exists>i < length ancestors.
           exists (ancestors ! i) \<and> (\<forall>j. i < j \<and> j < length ancestors \<longrightarrow> \<not> exists (ancestors ! j)) \<and>
           (\<exists>r \<in> set nsec. nsec_covers_name packet r name = Inr True) \<and>
           (\<forall>r \<in> set nsec. \<not> dns_record_name_equal r (wildcard_of (ancestors ! i))) \<and>
           (\<exists>r \<in> set nsec. nsec_covers_name packet r (wildcard_of (ancestors ! i)) = Inr True))"

text \<open>
  RFC 5155: among records of one zone and one set of parameters, one matches the closest encloser, which is
  no delegation and no DNAME; one without opt-out covers the next closer name; and one without opt-out
  covers the wildcard.
\<close>

definition nsec3_covers :: "owned_nsec3 list \<Rightarrow> bytes \<Rightarrow> bool" where
  "nsec3_covers rs h \<longleftrightarrow>
     (\<exists>(_, owner_hash, r) \<in> set rs. hash_interval_covers owner_hash (n3_next_hashed_owner r) h \<and> n3_flags r \<noteq> 1)"

definition nsec3_nxdomain_proof :: "(bytes \<Rightarrow> bytes) \<Rightarrow> resource_record list \<Rightarrow> string \<Rightarrow> bool" where
  "nsec3_nxdomain_proof sha1 records name \<longleftrightarrow>
     (\<exists>parsed zone oh p i hc hn hw enc.
        let rs = compatible_nsec3_records parsed zone p;
            ancestors = dns_name_ancestors name
        in parsed_nsec3_records records = Inr parsed \<and> (zone, oh, p) \<in> set parsed \<and> i + 1 < length ancestors \<and>
           dns_name_is_at_or_below (ancestors ! i) zone \<and>
           nsec3_hash sha1 (ancestors ! i) p = Inr hc \<and> nsec3_matching rs hc = Some enc \<and>
           \<not> (TYPE_DNAME \<in> set (n3_types enc) \<or> TYPE_NS \<in> set (n3_types enc) \<and> TYPE_SOA \<notin> set (n3_types enc)) \<and>
           nsec3_hash sha1 (ancestors ! (i + 1)) p = Inr hn \<and> nsec3_covers rs hn \<and>
           nsec3_hash sha1 (wildcard_of (ancestors ! i)) p = Inr hw \<and> nsec3_matching rs hw = None \<and> nsec3_covers rs hw)"

section \<open>Lemmas\<close>

lemma find_rev_Some:
  assumes "find P (rev xs) = Some x"
  shows "\<exists>i < length xs. xs ! i = x \<and> P x \<and> (\<forall>j. i < j \<and> j < length xs \<longrightarrow> \<not> P (xs ! j))"
proof -
  from assms obtain k where k: "k < length xs" "P x" "x = rev xs ! k" "\<forall>j < k. \<not> P (rev xs ! j)"
    by (auto simp: find_Some_iff)
  let ?i = "length xs - Suc k"
  have "\<not> P (xs ! j)" if "?i < j" "j < length xs" for j
  proof -
    have "rev xs ! (length xs - Suc j) = xs ! j" "length xs - Suc j < k" using that k(1) by (auto simp: rev_nth)
    with k(4) show ?thesis by metis
  qed
  then show ?thesis using k by (intro exI [of _ ?i]) (auto simp: rev_nth)
qed

lemma find_SomeD: "find P xs = Some x \<Longrightarrow> x \<in> set xs \<and> P x"
  by (auto simp: find_Some_iff)

lemma unwrap_or_false_iff [simp]: "unwrap_or_false r \<longleftrightarrow> r = Inr True"
  by (auto simp: unwrap_or_false_def split: sum.splits)

lemma root_in_ancestors: "''.'' \<in> set (dns_name_ancestors name)"
  by (simp add: dns_name_ancestors_def Let_def)

lemma at_or_below_root [simp]: "dns_name_is_at_or_below name ''.''"
  by (simp add: dns_name_is_at_or_below_def)

lemma closest_existing_ancestor_Some:
  assumes "r \<in> set records" "rr_rr_type r \<noteq> TYPE_RRSIG" "rr_rr_type r \<noteq> TYPE_OPT"
  shows "\<exists>c. closest_existing_ancestor records name = Some c"
proof (rule ccontr)
  assume "\<not> ?thesis"
  then have "closest_existing_ancestor records name = None" by simp
  then show False using assms root_in_ancestors [of name] at_or_below_root
    unfolding closest_existing_ancestor_def find_None_iff list_ex_iff set_rev by blast
qed

lemma denial_of_types_not_nx [simp]: "denial_of_types t ts \<noteq> DenialNxDomain" "DenialNxDomain \<noteq> denial_of_types t ts"
  by (auto simp: denial_of_types_def)

lemma nsec_exact_not_nx: "nsec_exact packet name t rs = Inr (Some d) \<Longrightarrow> d \<noteq> DenialNxDomain"
  by (induction rs) (auto simp: result_simps split: if_splits)

lemma nsec_nxdomain_sound:
  assumes "nsec_denial_result packet records name t = Inr DenialNxDomain"
  shows "nsec_nxdomain_proof packet records name"
proof -
  let ?nsec = "filter (\<lambda>r. rr_rr_type r = TYPE_NSEC) records"
  from assms obtain ex where ex: "nsec_exact packet name t ?nsec = Inr ex"
    by (auto simp: nsec_denial_result_def Let_def result_simps split: if_splits)
  have "ex = None" using assms ex nsec_exact_not_nx by (cases ex) (auto simp: nsec_denial_result_def Let_def split: if_splits)
  with ex have exact: "nsec_exact packet name t ?nsec = Inr None" by simp
  from assms obtain covering where cov: "find (\<lambda>r. nsec_covers_name packet r name = Inr True) ?nsec = Some covering"
    by (cases "find (\<lambda>r. nsec_covers_name packet r name = Inr True) ?nsec")
      (auto simp: nsec_denial_result_def exact Let_def split: if_splits)
  then have c: "covering \<in> set ?nsec" "nsec_covers_name packet covering name = Inr True"
    using find_SomeD [OF cov] by auto
  then obtain closest where cl: "closest_existing_ancestor records name = Some closest"
    using closest_existing_ancestor_Some [of covering records name]
    by (auto simp: TYPE_NSEC_def TYPE_RRSIG_def TYPE_OPT_def)
  have wild: "find (\<lambda>r. dns_record_name_equal r (wildcard_of closest)) ?nsec = None"
    "list_ex (\<lambda>r. nsec_covers_name packet r (wildcard_of closest) = Inr True) ?nsec"
    using assms exact cov cl
    by (auto simp: nsec_denial_result_def Let_def result_simps split: if_splits option.splits)
  show ?thesis
    using find_rev_Some [OF cl [unfolded closest_existing_ancestor_def]] c wild
    by (auto simp: nsec_nxdomain_proof_def Let_def find_None_iff list_ex_iff)
qed

lemma nsec3_closest_Some:
  assumes "nsec3_closest sha1 rs zone p xs = Some (i, enc)"
  shows "\<exists>a h. (i, a) \<in> set xs \<and> dns_name_is_at_or_below a zone \<and> nsec3_hash sha1 a p = Inr h \<and> nsec3_matching rs h = Some enc"
  using assms
proof (induction xs)
  case (Cons x xs)
  obtain j a where x: "x = (j, a)" by (cases x)
  show ?case
  proof (cases "nsec3_closest sha1 rs zone p xs = Some (i, enc)")
    case True
    then show ?thesis using Cons.IH by auto
  next
    case False
    then show ?thesis using Cons.prems by (auto simp: x split: if_splits sum.splits option.splits)
  qed
qed simp

lemma nsec3_covering_Some:
  "nsec3_covering rs h = Some r \<Longrightarrow> n3_flags r \<noteq> 1 \<Longrightarrow> nsec3_covers rs h"
  by (auto simp: nsec3_covering_def nsec3_covers_def dest!: find_SomeD)

lemma nsec3_turn_nxdomain:
  assumes "nsec3_denial_turn sha1 parsed name t (zone, oh, p) = Inr (Some DenialNxDomain)"
    "parsed_nsec3_records records = Inr parsed" "(zone, oh, p) \<in> set parsed"
  shows "nsec3_nxdomain_proof sha1 records name"
proof -
  let ?rs = "compatible_nsec3_records parsed zone p" and ?as = "dns_name_ancestors name"
  obtain h where h: "nsec3_hash sha1 name p = Inr h" "nsec3_matching ?rs h = None"
    using assms(1) by (auto simp: nsec3_denial_turn_def Let_def result_simps split: if_splits option.splits)
  obtain i enc where i: "nsec3_closest sha1 ?rs zone p (rev (enumerate 0 ?as)) = Some (i, enc)"
    using assms(1) h by (auto simp: nsec3_denial_turn_def Let_def split: option.splits)
  have cut: "\<not> (TYPE_DNAME \<in> set (n3_types enc) \<or> TYPE_NS \<in> set (n3_types enc) \<and> TYPE_SOA \<notin> set (n3_types enc))"
    using assms(1) h i by (auto simp: nsec3_denial_turn_def Let_def split: if_splits)
  obtain nc hn where nc: "get_at ?as (i + 1) = Some nc" "nsec3_hash sha1 nc p = Inr hn"
    using assms(1) h i cut by (auto simp: nsec3_denial_turn_def Let_def result_simps split: if_splits option.splits)
  obtain r where r: "nsec3_covering ?rs hn = Some r" "n3_flags r \<noteq> 1"
    using assms(1) h i cut nc by (cases "nsec3_covering ?rs hn") (auto simp: nsec3_denial_turn_def Let_def split: if_splits)
  obtain hw w where w: "nsec3_hash sha1 (wildcard_of (?as ! i)) p = Inr hw" "nsec3_matching ?rs hw = None"
    "nsec3_covering ?rs hw = Some w" "n3_flags w \<noteq> 1"
    using assms(1) h i cut nc r
    by (cases "nsec3_hash sha1 (wildcard_of (?as ! i)) p")
      (auto simp: nsec3_denial_turn_def Let_def split: if_splits option.splits)
  obtain hc where hc: "dns_name_is_at_or_below (?as ! i) zone" "nsec3_hash sha1 (?as ! i) p = Inr hc" "nsec3_matching ?rs hc = Some enc"
    using nsec3_closest_Some [OF i] by (auto simp: in_set_enumerate_eq)
  have "i + 1 < length ?as" "nc = ?as ! (i + 1)" using nc(1) by (auto simp: slice_simps)
  then show ?thesis
    unfolding nsec3_nxdomain_proof_def Let_def
    using cut nc(2) w(1,2) hc assms(2,3) nsec3_covering_Some [OF r] nsec3_covering_Some [OF w(3,4)] by blast
qed

lemma nsec3_nxdomain_sound:
  assumes "nsec3_denial_result sha1 records name t = Inr DenialNxDomain"
  shows "nsec3_nxdomain_proof sha1 records name"
proof -
  from assms obtain parsed where p: "parsed_nsec3_records records = Inr parsed"
    "nsec3_denial_loop sha1 parsed name t parsed = Inr DenialNxDomain"
    by (auto simp: nsec3_denial_result_def result_simps)
  have "\<exists>turn \<in> set turns. nsec3_denial_turn sha1 parsed name t turn = Inr (Some DenialNxDomain)"
    if "nsec3_denial_loop sha1 parsed name t turns = Inr DenialNxDomain" for turns
    using that by (induction turns) (auto simp: result_simps split: option.splits)
  then show ?thesis using p nsec3_turn_nxdomain by (metis prod_cases3)
qed

text \<open>
  C0: A secure verdict rests on a proof. When \<open>authenticated_response_semantics\<close> calls an NXDOMAIN response
  secure, its records hold an NSEC or an NSEC3 proof that neither the name at the end of the CNAME chain nor
  a wildcard that could match it exists. When it calls any other response secure that answers the question
  or redirects it, every answer signed for fewer labels than its owner has, which is a wildcard answer, has
  a proof that the owner itself does not exist.
\<close>

theorem secure_verdict_proven:
  assumes "authenticated_response_semantics sha1 query response records = Inr VerdictSecure"
  shows "\<exists>question header name. first_question query = Inr question \<and> header_parse response = Inr header \<and>
    terminal_cname response (take (unat (h_answer_count header)) records) (dn_text (q_name question)) = Inr name \<and>
    (if response_code header = 3
     then nsec_nxdomain_proof response records name \<or> nsec3_nxdomain_proof sha1 records name
     else dnssec_denial_result_of sha1 response records name (q_rr_type question) = Inr DenialNoData \<or>
       (\<forall>r \<in> set (take (unat (h_answer_count header)) records). rr_rr_type r = TYPE_RRSIG \<longrightarrow>
          (\<exists>s n. parse_rrsig response r = Inr s \<and> dns_name_label_count (dn_canonical_wire (rr_name r)) = Inr n \<and>
            (n \<le> unat (sig_labels s) \<or>
             wildcard_expansion_is_proven sha1 response records (dn_text (rr_name r)) (unat (sig_labels s)) = Inr True))))"
proof -
  have loop: "\<forall>r \<in> set rs. \<exists>s n. parse_rrsig response r = Inr s \<and> dns_name_label_count (dn_canonical_wire (rr_name r)) = Inr n \<and>
      (n \<le> unat (sig_labels s) \<or>
       wildcard_expansion_is_proven sha1 response records (dn_text (rr_name r)) (unat (sig_labels s)) = Inr True)"
    if "wildcard_signatures sha1 response records rs = Inr VerdictSecure" for rs
    using that by (induction rs) (auto simp: result_simps not_less split: if_splits)
  have nx: "nsec_nxdomain_proof response records name \<or> nsec3_nxdomain_proof sha1 records name"
    if "dnssec_denial_result_of sha1 response records name t = Inr DenialNxDomain" for name t
    using that nsec_nxdomain_sound nsec3_nxdomain_sound
    by (auto simp: dnssec_denial_result_of_def result_simps split: if_splits)
  show ?thesis
    using assms unfolding authenticated_response_semantics_def
    by (auto simp: result_simps Let_def dest: nx loop split: if_splits)
qed

section \<open>Lemmas: chains and hashes\<close>

text \<open>The chain of CNAME records that \<open>terminal_cname\<close> follows has ended: no record of the answers continues it.\<close>

lemma terminal_cname_end:
  assumes "terminal_cname packet answers initial = Inr name" "r \<in> set answers" "rr_rr_type r = TYPE_CNAME"
  shows "\<not> dns_names_equal (dn_text (rr_name r)) name"
proof -
  have "\<not> dns_names_equal (dn_text (rr_name r)) name"
    if "terminal_cname_loop n packet answers visited current = Inr name" for n visited current
    using that assms(2,3)
    by (induction n arbitrary: visited current) (auto simp: result_simps find_None_iff split: if_splits option.splits)
  then show ?thesis using assms(1) by (simp add: terminal_cname_def)
qed

text \<open>A base32hex text of 32 digits gives the 20 octets of a SHA-1 hash.\<close>

lemma decode_base32hex_length:
  assumes "decode_base32hex s = Some out"
  shows "length out = length s * 5 div 8"
proof -
  have "length out = length written + (length t * 5 + bits) div 8"
    if "decode_base32hex_loop t accumulator bits written = Some out" "bits < 8" for t accumulator bits written
    using that
  proof (induction t arbitrary: accumulator bits written)
    case (Cons c t)
    then obtain digit where d: "base32hex_digit c = Some digit" by (auto split: option.splits)
    show ?case
    proof (cases "bits + 5 \<ge> 8")
      case True
      then have "length out = length written + 1 + (length t * 5 + (bits + 5 - 8)) div 8"
        using Cons.prems d Cons.IH [of "(accumulator * 32 + digit) mod 2 ^ (bits + 5 - 8)" "bits + 5 - 8"
          "written @ [of_nat ((accumulator * 32 + digit) div 2 ^ (bits + 5 - 8))]"]
        by (simp add: Let_def)
      moreover have "length (c # t) * 5 + bits = 8 + (length t * 5 + (bits + 5 - 8))" using True by simp
      ultimately show ?thesis by (simp add: div_add_self1 del: length_Cons)
    next
      case False
      then show ?thesis using Cons.prems d Cons.IH [of "accumulator * 32 + digit" "bits + 5" written]
        by (simp add: Let_def add.commute add.left_commute)
    qed
  qed (auto split: if_splits)
  from this [of s 0 0 "[]"] show ?thesis using assms by (simp add: decode_base32hex_def)
qed

lemma hash_interval_open: "\<not> hash_interval_covers owner nxt owner" "owner \<noteq> nxt \<Longrightarrow> \<not> hash_interval_covers owner nxt nxt"
  by (auto simp: hash_interval_covers_def)

section \<open>Examples\<close>

definition ex_denial_query :: bytes where
  "ex_denial_query = [0, 1, 1, 0, 0, 1, 0, 0, 0, 0, 0, 0, 1, 97, 1, 100, 1, 122, 0, 0, 1, 0, 1]"

definition ex_denial_response :: bytes where
  "ex_denial_response = [0, 1, 129, 131, 0, 1, 0, 0, 0, 1, 0, 0, 1, 101, 1, 122, 0, 0, 1, 32]"

definition ex_denial_nsec :: resource_record where
  "ex_denial_nsec = \<lparr>rr_name = \<lparr>dn_text = ''d.z'', dn_canonical_wire = [1, 100, 1, 122, 0]\<rparr>, rr_rr_type = 47, rr_class = 1,
     rr_ttl = 60, rr_ttl_offset = 0, rr_rdata_offset = 12, rr_rdata = [1, 101, 1, 122, 0, 0, 1, 32], rr_next_offset = 20\<rparr>"

lemma ex_denial_parse:
  "parse_nsec ex_denial_response ex_denial_nsec =
     Inr \<lparr>nsec_next_domain = \<lparr>dn_text = ''e.z'', dn_canonical_wire = [1, 101, 1, 122, 0]\<rparr>, nsec_types = [TYPE_NS]\<rparr>"
  by (simp add: parse_nsec_def ex_denial_response_def ex_denial_nsec_def codec_eval TYPE_NSEC_def
    parse_type_bitmap_def parse_bitmap_loop.simps window_types_def octet_types_def enumerate_eq_zip upt_rec)

lemma ex_denial_question:
  "first_question ex_denial_query =
     Inr \<lparr>q_name = \<lparr>dn_text = ''a.d.z'', dn_canonical_wire = [1, 97, 1, 100, 1, 122, 0]\<rparr>, q_rr_type = 1, q_class = 1, q_next_offset = 23\<rparr>"
  by (simp add: ex_denial_query_def packet_eval)

lemma ex_denial_header:
  "header_parse ex_denial_response = Inr \<lparr>h_id = 1, h_flags = 33155, h_question_count = 1, h_answer_count = 0,
     h_authority_count = 1, h_additional_count = 0\<rparr>"
  by (simp add: ex_denial_response_def packet_eval)

lemma ex_denial_names:
  "normalize_dns_name ''a.d.z'' = ''a.d.z''" "normalize_dns_name ''*.d.z'' = ''*.d.z''" "normalize_dns_name ''e.z'' = ''e.z''"
  "dns_name_ancestors ''a.d.z'' = [''.'', ''z'', ''d.z'', ''a.d.z'']" "dns_names_equal ''d.z'' ''a.d.z'' = False"
  "dns_name_parent ''e.z'' = Some ''z''" "dns_name_is_at_or_below ''z'' ''a.d.z'' = False"
  "dns_name_is_at_or_below ''d.z'' ''a.d.z'' = False" "dns_name_is_at_or_below ''d.z'' ''d.z''"
  "dns_names_equal ''a.d.z'' ''a.d.z''"
  by code_simp+

lemma ex_denial_encode:
  "encode_name ''a.d.z'' = Inr [1, 97, 1, 100, 1, 122, 0]" "encode_name ''*.d.z'' = Inr [1, 42, 1, 100, 1, 122, 0]"
  by (simp_all add: encode_eval)

lemma ex_denial_covers:
  "canonical_name_interval_covers [1, 100, 1, 122, 0] [1, 101, 1, 122, 0] [1, 97, 1, 100, 1, 122, 0] = Inr True"
  "canonical_name_interval_covers [1, 100, 1, 122, 0] [1, 101, 1, 122, 0] [1, 42, 1, 100, 1, 122, 0] = Inr True"
  by (simp_all add: canonical_name_interval_covers_def canonical_dns_name_cmp_def dns_wire_labels_def
    dns_wire_labels_loop.simps wire_eval ord_cmp_def)

text \<open>
  A delegation proves that the names below it do not exist: the NSEC record that the parent zone z has for
  the delegation of d.z covers a.d.z and *.d.z. RFC 6840, section 4.1, forbids this use of it.
\<close>

lemma nsec_below_delegation_denied:
  "nsec_denial_result ex_denial_response [ex_denial_nsec] ''a.d.z'' 1 = Inr DenialNxDomain"
proof -
  have r: "rr_rr_type ex_denial_nsec = TYPE_NSEC" "dn_text (rr_name ex_denial_nsec) = ''d.z''"
    "dn_canonical_wire (rr_name ex_denial_nsec) = [1, 100, 1, 122, 0]"
    by (simp_all add: ex_denial_nsec_def TYPE_NSEC_def)
  have t: "TYPE_NSEC \<noteq> TYPE_RRSIG" "TYPE_NSEC \<noteq> TYPE_OPT" by (simp_all add: TYPE_NSEC_def TYPE_RRSIG_def TYPE_OPT_def)
  show ?thesis
    by (simp add: nsec_denial_result_def r t ex_denial_parse ex_denial_names ex_denial_encode ex_denial_covers
      nsec_proves_empty_nonterminal_def nsec_covers_name_def closest_existing_ancestor_def wildcard_of_def
      dns_record_name_equal_def)
qed

lemma ex_denial_terminal: "terminal_cname ex_denial_response [] ''a.d.z'' = Inr ''a.d.z''"
  by (simp add: terminal_cname_def ex_denial_names numeral_eq_Suc)

lemma ex_denial_verdict:
  "authenticated_response_semantics (\<lambda>x. x) ex_denial_query ex_denial_response [ex_denial_nsec] = Inr VerdictSecure"
  by (simp add: authenticated_response_semantics_def ex_denial_question ex_denial_header ex_denial_terminal ex_denial_names
    response_code_def dnssec_denial_result_of_def nsec_below_delegation_denied RCODE_MASK_def)

theorem secure_verdict_proven_witness:
  "nsec_nxdomain_proof ex_denial_response [ex_denial_nsec] ''a.d.z'' \<or> nsec3_nxdomain_proof (\<lambda>x. x) [ex_denial_nsec] ''a.d.z''"
  using secure_verdict_proven [OF ex_denial_verdict]
  by (simp add: ex_denial_question ex_denial_header ex_denial_terminal response_code_def RCODE_MASK_def)

end
