(* ===== verification/Dnssec_Canonical.thy ===== *)
theory Dnssec_Canonical
  imports Dnssec_Records "HOL-Library.List_Lexorder" "HOL-Library.Product_Lexorder" "HOL-Library.Multiset"
begin

text \<open>
  The data a signature covers and its verification (\<open>src/src/dnssec/canonical.rs\<close>, \<open>src/src/dnssec.rs\<close>):
  canonical owner names, canonical record data, the signed octets of an RRset, validity times, digests of
  keys and signatures. The digest and the verification primitive are functions behind the C interface and
  arguments of the model. The properties: the signed octets depend on the set of records only, they are
  those of RFC 4034 when the canonical data of all records has one length, and they are not in general.
\<close>

datatype dnssec_error =
    DnssecWire wire_error
  | DnssecOsError int
  | DnssecInvalidData
  | UnsupportedDigest u8
  | UnsupportedAlgorithm u8

definition SIGNATURE_TIME_SKEW :: duration where "SIGNATURE_TIME_SKEW = from_secs (60 * 60)"
definition DNSKEY_FLAG_REVOKE :: u16 where "DNSKEY_FLAG_REVOKE = 128"
definition DNSKEY_FLAG_ZONE_KEY :: u16 where "DNSKEY_FLAG_ZONE_KEY = 256"

section \<open>Canonical names\<close>

function label_offsets_loop :: "bytes \<Rightarrow> nat \<Rightarrow> nat list \<Rightarrow> wire_error + nat list" where
  "label_offsets_loop name offset offsets =
     and_then (ok_or (get_at name offset) (InvalidName ''truncated canonical DNS name'')) (\<lambda>len.
     if unat len = 0 then
       if offset + 1 \<noteq> length name then Inl (InvalidName ''canonical DNS name has trailing data'') else Inr offsets
     else if unat len > 63 \<or> offset + 1 + unat len \<ge> length name then Inl (InvalidName ''invalid canonical DNS label'')
     else label_offsets_loop name (offset + (1 + unat len)) (offsets @ [offset]))"
  by pat_completeness auto

termination
  by (relation "measure (\<lambda>(name, offset, _). length name - offset)") (auto simp: slice_simps)

declare label_offsets_loop.simps [simp del]

definition label_offsets :: "bytes \<Rightarrow> wire_error + nat list" where
  "label_offsets name = label_offsets_loop name 0 []"

definition canonical_rr_owner :: "bytes \<Rightarrow> u8 \<Rightarrow> wire_error + bytes" where
  "canonical_rr_owner owner labels =
     and_then (label_offsets owner) (\<lambda>offsets.
     let label_count = length offsets;
         labels = unat labels
     in if labels > label_count then Inl InvalidRecord
        else
          let canonical = map ascii_lower owner in
          if labels = label_count then Inr canonical
          else if labels = 0 then Inr [1, 42, 0]
          else
            and_then (ok_or (get_range canonical (offsets ! (label_count - labels)) (length canonical)) InvalidRecord) (\<lambda>rest.
            Inr ([1, 42] @ rest)))"

section \<open>Canonical record data\<close>

definition canonical_single_name :: "bytes \<Rightarrow> resource_record \<Rightarrow> nat \<Rightarrow> wire_error + bytes" where
  "canonical_single_name packet r prefix =
     (if length (rr_rdata r) < prefix + 1 then Inl InvalidRecord
      else
        and_then (ok_or (usize_checked_add (rr_rdata_offset r) prefix) InvalidRecord) (\<lambda>name_offset.
        and_then (read_name packet name_offset) (\<lambda>(name, nxt).
        if nxt > rr_next_offset r then Inl InvalidRecord
        else
          and_then (ok_or (get_range packet nxt (rr_next_offset r)) InvalidRecord) (\<lambda>suffix.
          Inr (take prefix (rr_rdata r) @ dn_canonical_wire name @ suffix)))))"

definition canonical_two_names :: "bytes \<Rightarrow> resource_record \<Rightarrow> nat \<Rightarrow> wire_error + bytes" where
  "canonical_two_names packet r prefix =
     (if length (rr_rdata r) < prefix + 2 then Inl InvalidRecord
      else
        and_then (ok_or (usize_checked_add (rr_rdata_offset r) prefix) InvalidRecord) (\<lambda>first_offset.
        and_then (read_name packet first_offset) (\<lambda>(first, second_offset).
        and_then (read_name packet second_offset) (\<lambda>(second, stop).
        if stop \<noteq> rr_next_offset r then Inl InvalidRecord
        else Inr (take prefix (rr_rdata r) @ dn_canonical_wire first @ dn_canonical_wire second)))))"

definition canonical_soa :: "bytes \<Rightarrow> resource_record \<Rightarrow> wire_error + bytes" where
  "canonical_soa packet r =
     and_then (read_name packet (rr_rdata_offset r)) (\<lambda>(primary_name, mailbox_offset).
     and_then (read_name packet mailbox_offset) (\<lambda>(mailbox_name, integers_offset).
     and_then (ok_or (get_range packet integers_offset (rr_next_offset r)) InvalidRecord) (\<lambda>integers.
     if length integers \<noteq> 20 then Inl InvalidRecord
     else Inr (dn_canonical_wire primary_name @ dn_canonical_wire mailbox_name @ integers))))"

text \<open>The loop over the three character strings of a NAPTR record.\<close>

fun naptr_strings :: "bytes \<Rightarrow> nat \<Rightarrow> nat \<Rightarrow> nat \<Rightarrow> wire_error + nat" where
  "naptr_strings packet next_offset 0 offset = Inr offset"
| "naptr_strings packet next_offset (Suc n) offset =
     and_then (ok_or (get_at packet offset) InvalidRecord) (\<lambda>len.
     and_then (ok_or (usize_checked_add offset (1 + unat len)) InvalidRecord) (\<lambda>offset.
     if offset > next_offset then Inl InvalidRecord
     else naptr_strings packet next_offset n offset))"

definition canonical_naptr :: "bytes \<Rightarrow> resource_record \<Rightarrow> wire_error + bytes" where
  "canonical_naptr packet r =
     (if length (rr_rdata r) < 8 then Inl InvalidRecord
      else
        and_then (naptr_strings packet (rr_next_offset r) 3 (rr_rdata_offset r + 4)) (\<lambda>offset.
        and_then (read_name packet offset) (\<lambda>(replacement, stop).
        if stop \<noteq> rr_next_offset r then Inl InvalidRecord
        else
          and_then (ok_or (get_range packet (rr_rdata_offset r) offset) InvalidRecord) (\<lambda>prefix.
          Inr (prefix @ dn_canonical_wire replacement)))))"

definition canonical_rdata :: "bytes \<Rightarrow> resource_record \<Rightarrow> wire_error + bytes" where
  "canonical_rdata packet r =
     (if rr_rr_type r \<in> {2, 3, 4, 5, 7, 8, 9, 12, 23, 30, 39, 47} then canonical_single_name packet r 0
      else if rr_rr_type r = 6 then canonical_soa packet r
      else if rr_rr_type r \<in> {14, 17} then canonical_two_names packet r 0
      else if rr_rr_type r \<in> {15, 18, 21, 36, 64, 65, 107} then canonical_single_name packet r 2
      else if rr_rr_type r \<in> {24, 46} then canonical_single_name packet r 18
      else if rr_rr_type r = 26 then canonical_two_names packet r 2
      else if rr_rr_type r = 33 then canonical_single_name packet r 6
      else if rr_rr_type r = 35 then canonical_naptr packet r
      else Inr (rr_rdata r))"

section \<open>Signed data\<close>

definition rrsig_prefix :: "rrsig_record \<Rightarrow> bytes" where
  "rrsig_prefix s =
     u16_to_be (sig_type_covered s) @ [sig_algorithm s] @ [sig_labels s] @ u32_to_be (sig_original_ttl s) @
     u32_to_be (sig_expiration s) @ u32_to_be (sig_inception s) @ u16_to_be (sig_key_tag s) @
     dn_canonical_wire (sig_signer s)"

text \<open>The octets of one record in the signed data, given its canonical data.\<close>

definition signed_record :: "bytes \<Rightarrow> u16 \<Rightarrow> u16 \<Rightarrow> u32 \<Rightarrow> bytes \<Rightarrow> bytes" where
  "signed_record owner rr_type class original_ttl rdata =
     owner @ u16_to_be rr_type @ u16_to_be class @ u32_to_be original_ttl @ u16_to_be (of_nat (length rdata)) @ rdata"

definition canonical_record ::
  "bytes \<Rightarrow> rrsig_record \<Rightarrow> resource_record \<Rightarrow> bytes \<Rightarrow> resource_record \<Rightarrow> wire_error + bytes" where
  "canonical_record packet s first owner r =
     (if rr_rr_type r \<noteq> sig_type_covered s \<or> rr_class r \<noteq> rr_class first
         \<or> dn_canonical_wire (rr_name r) \<noteq> dn_canonical_wire (rr_name first)
      then Inl InvalidRecord
      else
        and_then (canonical_rdata packet r) (\<lambda>rdata.
        if length rdata > 65535 then Inl InvalidRecord
        else Inr (signed_record owner (rr_rr_type r) (rr_class r) (sig_original_ttl s) rdata)))"

definition canonical_signed_data :: "bytes \<Rightarrow> resource_record \<Rightarrow> resource_record list \<Rightarrow> dnssec_error + bytes" where
  "canonical_signed_data packet rrsig_rr rrset =
     map_err DnssecWire
       (and_then (parse_rrsig packet rrsig_rr) (\<lambda>s.
        if rrset = [] then Inl InvalidRecord
        else
          let first = rrset ! 0 in
          and_then (canonical_rr_owner (dn_canonical_wire (rr_name first)) (sig_labels s)) (\<lambda>owner.
          and_then (map_result (canonical_record packet s first owner) rrset) (\<lambda>canonical_records.
          Inr (rrsig_prefix s @ concat (remdups_adj (sort canonical_records)))))))"

definition rrsig_time_valid :: "rrsig_record \<Rightarrow> system_time \<Rightarrow> bool" where
  "rrsig_time_valid s now \<longleftrightarrow>
     (if now < 0 then False
      else
        let now = min (nat now div 1000000000) 4294967295;
            skew = SIGNATURE_TIME_SKEW div 1000000000;
            inception = unat (sig_inception s);
            expiration = unat (sig_expiration s)
        in inception \<le> now + skew \<and> expiration + skew \<ge> now)"

section \<open>Digests and signatures\<close>

text \<open>
  \<open>digest digest_type data capacity\<close> is what \<open>resolved_dnssec_digest\<close> returns and the content of its output
  buffer of that capacity; \<open>verify algorithm key data signature\<close> is what \<open>resolved_dnssec_verify\<close> returns.
\<close>

type_synonym digest_ffi = "u8 \<Rightarrow> bytes \<Rightarrow> nat \<Rightarrow> int \<times> bytes"
type_synonym verify_ffi = "u8 \<Rightarrow> bytes \<Rightarrow> bytes \<Rightarrow> bytes \<Rightarrow> int"

definition dnskey_ds_digest :: "digest_ffi \<Rightarrow> resource_record \<Rightarrow> u8 \<Rightarrow> dnssec_error + bytes" where
  "dnskey_ds_digest digest dnskey_rr digest_type =
     and_then (map_err DnssecWire (parse_dnskey dnskey_rr)) (\<lambda>_.
     and_then (if digest_type = 1 then Inr 20 else if digest_type = 2 then Inr 32 else if digest_type = 4 then Inr 48
               else Inl (UnsupportedDigest digest_type)) (\<lambda>output_length.
     case digest digest_type (dn_canonical_wire (rr_name dnskey_rr) @ rr_rdata dnskey_rr) output_length of
       (result, output) \<Rightarrow>
         if result < 0 then Inl (DnssecOsError (- result))
         else if nat result \<noteq> output_length then Inl DnssecInvalidData
         else Inr output))"

definition ds_matches_dnskey :: "digest_ffi \<Rightarrow> resource_record \<Rightarrow> resource_record \<Rightarrow> dnssec_error + bool" where
  "ds_matches_dnskey digest ds_rr dnskey_rr =
     and_then (map_err DnssecWire (parse_ds ds_rr)) (\<lambda>ds.
     and_then (map_err DnssecWire (parse_dnskey dnskey_rr)) (\<lambda>dnskey.
     if ds_algorithm ds \<noteq> dk_algorithm dnskey then Inr False
     else
       and_then (map_err DnssecWire (dnskey_key_tag dnskey_rr)) (\<lambda>tag.
       if ds_key_tag ds \<noteq> tag then Inr False
       else
         and_then (dnskey_ds_digest digest dnskey_rr (ds_digest_type ds)) (\<lambda>expected.
         Inr (ds_digest ds = expected)))))"

definition supported_algorithm :: "u8 \<Rightarrow> bool" where
  "supported_algorithm algorithm \<longleftrightarrow> algorithm \<in> {5, 7, 8, 10, 13, 14, 15}"

definition verify_signature :: "verify_ffi \<Rightarrow> u8 \<Rightarrow> bytes \<Rightarrow> bytes \<Rightarrow> bytes \<Rightarrow> dnssec_error + bool" where
  "verify_signature verify algorithm key data signature =
     (if \<not> supported_algorithm algorithm then Inl (UnsupportedAlgorithm algorithm)
      else
        let result = verify algorithm key data signature in
        if result = 1 then Inr True
        else if result = 0 then Inr False
        else if result < 0 then Inl (DnssecOsError (- result))
        else Inl DnssecInvalidData)"

section \<open>Lemmas: sorting and removing duplicates\<close>

lemma remdups_adj_sorted: "sorted xs \<Longrightarrow> sorted (remdups_adj xs) \<and> distinct (remdups_adj xs)"
proof (induction xs rule: remdups_adj.induct)
  case (3 x y xs)
  show ?case
  proof (cases "x = y")
    case False
    with 3 have "\<forall>z \<in> set (y # xs). x < z" by fastforce
    then have "\<forall>z \<in> set (remdups_adj (y # xs)). x < z" by simp
    with 3 False show ?thesis by (auto simp: less_imp_le)
  qed (use 3 in auto)
qed simp_all

lemma remdups_adj_sort_cong: "set xs = set ys \<Longrightarrow> remdups_adj (sort xs) = remdups_adj (sort ys)"
  using remdups_adj_sorted [of "sort xs"] remdups_adj_sorted [of "sort ys"] by (intro sorted_distinct_set_unique) auto

lemma sort_map_key:
  assumes "\<And>x y. x \<in> set xs \<Longrightarrow> y \<in> set xs \<Longrightarrow> k x \<le> k y \<Longrightarrow> f x \<le> f y"
  shows "sort (map f xs) = map f (sort_key k xs)"
proof (rule properties_for_sort)
  show "mset (map f (sort_key k xs)) = mset (map f xs)" by simp
  have "sorted_wrt (\<lambda>x y. k x \<le> k y) (sort_key k xs)" using sorted_sort_key [of k xs] by (simp add: sorted_map)
  then have "sorted_wrt (\<lambda>x y. f x \<le> f y) (sort_key k xs)"
    by (rule sorted_wrt_mono_rel [rotated]) (auto intro: assms)
  then show "sorted (map f (sort_key k xs))" by (simp add: sorted_map)
qed

lemma append_less_append [simp]: "(p @ x < p @ y) \<longleftrightarrow> x < (y :: 'a :: linorder list)"
  by (induction p) auto

lemma append_le_append [simp]: "(p @ x \<le> p @ y) \<longleftrightarrow> x \<le> (y :: 'a :: linorder list)"
  by (simp add: le_less)

section \<open>Lemmas: signed data\<close>

lemma u16_to_be_less:
  assumes "unat v < unat w"
  shows "u16_to_be v @ x < u16_to_be w @ y"
proof -
  have b: "of_nat (n div 256) < (of_nat (m div 256) :: u8) \<or> n div 256 = m div 256 \<and> of_nat (n mod 256) < (of_nat (m mod 256) :: u8)"
    if "n < m" "m < 65536" for n m :: nat
  proof -
    have "m div 256 < 256" "n div 256 < 256" using that by (auto intro: less_mult_imp_div_less)
    then have u: "unat (of_nat (n div 256) :: u8) = n div 256" "unat (of_nat (m div 256) :: u8) = m div 256"
      "unat (of_nat (n mod 256) :: u8) = n mod 256" "unat (of_nat (m mod 256) :: u8) = m mod 256"
      by (auto intro!: unat_of_nat_u8)
    have "n div 256 \<le> m div 256" using that by (intro div_le_mono) simp
    moreover have "n mod 256 < m mod 256" if "n div 256 = m div 256"
      using \<open>n < m\<close> that by (metis div_mult_mod_eq nat_add_left_cancel_less)
    ultimately show ?thesis unfolding word_less_nat_alt u by linarith
  qed
  show ?thesis using b [OF assms] by (auto simp: u16_to_be_def)
qed

lemma signed_record_mono:
  assumes "length x \<le> 65535" "length y \<le> 65535" "(length x, x) \<le> (length y, y)"
  shows "signed_record owner t c ttl x \<le> signed_record owner t c ttl y"
proof -
  have u: "unat (of_nat (length x) :: u16) = length x" "unat (of_nat (length y) :: u16) = length y"
    using assms(1,2) by (auto intro!: unat_of_nat_u16)
  consider "length x < length y" | "length x = length y" "x \<le> y"
    using assms(3) by (cases "length x = length y") (auto simp: less_eq_prod_def)
  then show ?thesis
  proof cases
    case 1
    then have "u16_to_be (of_nat (length x)) @ x < u16_to_be (of_nat (length y)) @ y"
      using u by (intro u16_to_be_less) simp
    then show ?thesis by (simp add: signed_record_def less_imp_le)
  next
    case 2
    then show ?thesis by (simp add: signed_record_def)
  qed
qed

lemma signed_record_inj: "inj (signed_record owner t c ttl)"
  by (rule injI) (simp add: signed_record_def)

lemma canonical_signed_data_eq_Inr:
  "canonical_signed_data p sr rrset = Inr d \<longleftrightarrow>
     (\<exists>s owner recs. parse_rrsig p sr = Inr s \<and> rrset \<noteq> [] \<and>
        canonical_rr_owner (dn_canonical_wire (rr_name (rrset ! 0))) (sig_labels s) = Inr owner \<and>
        map_result (canonical_record p s (rrset ! 0) owner) rrset = Inr recs \<and>
        d = rrsig_prefix s @ concat (remdups_adj (sort recs)))"
  by (auto simp: canonical_signed_data_def result_simps Let_def)

lemma canonical_record_eq_Inr:
  "canonical_record p s first owner r = Inr bs \<longleftrightarrow>
     rr_rr_type r = sig_type_covered s \<and> rr_class r = rr_class first \<and>
     dn_canonical_wire (rr_name r) = dn_canonical_wire (rr_name first) \<and>
     (\<exists>rdata. canonical_rdata p r = Inr rdata \<and> length rdata \<le> 65535 \<and>
        bs = signed_record owner (sig_type_covered s) (rr_class first) (sig_original_ttl s) rdata)"
  by (auto simp: canonical_record_def result_simps)

lemma map_result_set: "map_result f xs = Inr ys \<Longrightarrow> set ys = {y. \<exists>x \<in> set xs. f x = Inr y}"
  by (induction xs arbitrary: ys) (auto simp: result_simps)

lemma map_result_total: "(\<And>x. x \<in> set xs \<Longrightarrow> \<exists>y. f x = Inr y) \<Longrightarrow> \<exists>ys. map_result f xs = Inr ys"
  by (induction xs) fastforce+

text \<open>
  C0: The signed octets of an RRset depend on its records only: their order in the message and repeated
  records make no difference. If \<open>canonical_signed_data\<close> returns octets for a list of records, it returns
  the same octets for every list of the same records.
\<close>

theorem signed_data_order_irrelevant:
  assumes "canonical_signed_data p sr rrset = Inr d" "set rrset' = set rrset"
  shows "canonical_signed_data p sr rrset' = Inr d"
proof -
  obtain s owner recs where s: "parse_rrsig p sr = Inr s" and ne: "rrset \<noteq> []"
    and owner: "canonical_rr_owner (dn_canonical_wire (rr_name (rrset ! 0))) (sig_labels s) = Inr owner"
    and recs: "map_result (canonical_record p s (rrset ! 0) owner) rrset = Inr recs"
    and d: "d = rrsig_prefix s @ concat (remdups_adj (sort recs))"
    using assms(1) by (auto simp: canonical_signed_data_eq_Inr)
  let ?f = "canonical_record p s (rrset ! 0) owner"
  have all: "\<exists>y. ?f x = Inr y" if "x \<in> set rrset" for x
    using recs that unfolding map_result_Inr_iff by (auto simp: list_all2_conv_all_nth in_set_conv_nth)
  have ne': "rrset' \<noteq> []" using ne assms(2) by auto
  then have "rrset' ! 0 \<in> set rrset" using assms(2) by (metis length_greater_0_conv nth_mem)
  with all obtain y where "?f (rrset' ! 0) = Inr y" by blast
  then have first: "rr_class (rrset' ! 0) = rr_class (rrset ! 0)"
    "dn_canonical_wire (rr_name (rrset' ! 0)) = dn_canonical_wire (rr_name (rrset ! 0))"
    by (simp_all add: canonical_record_eq_Inr)
  then have f: "canonical_record p s (rrset' ! 0) owner = ?f" by (intro ext) (simp add: canonical_record_def)
  obtain recs' where recs': "map_result ?f rrset' = Inr recs'" using map_result_total [of rrset' ?f] all assms(2) by blast
  have "set recs' = set recs" using map_result_set [OF recs] map_result_set [OF recs'] assms(2) by simp
  then have "remdups_adj (sort recs') = remdups_adj (sort recs)" by (rule remdups_adj_sort_cong)
  then show ?thesis using s ne' owner first f recs' d by (auto simp: canonical_signed_data_eq_Inr)
qed

text \<open>
  C0: The signed octets against RFC 4034. Whenever \<open>canonical_signed_data\<close> returns octets, they are the
  fields of the signature and then the records, each under the canonical owner name and with the original
  TTL, without duplicates and sorted by the length of the canonical data and then by the data itself. RFC
  4034, section 6.3, sorts by the data alone; the two agree when all data has one length.
\<close>

theorem signed_data_layout:
  assumes "canonical_signed_data p sr rrset = Inr d"
  shows "\<exists>s owner rdatas. parse_rrsig p sr = Inr s \<and>
    canonical_rr_owner (dn_canonical_wire (rr_name (rrset ! 0))) (sig_labels s) = Inr owner \<and>
    map_result (canonical_rdata p) rrset = Inr rdatas \<and>
    (let fmt = signed_record owner (sig_type_covered s) (rr_class (rrset ! 0)) (sig_original_ttl s) in
     d = rrsig_prefix s @ concat (map fmt (remdups_adj (sort_key (\<lambda>x. (length x, x)) rdatas))) \<and>
     ((\<forall>x \<in> set rdatas. length x = n) \<longrightarrow> d = rrsig_prefix s @ concat (map fmt (remdups_adj (sort rdatas)))))"
proof -
  obtain s owner recs where s: "parse_rrsig p sr = Inr s"
    and owner: "canonical_rr_owner (dn_canonical_wire (rr_name (rrset ! 0))) (sig_labels s) = Inr owner"
    and recs: "map_result (canonical_record p s (rrset ! 0) owner) rrset = Inr recs"
    and d: "d = rrsig_prefix s @ concat (remdups_adj (sort recs))"
    using assms(1) by (auto simp: canonical_signed_data_eq_Inr)
  define fmt where "fmt = signed_record owner (sig_type_covered s) (rr_class (rrset ! 0)) (sig_original_ttl s)"
  have "\<exists>rdatas. map_result (canonical_rdata p) xs = Inr rdatas \<and> ys = map fmt rdatas \<and> (\<forall>x \<in> set rdatas. length x \<le> 65535)"
    if "map_result (canonical_record p s (rrset ! 0) owner) xs = Inr ys" for xs ys
    using that by (induction xs arbitrary: ys) (fastforce simp: result_simps canonical_record_eq_Inr fmt_def)+
  then obtain rdatas where rd: "map_result (canonical_rdata p) rrset = Inr rdatas" "recs = map fmt rdatas"
    "\<forall>x \<in> set rdatas. length x \<le> 65535"
    using recs by blast
  have inj: "inj fmt" unfolding fmt_def by (rule signed_record_inj)
  have "sort recs = map fmt (sort_key (\<lambda>x. (length x, x)) rdatas)"
    unfolding rd(2) using rd(3) by (intro sort_map_key) (auto simp: fmt_def intro: signed_record_mono)
  then have one: "d = rrsig_prefix s @ concat (map fmt (remdups_adj (sort_key (\<lambda>x. (length x, x)) rdatas)))"
    using d by (simp add: remdups_adj_map_injective [OF inj])
  have "d = rrsig_prefix s @ concat (map fmt (remdups_adj (sort rdatas)))" if "\<forall>x \<in> set rdatas. length x = n"
  proof -
    have "sort (map id rdatas) = map id (sort_key (\<lambda>x. (length x, x)) rdatas)"
      using that by (intro sort_map_key) (auto simp: less_eq_prod_def)
    with one show ?thesis by simp
  qed
  with one show ?thesis
    unfolding Let_def fmt_def by (intro exI [of _ s] exI [of _ owner] exI [of _ rdatas] conjI impI s owner rd(1)) simp_all
qed


section \<open>Examples\<close>

text \<open>An RRSIG record over TXT records at the root, and the octets of its data as the message.\<close>

definition ex_sig_packet :: bytes where
  "ex_sig_packet = [0, 16, 8, 0, 0, 0, 0, 60, 0, 0, 0, 9, 0, 0, 0, 1, 0, 7, 0, 99]"

definition ex_root_rr :: "u16 \<Rightarrow> bytes \<Rightarrow> resource_record" where
  "ex_root_rr t rdata = \<lparr>rr_name = \<lparr>dn_text = ''.'', dn_canonical_wire = [0]\<rparr>, rr_rr_type = t, rr_class = 1, rr_ttl = 60,
     rr_ttl_offset = 0, rr_rdata_offset = 0, rr_rdata = rdata, rr_next_offset = length rdata\<rparr>"

lemma ex_parse_rrsig:
  "parse_rrsig ex_sig_packet (ex_root_rr 46 ex_sig_packet) =
    Inr \<lparr>sig_type_covered = 16, sig_algorithm = 8, sig_labels = 0, sig_original_ttl = 60, sig_expiration = 9,
         sig_inception = 1, sig_key_tag = 7, sig_signer = \<lparr>dn_text = ''.'', dn_canonical_wire = [0]\<rparr>, sig_signature = [99]\<rparr>"
  by (simp add: parse_rrsig_def ex_root_rr_def ex_sig_packet_def codec_eval RRSIG_FIXED_FIELDS_LEN_def RRSIG_MINIMUM_RDATA_LEN_def)

lemma ex_rr_owner: "canonical_rr_owner [0] 0 = Inr [0]"
  by (simp add: canonical_rr_owner_def label_offsets_def label_offsets_loop.simps get_at_def Let_def ascii_lower_nat)

lemmas ex_signed_eval =
  ex_rr_owner Let_def ex_root_rr_def canonical_record_def canonical_rdata_def
  signed_record_def rrsig_prefix_def u16_to_be_def u32_to_be_def

text \<open>
  The order of the code is not that of RFC 4034 when the canonical data differs in length: of the data [1]
  and [0, 5] the code puts the shorter one first, the RFC the one with the smaller first octet.
\<close>

lemma signed_data_order_differs:
  "canonical_signed_data ex_sig_packet (ex_root_rr 46 ex_sig_packet) [ex_root_rr 16 [1], ex_root_rr 16 [0, 5]] =
     Inr ([0, 16, 8, 0, 0, 0, 0, 60, 0, 0, 0, 9, 0, 0, 0, 1, 0, 7, 0] @
          [0, 0, 16, 0, 1, 0, 0, 0, 60, 0, 1, 1] @ [0, 0, 16, 0, 1, 0, 0, 0, 60, 0, 2, 0, 5])"
  "map_result (canonical_rdata ex_sig_packet) [ex_root_rr 16 [1], ex_root_rr 16 [0, 5]] = Inr [[1], [0, 5]]"
  "sort [[1], [0, 5 :: u8]] = [[0, 5], [1]]"
  unfolding canonical_signed_data_def ex_parse_rrsig by (simp_all add: ex_signed_eval)

lemma ex_signed_data_equal:
  "canonical_signed_data ex_sig_packet (ex_root_rr 46 ex_sig_packet) [ex_root_rr 16 [3], ex_root_rr 16 [1]] =
     Inr ([0, 16, 8, 0, 0, 0, 0, 60, 0, 0, 0, 9, 0, 0, 0, 1, 0, 7, 0] @
          [0, 0, 16, 0, 1, 0, 0, 0, 60, 0, 1, 1] @ [0, 0, 16, 0, 1, 0, 0, 0, 60, 0, 1, 3])"
  unfolding canonical_signed_data_def ex_parse_rrsig by (simp add: ex_signed_eval)

theorem signed_data_order_irrelevant_witness:
  "canonical_signed_data ex_sig_packet (ex_root_rr 46 ex_sig_packet)
     [ex_root_rr 16 [0, 5], ex_root_rr 16 [1], ex_root_rr 16 [0, 5]] =
     Inr ([0, 16, 8, 0, 0, 0, 0, 60, 0, 0, 0, 9, 0, 0, 0, 1, 0, 7, 0] @
          [0, 0, 16, 0, 1, 0, 0, 0, 60, 0, 1, 1] @ [0, 0, 16, 0, 1, 0, 0, 0, 60, 0, 2, 0, 5])"
  by (rule signed_data_order_irrelevant [OF signed_data_order_differs(1)]) auto

theorem signed_data_layout_witness:
  "\<exists>s owner. parse_rrsig ex_sig_packet (ex_root_rr 46 ex_sig_packet) = Inr s \<and> canonical_rr_owner [0] 0 = Inr owner \<and>
    [0, 16, 8, 0, 0, 0, 0, 60, 0, 0, 0, 9, 0, 0, 0, 1, 0, 7, 0] @
      [0, 0, 16, 0, 1, 0, 0, 0, 60, 0, 1, 1] @ [0, 0, 16, 0, 1, 0, 0, 0, 60, 0, 1, 3] =
    rrsig_prefix s @ concat (map (signed_record owner 16 1 60) (remdups_adj (sort [[3], [1]])))"
proof -
  have rd: "map_result (canonical_rdata ex_sig_packet) [ex_root_rr 16 [3], ex_root_rr 16 [1]] = Inr [[3], [1]]"
    by (simp add: canonical_rdata_def ex_root_rr_def)
  have first: "dn_canonical_wire (rr_name (ex_root_rr 16 [3])) = [0]" "rr_class (ex_root_rr 16 [3]) = 1"
    by (simp_all add: ex_root_rr_def)
  show ?thesis
    using signed_data_layout [OF ex_signed_data_equal, of 1] unfolding rd ex_parse_rrsig
    by (clarsimp simp: Let_def first ex_rr_owner)
qed

end
