(* ===== verification/Trust_Anchors.thy ===== *)
theory Trust_Anchors
  imports Rust_Str "HOL-Library.AList"
begin

text \<open>
  RFC 5011 trust anchors (\<open>src/src/dnssec_rfc5011.rs\<close>): the state of every tracked key, what an
  authenticated DNSKEY RRset changes in it, and the timers. The hash map of the anchors is an association
  list without duplicate keys; the order in which the code iterates over it is an argument, and every
  property holds for each order. The properties: a key becomes trusted only by configuration or after it
  was seen throughout its hold-down, trust is lost exactly by an authenticated revocation, and a revoked
  key becomes trusted again only through a new hold-down.
\<close>

section \<open>Keys\<close>

type_synonym anchor_id = bytes

definition REVOKE_FLAG :: u16 where "REVOKE_FLAG = 128"
definition SEP_FLAG :: u16 where "SEP_FLAG = 1"
definition ZONE_FLAG :: u16 where "ZONE_FLAG = 256"
definition DEFAULT_ADD_HOLD_DOWN :: duration where "DEFAULT_ADD_HOLD_DOWN = from_secs (30 * 24 * 60 * 60)"
definition DEFAULT_REMOVE_HOLD_DOWN :: duration where "DEFAULT_REMOVE_HOLD_DOWN = from_secs (30 * 24 * 60 * 60)"
definition PERSISTENCE_VERSION :: u32 where "PERSISTENCE_VERSION = 1"

datatype trust_anchor_state = AddHoldDown | AnchorValid | AnchorMissing | Revoked | RemoveHoldDown

record observed_dnskey =
  od_owner :: string
  od_flags :: u16
  od_algorithm :: u8
  od_key_tag :: u16
  od_public_key :: bytes
  od_original_ttl :: u32
  od_authenticated_self_revocation :: bool

definition canonical_owner :: "string \<Rightarrow> string" where
  "canonical_owner owner =
     (let owner = to_ascii_lowercase (trim_end_dots (trim owner))
      in if owner = [] then ''.'' else owner @ ''.'')"

definition anchor_id :: "string \<Rightarrow> u16 \<Rightarrow> u8 \<Rightarrow> bytes \<Rightarrow> anchor_id" where
  "anchor_id owner flags algorithm public_key =
     as_bytes (canonical_owner owner) @ [0] @ u16_to_be (flags AND NOT REVOKE_FLAG) @ [algorithm] @ public_key"

definition key_anchor_id :: "observed_dnskey \<Rightarrow> anchor_id" where
  "key_anchor_id key = anchor_id (od_owner key) (od_flags key) (od_algorithm key) (od_public_key key)"

definition is_sep :: "observed_dnskey \<Rightarrow> bool" where
  "is_sep key \<longleftrightarrow> od_flags key AND (ZONE_FLAG OR SEP_FLAG) = (ZONE_FLAG OR SEP_FLAG)"

definition is_revoked :: "observed_dnskey \<Rightarrow> bool" where
  "is_revoked key \<longleftrightarrow> od_flags key AND REVOKE_FLAG \<noteq> 0"

section \<open>The manager\<close>

record trust_anchor_entry =
  ta_state :: trust_anchor_state
  ta_owner :: string
  ta_key_tag :: u16
  ta_flags :: u16
  ta_algorithm :: u8
  ta_public_key :: bytes
  ta_first_seen :: system_time
  ta_last_seen :: system_time
  ta_last_state_change :: system_time
  ta_add_hold_down_time :: duration
  ta_acceptance_validators :: "anchor_id list"

type_synonym anchors = "(anchor_id \<times> trust_anchor_entry) list"

definition entry_anchor_id :: "trust_anchor_entry \<Rightarrow> anchor_id" where
  "entry_anchor_id e = anchor_id (ta_owner e) (ta_flags e) (ta_algorithm e) (ta_public_key e)"

record trust_anchor_manager =
  tm_anchors :: anchors
  tm_minimum_add_hold_down :: duration
  tm_remove_hold_down :: duration

definition with_parameters :: "duration \<Rightarrow> duration \<Rightarrow> trust_anchor_manager" where
  "with_parameters minimum_add_hold_down remove_hold_down =
     \<lparr>tm_anchors = [], tm_minimum_add_hold_down = minimum_add_hold_down, tm_remove_hold_down = remove_hold_down\<rparr>"

definition manager_new :: trust_anchor_manager where
  "manager_new = with_parameters DEFAULT_ADD_HOLD_DOWN DEFAULT_REMOVE_HOLD_DOWN"

text \<open>
  The database on disk. Its file is read and written through a serialiser outside the source tree, which
  is an argument; \<open>data\<close> is the content of the file, \<open>None\<close> when there is no file.
\<close>

record persisted_anchors =
  pa_version :: u32
  pa_anchors :: anchors

datatype load_error = DeserializeFailed | UnsupportedVersion u32

definition load_from_disk ::
  "('d \<Rightarrow> persisted_anchors option) \<Rightarrow> 'd option \<Rightarrow> trust_anchor_manager \<Rightarrow> load_error + trust_anchor_manager" where
  "load_from_disk deserialize data m =
     (case data of
        None \<Rightarrow> Inr m
      | Some d \<Rightarrow>
          and_then (ok_or (deserialize d) DeserializeFailed) (\<lambda>persisted.
          if pa_version persisted \<noteq> PERSISTENCE_VERSION then Inl (UnsupportedVersion (pa_version persisted))
          else Inr (m\<lparr>tm_anchors := pa_anchors persisted\<rparr>)))"

definition save_to_disk :: "(persisted_anchors \<Rightarrow> 'd) \<Rightarrow> trust_anchor_manager \<Rightarrow> 'd" where
  "save_to_disk serialize m = serialize \<lparr>pa_version = PERSISTENCE_VERSION, pa_anchors = tm_anchors m\<rparr>"

section \<open>Observations\<close>

definition seed_valid_anchor :: "trust_anchor_manager \<Rightarrow> observed_dnskey \<Rightarrow> system_time \<Rightarrow> anchor_id \<times> trust_anchor_manager" where
  "seed_valid_anchor m key now =
     (key_anchor_id key,
      m\<lparr>tm_anchors := AList.update (key_anchor_id key)
          \<lparr>ta_state = AnchorValid, ta_owner = canonical_owner (od_owner key), ta_key_tag = od_key_tag key,
           ta_flags = od_flags key AND NOT REVOKE_FLAG, ta_algorithm = od_algorithm key,
           ta_public_key = od_public_key key, ta_first_seen = now, ta_last_seen = now, ta_last_state_change = now,
           ta_add_hold_down_time = tm_minimum_add_hold_down m, ta_acceptance_validators = []\<rparr>
          (tm_anchors m)\<rparr>)"

text \<open>\<open>now.duration_since(since).is_ok_and(|elapsed| elapsed >= d)\<close>.\<close>

definition elapsed_at_least :: "system_time \<Rightarrow> system_time \<Rightarrow> duration \<Rightarrow> bool" where
  "elapsed_at_least now since d \<longleftrightarrow> since \<le> now \<and> d \<le> nat (now - since)"

text \<open>
  The map from identities to observed keys, collected from the RRset: of two keys with one identity, which
  are the plain and the revoked form of a key, the later one stays.
\<close>

definition observed_keys :: "observed_dnskey list \<Rightarrow> anchor_id \<Rightarrow> observed_dnskey option" where
  "observed_keys keys = map_of (rev (map (\<lambda>key. (key_anchor_id key, key)) keys))"

definition validators_revoked :: "anchors \<Rightarrow> trust_anchor_entry \<Rightarrow> bool" where
  "validators_revoked anchors snapshot \<longleftrightarrow>
     ta_acceptance_validators snapshot \<noteq> [] \<and>
     list_all (\<lambda>validator. case map_of anchors validator of
                             Some e \<Rightarrow> ta_state e = Revoked \<or> ta_state e = RemoveHoldDown
                           | None \<Rightarrow> False)
       (ta_acceptance_validators snapshot)"

text \<open>
  What one turn of the loop over the tracked keys does with an entry: queue it for a reset of its addition,
  queue it for the purge of revoked keys, or leave it in the map, perhaps updated, with the flag that
  reports a change.
\<close>

datatype entry_turn = ResetAddition | PurgeRevoked | Kept trust_anchor_entry bool

definition observe_entry ::
  "anchors \<Rightarrow> duration \<Rightarrow> trust_anchor_entry \<Rightarrow> observed_dnskey option \<Rightarrow> system_time \<Rightarrow> entry_turn" where
  "observe_entry anchors remove_hold_down snapshot present now =
     (case ta_state snapshot of
        AddHoldDown \<Rightarrow>
          (case present of
             None \<Rightarrow> ResetAddition
           | Some key \<Rightarrow>
               if validators_revoked anchors snapshot then ResetAddition
               else if is_revoked key then ResetAddition
               else if elapsed_at_least now (ta_first_seen snapshot) (ta_add_hold_down_time snapshot) then
                 Kept (snapshot\<lparr>ta_last_seen := now, ta_state := AnchorValid, ta_last_state_change := now,
                                ta_acceptance_validators := []\<rparr>) True
               else Kept (snapshot\<lparr>ta_last_seen := now\<rparr>) False)
      | Revoked \<Rightarrow>
          if present = None then Kept (snapshot\<lparr>ta_state := RemoveHoldDown, ta_last_state_change := now\<rparr>) True
          else Kept (snapshot\<lparr>ta_last_seen := now\<rparr>) False
      | RemoveHoldDown \<Rightarrow>
          if present \<noteq> None then
            Kept (snapshot\<lparr>ta_state := Revoked, ta_last_seen := now, ta_last_state_change := now\<rparr>) True
          else if elapsed_at_least now (ta_last_state_change snapshot) remove_hold_down then PurgeRevoked
          else Kept snapshot False
      | _ \<Rightarrow>
          (case present of
             Some key \<Rightarrow>
               if is_revoked key \<and> od_authenticated_self_revocation key then
                 Kept (snapshot\<lparr>ta_state := Revoked, ta_flags := ta_flags snapshot OR REVOKE_FLAG,
                                ta_key_tag := od_key_tag key, ta_last_seen := now, ta_last_state_change := now\<rparr>) True
               else if \<not> is_revoked key then
                 if ta_state snapshot = AnchorMissing then
                   Kept (snapshot\<lparr>ta_last_seen := now, ta_state := AnchorValid, ta_last_state_change := now\<rparr>) True
                 else Kept (snapshot\<lparr>ta_last_seen := now\<rparr>) False
               else Kept snapshot False
           | None \<Rightarrow>
               if ta_state snapshot \<noteq> AnchorMissing then
                 Kept (snapshot\<lparr>ta_state := AnchorMissing, ta_last_state_change := now\<rparr>) True
               else Kept snapshot False))"

record observe_state =
  ob_anchors :: anchors
  ob_reset_additions :: "anchor_id list"
  ob_purge_revoked :: "anchor_id list"
  ob_changed :: bool

fun observe_tracked ::
  "(anchor_id \<Rightarrow> observed_dnskey option) \<Rightarrow> duration \<Rightarrow> system_time \<Rightarrow> anchor_id list \<Rightarrow> observe_state \<Rightarrow> observe_state" where
  "observe_tracked observed remove_hold_down now [] s = s"
| "observe_tracked observed remove_hold_down now (i # ids) s =
     observe_tracked observed remove_hold_down now ids
       (case map_of (ob_anchors s) i of
          None \<Rightarrow> s
        | Some snapshot \<Rightarrow>
            (case observe_entry (ob_anchors s) remove_hold_down snapshot (observed i) now of
               ResetAddition \<Rightarrow> s\<lparr>ob_reset_additions := ob_reset_additions s @ [i], ob_changed := True\<rparr>
             | PurgeRevoked \<Rightarrow> s\<lparr>ob_purge_revoked := ob_purge_revoked s @ [i], ob_changed := True\<rparr>
             | Kept e changed \<Rightarrow>
                 s\<lparr>ob_anchors := AList.update i e (ob_anchors s), ob_changed := ob_changed s \<or> changed\<rparr>))"

text \<open>The loop that starts the addition of the keys that are not tracked.\<close>

definition candidate_entry :: "duration \<Rightarrow> anchor_id list \<Rightarrow> system_time \<Rightarrow> observed_dnskey \<Rightarrow> trust_anchor_entry" where
  "candidate_entry minimum_add_hold_down validating_anchor_ids now key =
     \<lparr>ta_state = AddHoldDown, ta_owner = canonical_owner (od_owner key), ta_key_tag = od_key_tag key,
      ta_flags = od_flags key AND NOT REVOKE_FLAG, ta_algorithm = od_algorithm key,
      ta_public_key = od_public_key key, ta_first_seen = now, ta_last_seen = now, ta_last_state_change = now,
      ta_add_hold_down_time = max minimum_add_hold_down (from_secs (unat (od_original_ttl key))),
      ta_acceptance_validators = validating_anchor_ids\<rparr>"

fun add_candidates ::
  "duration \<Rightarrow> anchor_id list \<Rightarrow> system_time \<Rightarrow> observed_dnskey list \<Rightarrow> anchors \<times> bool \<Rightarrow> anchors \<times> bool" where
  "add_candidates minimum_add_hold_down validating_anchor_ids now [] s = s"
| "add_candidates minimum_add_hold_down validating_anchor_ids now (key # keys) (anchors, changed) =
     add_candidates minimum_add_hold_down validating_anchor_ids now keys
       (if map_of anchors (key_anchor_id key) \<noteq> None \<or> \<not> is_sep key \<or> is_revoked key then (anchors, changed)
        else (AList.update (key_anchor_id key) (candidate_entry minimum_add_hold_down validating_anchor_ids now key) anchors,
              True))"

text \<open>\<open>tracked_ids\<close> lists the keys of the map in its iteration order.\<close>

definition observe_validated_rrset ::
  "anchor_id list \<Rightarrow> trust_anchor_manager \<Rightarrow> observed_dnskey list \<Rightarrow> anchor_id list \<Rightarrow> system_time \<Rightarrow>
     bool \<times> trust_anchor_manager" where
  "observe_validated_rrset tracked_ids m keys validating_anchor_ids now =
     (let s = observe_tracked (observed_keys keys) (tm_remove_hold_down m) now tracked_ids
                \<lparr>ob_anchors = tm_anchors m, ob_reset_additions = [], ob_purge_revoked = [], ob_changed = False\<rparr>;
          anchors = fold AList.delete (ob_reset_additions s @ ob_purge_revoked s) (ob_anchors s);
          (anchors, changed) =
            (if validating_anchor_ids \<noteq> []
             then add_candidates (tm_minimum_add_hold_down m) validating_anchor_ids now keys (anchors, ob_changed s)
             else (anchors, ob_changed s))
      in (changed, m\<lparr>tm_anchors := anchors\<rparr>))"

definition process_timers :: "trust_anchor_manager \<Rightarrow> system_time \<Rightarrow> bool \<times> trust_anchor_manager" where
  "process_timers m now =
     (let anchors = filter (\<lambda>(_, e). \<not> (ta_state e = RemoveHoldDown
                                       \<and> elapsed_at_least now (ta_last_state_change e) (tm_remove_hold_down m)))
                      (tm_anchors m)
      in (length (tm_anchors m) \<noteq> length anchors, m\<lparr>tm_anchors := anchors\<rparr>))"

definition trusted_state :: "trust_anchor_state \<Rightarrow> bool" where
  "trusted_state s \<longleftrightarrow> s = AnchorValid \<or> s = AnchorMissing"

definition revoked_state :: "trust_anchor_state \<Rightarrow> bool" where
  "revoked_state s \<longleftrightarrow> s = Revoked \<or> s = RemoveHoldDown"

definition valid_anchors :: "trust_anchor_manager \<Rightarrow> trust_anchor_entry list" where
  "valid_anchors m = filter (\<lambda>e. trusted_state (ta_state e)) (map snd (tm_anchors m))"

definition revoked_anchor_ids :: "trust_anchor_manager \<Rightarrow> anchor_id list" where
  "revoked_anchor_ids m = map fst (filter (\<lambda>(_, e). revoked_state (ta_state e)) (tm_anchors m))"

definition manager_entry :: "trust_anchor_manager \<Rightarrow> anchor_id \<Rightarrow> trust_anchor_entry option" where
  "manager_entry m i = map_of (tm_anchors m) i"

section \<open>Identities\<close>

lemma canonical_owner_idem [simp]: "canonical_owner (canonical_owner owner) = canonical_owner owner"
proof -
  let ?t = "trim_end_dots (trim owner)"
  have none: "leading whitespace_chars ?t = None"
    using trim_end_dots_prefix [of "trim owner"] leading_trim [of owner] leading_prefix by metis
  show ?thesis
  proof (cases "?t = []")
    case True
    then have "canonical_owner owner = ''.''" by (simp add: canonical_owner_def)
    moreover have "canonical_owner ''.'' = ''.''" by code_simp
    ultimately show ?thesis by simp
  next
    case False
    let ?u = "to_ascii_lowercase ?t"
    have u: "?u \<noteq> []" "last ?u \<noteq> CHR ''.''" "leading whitespace_chars ?u = None"
      using False none trim_end_dots_last last_lowercase_dot leading_lowercase by auto
    then show ?thesis
      by (simp add: canonical_owner_def Let_def trim_dot trim_end_dots_dot)
  qed
qed

lemma mask_revoke_idem [simp]: "(flags AND NOT REVOKE_FLAG) AND NOT REVOKE_FLAG = (flags :: u16) AND NOT REVOKE_FLAG"
  by (simp add: and.assoc)

lemma mask_revoke_or [simp]: "(flags OR REVOKE_FLAG) AND NOT REVOKE_FLAG = (flags :: u16) AND NOT REVOKE_FLAG"
  by (simp add: bit.conj_disj_distrib2)

lemma masked_and_revoke [simp]: "(flags AND NOT REVOKE_FLAG) AND REVOKE_FLAG = (0 :: u16)"
  by (simp add: and.assoc)

lemma or_and_revoke [simp]: "(flags OR REVOKE_FLAG) AND REVOKE_FLAG \<noteq> (0 :: u16)"
  by (simp add: bit.conj_disj_distrib2 REVOKE_FLAG_def)

lemma anchor_id_canonical [simp]: "anchor_id (canonical_owner owner) flags alg key = anchor_id owner flags alg key"
  by (simp add: anchor_id_def)

lemma anchor_id_masked [simp]:
  "anchor_id owner (flags AND NOT REVOKE_FLAG) alg key = anchor_id owner flags alg key"
  "anchor_id owner (flags OR REVOKE_FLAG) alg key = anchor_id owner flags alg key"
  by (simp_all add: anchor_id_def)

lemma entry_id_candidate [simp]: "entry_anchor_id (candidate_entry d vals now key) = key_anchor_id key"
  by (simp add: entry_anchor_id_def candidate_entry_def key_anchor_id_def)

section \<open>The loops\<close>

fun turn_result :: "entry_turn \<Rightarrow> trust_anchor_entry option" where
  "turn_result (Kept e changed) = Some e"
| "turn_result _ = None"

lemma map_of_fold_delete: "map_of (fold AList.delete is al) i = (if i \<in> set is then None else map_of al i)"
  by (induction "is" arbitrary: al) (auto simp: delete_conv')

lemma observe_tracked_other:
  "i \<notin> set ids \<Longrightarrow>
   map_of (ob_anchors (observe_tracked observed rhd now ids s)) i = map_of (ob_anchors s) i \<and>
   (i \<in> set (ob_reset_additions (observe_tracked observed rhd now ids s)) \<longleftrightarrow> i \<in> set (ob_reset_additions s)) \<and>
   (i \<in> set (ob_purge_revoked (observe_tracked observed rhd now ids s)) \<longleftrightarrow> i \<in> set (ob_purge_revoked s))"
  by (induction ids arbitrary: s) (auto simp: update_conv' split: option.splits entry_turn.splits)

lemma observe_tracked_entry:
  assumes "distinct ids" "i \<notin> set (ob_reset_additions s)" "i \<notin> set (ob_purge_revoked s)"
    "i \<in> set ids \<or> map_of (ob_anchors s) i = None"
  obtains anchors where
    "map_of (fold AList.delete (ob_reset_additions (observe_tracked observed rhd now ids s) @
                                ob_purge_revoked (observe_tracked observed rhd now ids s))
       (ob_anchors (observe_tracked observed rhd now ids s))) i =
     Option.bind (map_of (ob_anchors s) i) (\<lambda>e. turn_result (observe_entry anchors rhd e (observed i) now))"
  using assms
proof (induction ids arbitrary: s thesis)
  case Nil
  then show ?case by (auto simp: map_of_fold_delete)
next
  case (Cons j ids)
  let ?s = "case map_of (ob_anchors s) j of
          None \<Rightarrow> s
        | Some snapshot \<Rightarrow>
            (case observe_entry (ob_anchors s) rhd snapshot (observed j) now of
               ResetAddition \<Rightarrow> s\<lparr>ob_reset_additions := ob_reset_additions s @ [j], ob_changed := True\<rparr>
             | PurgeRevoked \<Rightarrow> s\<lparr>ob_purge_revoked := ob_purge_revoked s @ [j], ob_changed := True\<rparr>
             | Kept e changed \<Rightarrow>
                 s\<lparr>ob_anchors := AList.update j e (ob_anchors s), ob_changed := ob_changed s \<or> changed\<rparr>)"
  show ?case
  proof (cases "i = j")
    case True
    with Cons.prems(2) have "i \<notin> set ids" by simp
    note other = observe_tracked_other [OF this, of observed rhd now ?s]
    show thesis
      using other Cons.prems(3,4) True
      by (intro Cons.prems(1) [of "ob_anchors s"])
        (auto simp: map_of_fold_delete update_conv' split: option.splits entry_turn.splits)
  next
    case False
    have same: "map_of (ob_anchors ?s) i = map_of (ob_anchors s) i"
      "i \<in> set (ob_reset_additions ?s) \<longleftrightarrow> i \<in> set (ob_reset_additions s)"
      "i \<in> set (ob_purge_revoked ?s) \<longleftrightarrow> i \<in> set (ob_purge_revoked s)"
      using False by (auto simp: update_conv' split: option.splits entry_turn.splits)
    show thesis
    proof (rule Cons.IH [of ?s])
      fix anchors
      assume "map_of (fold AList.delete (ob_reset_additions (observe_tracked observed rhd now ids ?s) @
                                ob_purge_revoked (observe_tracked observed rhd now ids ?s))
         (ob_anchors (observe_tracked observed rhd now ids ?s))) i =
        Option.bind (map_of (ob_anchors ?s) i) (\<lambda>e. turn_result (observe_entry anchors rhd e (observed i) now))"
      then show thesis
        by (intro Cons.prems(1) [of anchors]) (simp only: observe_tracked.simps same)
    qed (use Cons.prems same False in auto)
  qed
qed

definition candidate_of :: "anchor_id \<Rightarrow> observed_dnskey \<Rightarrow> bool" where
  "candidate_of i key \<longleftrightarrow> key_anchor_id key = i \<and> is_sep key \<and> \<not> is_revoked key"

lemma add_candidates_entry:
  "map_of (fst (add_candidates d vals now keys s)) i =
     (case map_of (fst s) i of
        Some e \<Rightarrow> Some e
      | None \<Rightarrow> map_option (candidate_entry d vals now) (find (candidate_of i) keys))"
proof (induction keys arbitrary: s)
  case (Cons key keys)
  obtain anchors changed where s: "s = (anchors, changed)" by fastforce
  show ?case
    by (auto simp: s Cons.IH update_conv' candidate_of_def split: option.splits)
qed (auto split: option.splits)

lemma distinct_fold_delete: "distinct (map fst al) \<Longrightarrow> distinct (map fst (fold AList.delete is al))"
  by (induction "is" arbitrary: al) (auto simp: distinct_delete)

lemma distinct_observe_tracked:
  "distinct (map fst (ob_anchors s)) \<Longrightarrow> distinct (map fst (ob_anchors (observe_tracked observed rhd now ids s)))"
  by (induction ids arbitrary: s) (auto simp: distinct_update split: option.splits entry_turn.splits)

lemma distinct_add_candidates:
  "distinct (map fst (fst s)) \<Longrightarrow> distinct (map fst (fst (add_candidates d vals now keys s)))"
proof (induction keys arbitrary: s)
  case (Cons key keys)
  obtain anchors changed where s: "s = (anchors, changed)" by fastforce
  show ?case using Cons.prems by (auto simp: s intro!: Cons.IH distinct_update)
qed simp

text \<open>The effect of an observation on one identity, for some state of the other anchors.\<close>

lemma observe_effect:
  assumes "distinct ids" "set ids = fst ` set (tm_anchors m)"
  obtains anchors where
    "manager_entry (snd (observe_validated_rrset ids m keys vals now)) i =
     (case Option.bind (manager_entry m i)
             (\<lambda>e. turn_result (observe_entry anchors (tm_remove_hold_down m) e (observed_keys keys i) now)) of
        Some e \<Rightarrow> Some e
      | None \<Rightarrow> if vals = [] then None
                else map_option (candidate_entry (tm_minimum_add_hold_down m) vals now) (find (candidate_of i) keys))"
proof -
  let ?start = "\<lparr>ob_anchors = tm_anchors m, ob_reset_additions = [], ob_purge_revoked = [], ob_changed = False\<rparr>"
  let ?s = "observe_tracked (observed_keys keys) (tm_remove_hold_down m) now ids ?start"
  have "i \<in> set ids \<or> map_of (ob_anchors ?start) i = None"
    using assms(2) by (auto simp: map_of_eq_None_iff)
  moreover have "i \<notin> set (ob_reset_additions ?start)" "i \<notin> set (ob_purge_revoked ?start)" by simp_all
  ultimately obtain anchors where *:
    "map_of (fold AList.delete (ob_reset_additions ?s @ ob_purge_revoked ?s) (ob_anchors ?s)) i =
     Option.bind (map_of (ob_anchors ?start) i) (\<lambda>e. turn_result (observe_entry anchors (tm_remove_hold_down m) e (observed_keys keys i) now))"
    by (elim observe_tracked_entry [OF assms(1), rotated 2])
  show thesis
    by (rule that [of anchors])
      (simp add: manager_entry_def observe_validated_rrset_def Let_def add_candidates_entry * split_beta del: fold_append
        split: option.splits)
qed

section \<open>Runs\<close>

datatype anchor_event =
    Seed observed_dnskey system_time
  | Observe "observed_dnskey list" "anchor_id list" system_time
  | Timers system_time

inductive anchor_step :: "trust_anchor_manager \<Rightarrow> anchor_event \<Rightarrow> trust_anchor_manager \<Rightarrow> bool" where
  seed: "anchor_step m (Seed key now) (snd (seed_valid_anchor m key now))"
| observe: "distinct ids \<Longrightarrow> set ids = fst ` set (tm_anchors m) \<Longrightarrow>
    anchor_step m (Observe keys vals now) (snd (observe_validated_rrset ids m keys vals now))"
| timers: "anchor_step m (Timers now) (snd (process_timers m now))"

inductive anchor_run :: "trust_anchor_manager \<Rightarrow> anchor_event list \<Rightarrow> trust_anchor_manager \<Rightarrow> bool" where
  start: "anchor_run m [] m"
| step: "anchor_run m events m' \<Longrightarrow> anchor_step m' event m'' \<Longrightarrow> anchor_run m (events @ [event]) m''"

inductive_cases anchor_step_cases: "anchor_step m event m'"

text \<open>Every entry is filed once, under its own identity, and carries the REVOKE flag exactly while it is revoked.\<close>

definition anchors_wf :: "trust_anchor_manager \<Rightarrow> bool" where
  "anchors_wf m \<longleftrightarrow> distinct (map fst (tm_anchors m)) \<and>
     (\<forall>i e. manager_entry m i = Some e \<longrightarrow>
        entry_anchor_id e = i \<and> (revoked_state (ta_state e) \<longleftrightarrow> ta_flags e AND REVOKE_FLAG \<noteq> 0))"

lemma REVOKE_FLAG_nonzero [simp]: "REVOKE_FLAG \<noteq> 0"
  by (simp add: REVOKE_FLAG_def)

lemmas turn_splits = trust_anchor_state.splits option.splits if_splits

lemma observe_entry_wf:
  assumes "observe_entry anchors rhd e present now = Kept e' c"
    "revoked_state (ta_state e) \<longleftrightarrow> ta_flags e AND REVOKE_FLAG \<noteq> 0"
  shows "entry_anchor_id e' = entry_anchor_id e \<and> (revoked_state (ta_state e') \<longleftrightarrow> ta_flags e' AND REVOKE_FLAG \<noteq> 0)"
  using assms
  by (auto simp: observe_entry_def revoked_state_def entry_anchor_id_def split: turn_splits)

lemma manager_entry_seed:
  "manager_entry (snd (seed_valid_anchor m key now)) i =
     (if i = key_anchor_id key
      then Some \<lparr>ta_state = AnchorValid, ta_owner = canonical_owner (od_owner key), ta_key_tag = od_key_tag key,
           ta_flags = od_flags key AND NOT REVOKE_FLAG, ta_algorithm = od_algorithm key,
           ta_public_key = od_public_key key, ta_first_seen = now, ta_last_seen = now, ta_last_state_change = now,
           ta_add_hold_down_time = tm_minimum_add_hold_down m, ta_acceptance_validators = []\<rparr>
      else manager_entry m i)"
  by (simp add: manager_entry_def seed_valid_anchor_def update_conv')

lemma manager_entry_timers:
  assumes "distinct (map fst (tm_anchors m))"
  shows "manager_entry (snd (process_timers m now)) i =
    (case manager_entry m i of
       None \<Rightarrow> None
     | Some e \<Rightarrow> if ta_state e = RemoveHoldDown \<and> elapsed_at_least now (ta_last_state_change e) (tm_remove_hold_down m)
                 then None else Some e)"
proof -
  have "map_of (filter (\<lambda>(k, e). P e) al) i = (case map_of al i of None \<Rightarrow> None | Some e \<Rightarrow> if P e then Some e else None)"
    if "distinct (map fst al)" for P and al :: anchors
    using that by (induction al) (auto split: option.splits simp: map_of_eq_None_iff image_iff)
  from this [OF assms] show ?thesis
    by (auto simp: manager_entry_def process_timers_def Let_def split: option.splits)
qed

lemma anchor_step_frame:
  assumes "anchor_step m event m'"
  shows "tm_minimum_add_hold_down m' = tm_minimum_add_hold_down m" "tm_remove_hold_down m' = tm_remove_hold_down m"
  using assms
  by (auto elim!: anchor_step_cases
      simp: seed_valid_anchor_def observe_validated_rrset_def process_timers_def Let_def split: prod.splits)

lemma anchor_step_distinct:
  assumes "anchor_step m event m'" "distinct (map fst (tm_anchors m))"
  shows "distinct (map fst (tm_anchors m'))"
  using assms
proof (cases rule: anchor_step.cases)
  case (observe ids keys vals now)
  let ?s = "observe_tracked (observed_keys keys) (tm_remove_hold_down m) now ids
              \<lparr>ob_anchors = tm_anchors m, ob_reset_additions = [], ob_purge_revoked = [], ob_changed = False\<rparr>"
  let ?al = "fold AList.delete (ob_reset_additions ?s @ ob_purge_revoked ?s) (ob_anchors ?s)"
  have "distinct (map fst ?al)"
    using assms(2) by (intro distinct_fold_delete distinct_observe_tracked) simp
  with distinct_add_candidates [of "(?al, ob_changed ?s)" "tm_minimum_add_hold_down m" vals now keys]
  show ?thesis
    unfolding observe by (simp add: observe_validated_rrset_def Let_def split_beta del: fold_append)
qed (auto simp: seed_valid_anchor_def process_timers_def Let_def intro!: distinct_update distinct_map_filter)

lemma candidate_wf: "revoked_state (ta_state (candidate_entry d vals now key)) \<longleftrightarrow> ta_flags (candidate_entry d vals now key) AND REVOKE_FLAG \<noteq> 0"
  by (simp add: candidate_entry_def revoked_state_def)

lemma observe_cases:
  assumes "distinct ids" "set ids = fst ` set (tm_anchors m)"
    "manager_entry (snd (observe_validated_rrset ids m keys vals now)) i = Some e'"
  obtains (kept) e anchors c where "manager_entry m i = Some e"
      "observe_entry anchors (tm_remove_hold_down m) e (observed_keys keys i) now = Kept e' c"
    | (added) key where "vals \<noteq> []" "key \<in> set keys" "candidate_of i key"
      "e' = candidate_entry (tm_minimum_add_hold_down m) vals now key"
proof -
  obtain anchors where eff: "Some e' =
     (case Option.bind (manager_entry m i)
             (\<lambda>e. turn_result (observe_entry anchors (tm_remove_hold_down m) e (observed_keys keys i) now)) of
        Some e \<Rightarrow> Some e
      | None \<Rightarrow> if vals = [] then None
                else map_option (candidate_entry (tm_minimum_add_hold_down m) vals now) (find (candidate_of i) keys))"
    using observe_effect [OF assms(1,2), of keys vals now i] assms(3) by metis
  show thesis
  proof (cases "Option.bind (manager_entry m i)
             (\<lambda>e. turn_result (observe_entry anchors (tm_remove_hold_down m) e (observed_keys keys i) now))")
    case None
    with eff obtain key where "find (candidate_of i) keys = Some key" "vals \<noteq> []"
        "e' = candidate_entry (tm_minimum_add_hold_down m) vals now key"
      by (cases "find (candidate_of i) keys") (auto split: if_splits)
    then show thesis by (intro added [of key]) (auto simp: find_Some_iff)
  next
    case (Some x)
    with eff have "x = e'" by simp
    with Some obtain e c where "manager_entry m i = Some e"
        "observe_entry anchors (tm_remove_hold_down m) e (observed_keys keys i) now = Kept e' c"
      by (auto simp: bind_eq_Some_conv elim: turn_result.elims)
    then show thesis by (rule kept)
  qed
qed

lemma anchor_step_wf:
  assumes "anchor_step m event m'" "anchors_wf m"
  shows "anchors_wf m'"
proof -
  have dist: "distinct (map fst (tm_anchors m))" using assms(2) by (simp add: anchors_wf_def)
  have wf: "entry_anchor_id e = i \<and> (revoked_state (ta_state e) \<longleftrightarrow> ta_flags e AND REVOKE_FLAG \<noteq> 0)"
    if "manager_entry m i = Some e" for i e
    using assms(2) that by (simp add: anchors_wf_def)
  have "entry_anchor_id e' = i \<and> (revoked_state (ta_state e') \<longleftrightarrow> ta_flags e' AND REVOKE_FLAG \<noteq> 0)"
    if e': "manager_entry m' i = Some e'" for i e'
    using assms(1)
  proof (cases rule: anchor_step.cases)
    case (seed key now)
    then show ?thesis
      using e' wf by (auto simp: manager_entry_seed entry_anchor_id_def key_anchor_id_def revoked_state_def split: if_splits)
  next
    case (observe ids keys vals now)
    from observe(3,4) e' show ?thesis
      unfolding observe(2)
    proof (cases rule: observe_cases)
      case (kept e anchors c)
      with observe_entry_wf wf show ?thesis by metis
    next
      case (added key)
      then show ?thesis by (simp add: candidate_of_def candidate_wf)
    qed
  next
    case (timers now)
    then show ?thesis using e' wf by (auto simp: manager_entry_timers [OF dist] split: option.splits if_splits)
  qed
  with anchor_step_distinct [OF assms(1) dist] show ?thesis by (simp add: anchors_wf_def)
qed

lemma anchor_run_wf: "anchor_run m events m' \<Longrightarrow> anchors_wf m \<Longrightarrow> anchors_wf m'"
  by (induction rule: anchor_run.induct) (auto intro: anchor_step_wf)

lemma anchor_run_frame: "anchor_run m events m' \<Longrightarrow> tm_minimum_add_hold_down m' = tm_minimum_add_hold_down m"
  by (induction rule: anchor_run.induct) (auto dest: anchor_step_frame)

section \<open>How trust is earned and lost\<close>

text \<open>An RRset shows the key of an identity in its plain form.\<close>

definition seen_plain :: "anchor_id \<Rightarrow> observed_dnskey list \<Rightarrow> bool" where
  "seen_plain i keys \<longleftrightarrow> (case observed_keys keys i of None \<Rightarrow> False | Some key \<Rightarrow> \<not> is_revoked key)"

fun sighted :: "anchor_id \<Rightarrow> anchor_event \<Rightarrow> bool" where
  "sighted i (Observe keys vals now) = seen_plain i keys"
| "sighted i _ = True"

text \<open>
  The hold-down of an identity in a history: an authenticated RRset introduces the key, every RRset after
  that shows it, and one that shows it comes at least the hold-down time later.
\<close>

definition held_down :: "anchor_id \<Rightarrow> duration \<Rightarrow> anchor_event list \<Rightarrow> bool" where
  "held_down i d events \<longleftrightarrow>
     (\<exists>pre keys vals t mid keys' vals' t' post key.
        events = pre @ Observe keys vals t # mid @ Observe keys' vals' t' # post \<and>
        vals \<noteq> [] \<and> key \<in> set keys \<and> candidate_of i key \<and>
        elapsed_at_least t' t (max d (from_secs (unat (od_original_ttl key)))) \<and>
        list_all (sighted i) mid \<and> seen_plain i keys')"

definition configured :: "anchor_id \<Rightarrow> anchor_event list \<Rightarrow> bool" where
  "configured i events \<longleftrightarrow> (\<exists>key now. Seed key now \<in> set events \<and> key_anchor_id key = i)"

definition pending :: "anchor_id \<Rightarrow> duration \<Rightarrow> anchor_event list \<Rightarrow> trust_anchor_entry \<Rightarrow> bool" where
  "pending i d events e \<longleftrightarrow>
     (\<exists>pre keys vals mid key.
        events = pre @ Observe keys vals (ta_first_seen e) # mid \<and>
        vals \<noteq> [] \<and> key \<in> set keys \<and> candidate_of i key \<and>
        ta_add_hold_down_time e = max d (from_secs (unat (od_original_ttl key))) \<and> list_all (sighted i) mid)"

definition trust_history :: "anchor_id \<Rightarrow> duration \<Rightarrow> anchor_event list \<Rightarrow> trust_anchor_entry \<Rightarrow> bool" where
  "trust_history i d events e \<longleftrightarrow>
     (ta_state e = AddHoldDown \<longrightarrow> pending i d events e) \<and>
     (trusted_state (ta_state e) \<longrightarrow> configured i events \<or> held_down i d events)"

lemma held_down_snoc: "held_down i d events \<Longrightarrow> held_down i d (events @ [event])"
  unfolding held_down_def by (elim exE) (intro exI, force)

lemma configured_snoc: "configured i events \<Longrightarrow> configured i (events @ [event])"
  unfolding configured_def by auto

lemma pending_snoc:
  assumes "pending i d events e" "sighted i event" "ta_first_seen e' = ta_first_seen e"
    "ta_add_hold_down_time e' = ta_add_hold_down_time e"
  shows "pending i d (events @ [event]) e'"
proof -
  obtain pre keys vals mid key where "events = pre @ Observe keys vals (ta_first_seen e) # mid" "vals \<noteq> []" "key \<in> set keys"
    "candidate_of i key" "ta_add_hold_down_time e = max d (from_secs (unat (od_original_ttl key)))" "list_all (sighted i) mid"
    using assms(1) by (auto simp: pending_def)
  with assms show ?thesis
    unfolding pending_def
    by (intro exI [of _ pre] exI [of _ keys] exI [of _ vals] exI [of _ "mid @ [event]"] exI [of _ key]) simp
qed

lemma pending_accept:
  assumes "pending i d events e" "elapsed_at_least now (ta_first_seen e) (ta_add_hold_down_time e)" "seen_plain i keys'"
  shows "held_down i d (events @ [Observe keys' vals' now])"
proof -
  obtain pre keys vals mid key where "events = pre @ Observe keys vals (ta_first_seen e) # mid" "vals \<noteq> []" "key \<in> set keys"
    "candidate_of i key" "ta_add_hold_down_time e = max d (from_secs (unat (od_original_ttl key)))" "list_all (sighted i) mid"
    using assms(1) by (auto simp: pending_def)
  with assms show ?thesis
    unfolding held_down_def
    by (intro exI [of _ pre] exI [of _ keys] exI [of _ vals] exI [of _ "ta_first_seen e"] exI [of _ mid] exI [of _ keys']
        exI [of _ vals'] exI [of _ now] exI [of _ "[]"] exI [of _ key]) simp
qed

lemma trust_history_same:
  assumes "trust_history i d events e" "sighted i event"
  shows "trust_history i d (events @ [event]) e"
  using assms held_down_snoc configured_snoc pending_snoc [OF _ assms(2), of d events e e]
  by (auto simp: trust_history_def)

lemma trust_history_observe:
  assumes "trust_history i d events e" "observe_entry anchors rhd e (observed_keys keys i) now = Kept e' c"
  shows "trust_history i d (events @ [Observe keys vals now]) e'"
proof (cases "ta_state e = AddHoldDown")
  case True
  with assms(2) obtain key where key: "observed_keys keys i = Some key" "\<not> is_revoked key"
    by (auto simp: observe_entry_def split: turn_splits)
  then have seen: "seen_plain i keys" by (simp add: seen_plain_def)
  have pend: "pending i d events e" using assms(1) True by (simp add: trust_history_def)
  show ?thesis
  proof (cases "elapsed_at_least now (ta_first_seen e) (ta_add_hold_down_time e)")
    case el: True
    with assms(2) True key have "ta_state e' = AnchorValid"
      by (auto simp: observe_entry_def split: turn_splits)
    with pending_accept [OF pend el seen] show ?thesis by (simp add: trust_history_def)
  next
    case False
    with assms(2) True key have "ta_state e' = AddHoldDown" "ta_first_seen e' = ta_first_seen e"
        "ta_add_hold_down_time e' = ta_add_hold_down_time e"
      by (auto simp: observe_entry_def split: turn_splits)
    with pending_snoc [OF pend] seen show ?thesis by (simp add: trust_history_def trusted_state_def)
  qed
next
  case False
  with assms(2) have "ta_state e' \<noteq> AddHoldDown" "trusted_state (ta_state e') \<Longrightarrow> trusted_state (ta_state e)"
    by (auto simp: observe_entry_def trusted_state_def split: turn_splits)
  with assms(1) False held_down_snoc configured_snoc show ?thesis by (auto simp: trust_history_def)
qed

lemma trust_history_added:
  assumes "vals \<noteq> []" "key \<in> set keys" "candidate_of i key"
  shows "trust_history i d (events @ [Observe keys vals now]) (candidate_entry d vals now key)"
  using assms
  by (fastforce simp: trust_history_def pending_def candidate_entry_def trusted_state_def)

lemma trust_history_run:
  assumes "anchor_run m events m'" "distinct (map fst (tm_anchors m))"
    "\<And>e. manager_entry m i = Some e \<Longrightarrow> revoked_state (ta_state e)"
  shows "distinct (map fst (tm_anchors m')) \<and> tm_minimum_add_hold_down m' = tm_minimum_add_hold_down m \<and>
    (\<forall>e. manager_entry m' i = Some e \<longrightarrow> trust_history i (tm_minimum_add_hold_down m) events e)"
  using assms
proof (induction rule: anchor_run.induct)
  case (start m)
  then show ?case by (fastforce simp: trust_history_def revoked_state_def trusted_state_def)
next
  case (step m events m' event m'')
  let ?d = "tm_minimum_add_hold_down m"
  have dist: "distinct (map fst (tm_anchors m'))" and d: "tm_minimum_add_hold_down m' = ?d"
    and hist: "\<And>e. manager_entry m' i = Some e \<Longrightarrow> trust_history i ?d events e"
    using step.IH step.prems by auto
  have "trust_history i ?d (events @ [event]) e''" if e'': "manager_entry m'' i = Some e''" for e''
    using step.hyps(2)
  proof (cases rule: anchor_step.cases)
    case (seed key now)
    have "configured i (events @ [Seed key now])" if "i = key_anchor_id key" using that by (auto simp: configured_def)
    moreover have "trust_history i ?d (events @ [Seed key now]) e''" if "manager_entry m' i = Some e''"
      using trust_history_same [OF hist [OF that]] by simp
    ultimately show ?thesis
      using e'' seed by (auto simp: manager_entry_seed trust_history_def trusted_state_def split: if_splits)
  next
    case (observe ids keys vals now)
    from observe(3,4) e'' show ?thesis
      unfolding observe(2)
    proof (cases rule: observe_cases)
      case (kept e anchors c)
      then show ?thesis unfolding observe(1) by (intro trust_history_observe [OF hist])
    next
      case (added key)
      then show ?thesis unfolding observe(1) using trust_history_added d by simp
    qed
  next
    case (timers now)
    with e'' have "manager_entry m' i = Some e''"
      by (auto simp: manager_entry_timers [OF dist] split: option.splits if_splits)
    with timers show ?thesis using trust_history_same [OF hist] by simp
  qed
  with anchor_step_distinct [OF step.hyps(2) dist] anchor_step_frame(1) [OF step.hyps(2)] d show ?case by simp
qed

fun revokes :: "anchor_id \<Rightarrow> anchor_event \<Rightarrow> bool" where
  "revokes i (Observe keys vals now) =
     (case observed_keys keys i of None \<Rightarrow> False | Some key \<Rightarrow> is_revoked key \<and> od_authenticated_self_revocation key)"
| "revokes i _ = False"

lemma mem_tm_anchors: "anchors_wf m \<Longrightarrow> (i, e) \<in> set (tm_anchors m) \<longleftrightarrow> manager_entry m i = Some e"
  by (simp add: anchors_wf_def manager_entry_def)

lemma anchors_wf_entry:
  "anchors_wf m \<Longrightarrow> manager_entry m i = Some e \<Longrightarrow>
   entry_anchor_id e = i \<and> (revoked_state (ta_state e) \<longleftrightarrow> ta_flags e AND REVOKE_FLAG \<noteq> 0)"
  by (simp add: anchors_wf_def)

lemma mem_valid_anchors:
  assumes "anchors_wf m"
  shows "e \<in> set (valid_anchors m) \<longleftrightarrow> manager_entry m (entry_anchor_id e) = Some e \<and> trusted_state (ta_state e)"
proof -
  have "e \<in> set (valid_anchors m) \<longleftrightarrow> (\<exists>i. (i, e) \<in> set (tm_anchors m)) \<and> trusted_state (ta_state e)"
    by (force simp: valid_anchors_def)
  also have "\<dots> \<longleftrightarrow> (\<exists>i. manager_entry m i = Some e) \<and> trusted_state (ta_state e)"
    by (simp only: mem_tm_anchors [OF assms])
  finally show ?thesis using anchors_wf_entry [OF assms] by blast
qed

lemma mem_revoked_anchor_ids:
  assumes "anchors_wf m"
  shows "i \<in> set (revoked_anchor_ids m) \<longleftrightarrow> (\<exists>e. manager_entry m i = Some e \<and> revoked_state (ta_state e))"
proof -
  have "i \<in> set (revoked_anchor_ids m) \<longleftrightarrow> (\<exists>e. (i, e) \<in> set (tm_anchors m) \<and> revoked_state (ta_state e))"
    by (force simp: revoked_anchor_ids_def)
  then show ?thesis by (simp only: mem_tm_anchors [OF assms])
qed

lemma anchors_wf_empty [simp]: "anchors_wf (with_parameters a r)"
  by (simp add: anchors_wf_def with_parameters_def manager_entry_def)

lemma observe_entry_trusted:
  assumes "trusted_state (ta_state e)"
  shows "\<exists>e' c. observe_entry anchors rhd e present now = Kept e' c \<and>
    (if (case present of None \<Rightarrow> False | Some key \<Rightarrow> is_revoked key \<and> od_authenticated_self_revocation key)
     then ta_state e' = Revoked else trusted_state (ta_state e'))"
  using assms
  by (cases present; cases "ta_state e") (auto simp: observe_entry_def trusted_state_def)

lemma observe_entry_revoked:
  assumes "revoked_state (ta_state e)"
  shows "(\<exists>e' c. observe_entry anchors rhd e present now = Kept e' c \<and> revoked_state (ta_state e')) \<or>
    (observe_entry anchors rhd e present now = PurgeRevoked \<and> present = None \<and> ta_state e = RemoveHoldDown \<and>
     elapsed_at_least now (ta_last_state_change e) rhd)"
  using assms
  by (cases present; cases "ta_state e") (auto simp: observe_entry_def revoked_state_def split: if_splits)

lemma observed_keys_None: "observed_keys keys i = None \<longleftrightarrow> (\<forall>key \<in> set keys. key_anchor_id key \<noteq> i)"
  by (force simp: observed_keys_def map_of_eq_None_iff)

lemma find_candidate_None: "observed_keys keys i = None \<Longrightarrow> find (candidate_of i) keys = None"
  by (auto simp: observed_keys_None find_None_iff candidate_of_def)

text \<open>
  C32: Well-formed databases. In every manager reached from an empty one, by seeding configured keys,
  applying authenticated RRsets and running the timers, each key is filed once and under its own identity,
  and it carries the REVOKE flag exactly while it counts as revoked; so \<open>valid_anchors\<close> never hands out a
  key whose flags say that it is revoked.
\<close>

theorem trust_anchors_well_formed:
  assumes "anchor_run (with_parameters a r) events m"
  shows "distinct (map fst (tm_anchors m)) \<and>
    (\<forall>(i, e) \<in> set (tm_anchors m). entry_anchor_id e = i \<and> (revoked_state (ta_state e) \<longleftrightarrow> ta_flags e AND REVOKE_FLAG \<noteq> 0)) \<and>
    (\<forall>e \<in> set (valid_anchors m). ta_flags e AND REVOKE_FLAG = 0 \<and> entry_anchor_id e \<notin> set (revoked_anchor_ids m))"
proof -
  have wf: "anchors_wf m" using anchor_run_wf [OF assms] by simp
  have "\<forall>(i, e) \<in> set (tm_anchors m). entry_anchor_id e = i \<and> (revoked_state (ta_state e) \<longleftrightarrow> ta_flags e AND REVOKE_FLAG \<noteq> 0)"
    using anchors_wf_entry [OF wf] by (auto simp only: mem_tm_anchors [OF wf])
  moreover have "ta_flags e AND REVOKE_FLAG = 0 \<and> entry_anchor_id e \<notin> set (revoked_anchor_ids m)"
    if "e \<in> set (valid_anchors m)" for e
  proof -
    have e: "manager_entry m (entry_anchor_id e) = Some e" "trusted_state (ta_state e)"
      using that by (simp_all only: mem_valid_anchors [OF wf])
    then have "\<not> revoked_state (ta_state e)" by (auto simp: trusted_state_def revoked_state_def)
    with anchors_wf_entry [OF wf e(1)] e(1) show ?thesis by (simp add: mem_revoked_anchor_ids [OF wf])
  qed
  ultimately show ?thesis using wf by (simp add: anchors_wf_def)
qed

text \<open>
  C29: How trust is earned. Start from any well-formed manager in which a key is untracked or revoked. If it
  is among the valid anchors after some events, then the events configured it as an anchor, or they hold a
  complete hold-down of it: an RRset authenticated by some anchor that shows the key as a plain secure
  entry point, an RRset that shows it at least the hold-down time later (the configured minimum and the
  original TTL of the key), and between the two no RRset that misses it or shows it revoked.
\<close>

theorem trust_earned_by_hold_down:
  assumes "anchors_wf m" "anchor_run m events m'"
    "case manager_entry m (entry_anchor_id e) of None \<Rightarrow> True | Some e0 \<Rightarrow> revoked_state (ta_state e0)"
    "e \<in> set (valid_anchors m')"
  shows "configured (entry_anchor_id e) events \<or> held_down (entry_anchor_id e) (tm_minimum_add_hold_down m) events"
proof -
  have "manager_entry m' (entry_anchor_id e) = Some e" "trusted_state (ta_state e)"
    using mem_valid_anchors [OF anchor_run_wf [OF assms(2,1)]] assms(4) by auto
  moreover have "distinct (map fst (tm_anchors m))" using assms(1) by (simp add: anchors_wf_def)
  moreover have "revoked_state (ta_state x)" if "manager_entry m (entry_anchor_id e) = Some x" for x
    using assms(3) that by simp
  ultimately show ?thesis
    using trust_history_run [OF assms(2), of "entry_anchor_id e"] by (auto simp: trust_history_def)
qed


text \<open>
  C31: Revocation lasts. After one event a revoked key is still among the revoked identities, unless the
  event configures it as an anchor again, or the key has been absent for the remove hold-down and is
  dropped; then it is untracked, and its trust would have to be earned from the start.
\<close>

theorem revocation_lasts:
  assumes "anchors_wf m" "anchor_step m event m'" "i \<in> set (revoked_anchor_ids m)" "\<not> configured i [event]"
  shows "i \<in> set (revoked_anchor_ids m') \<or>
    manager_entry m' i = None \<and>
    (\<exists>e now. manager_entry m i = Some e \<and> ta_state e = RemoveHoldDown \<and>
       (event = Timers now \<or> (\<exists>keys vals. event = Observe keys vals now \<and> observed_keys keys i = None)) \<and>
       elapsed_at_least now (ta_last_state_change e) (tm_remove_hold_down m))"
proof -
  obtain e where e: "manager_entry m i = Some e" "revoked_state (ta_state e)"
    using assms(3) mem_revoked_anchor_ids [OF assms(1)] by auto
  have dist: "distinct (map fst (tm_anchors m))" using assms(1) by (simp add: anchors_wf_def)
  have mem: "i \<in> set (revoked_anchor_ids m') \<longleftrightarrow> (\<exists>e. manager_entry m' i = Some e \<and> revoked_state (ta_state e))"
    by (rule mem_revoked_anchor_ids [OF anchor_step_wf [OF assms(2,1)]])
  show ?thesis
    using assms(2)
  proof (cases rule: anchor_step.cases)
    case (seed key now)
    then show ?thesis unfolding mem using assms(4) e by (auto simp: configured_def manager_entry_seed)
  next
    case (observe ids keys vals now)
    obtain anchors where eff: "manager_entry m' i =
       (case Option.bind (manager_entry m i)
             (\<lambda>e. turn_result (observe_entry anchors (tm_remove_hold_down m) e (observed_keys keys i) now)) of
          Some e \<Rightarrow> Some e
        | None \<Rightarrow> if vals = [] then None
                  else map_option (candidate_entry (tm_minimum_add_hold_down m) vals now) (find (candidate_of i) keys))"
      using observe_effect [OF observe(3,4), of keys vals now i] observe(2) by metis
    from observe_entry_revoked [OF e(2), of anchors "tm_remove_hold_down m" "observed_keys keys i" now]
    show ?thesis
      unfolding mem using eff e observe(1) by (auto simp: find_candidate_None)
  next
    case (timers now)
    then show ?thesis unfolding mem using e by (auto simp: manager_entry_timers [OF dist])
  qed
qed

section \<open>A rollover\<close>

definition ex_old :: observed_dnskey where
  "ex_old = \<lparr>od_owner = ''.'', od_flags = 257, od_algorithm = 8, od_key_tag = 1, od_public_key = [1],
             od_original_ttl = 0, od_authenticated_self_revocation = False\<rparr>"

definition ex_new :: observed_dnskey where
  "ex_new = \<lparr>od_owner = ''.'', od_flags = 257, od_algorithm = 8, od_key_tag = 2, od_public_key = [2],
             od_original_ttl = 0, od_authenticated_self_revocation = False\<rparr>"

definition ex_old_revoked :: observed_dnskey where
  "ex_old_revoked = \<lparr>od_owner = ''.'', od_flags = 385, od_algorithm = 8, od_key_tag = 129, od_public_key = [1],
             od_original_ttl = 0, od_authenticated_self_revocation = True\<rparr>"

abbreviation "ex_old_id \<equiv> key_anchor_id ex_old"
abbreviation "ex_new_id \<equiv> key_anchor_id ex_new"

definition ex_seeded :: trust_anchor_manager where
  "ex_seeded = snd (seed_valid_anchor (with_parameters 10 10) ex_old 0)"

definition ex_added :: trust_anchor_manager where
  "ex_added = snd (observe_validated_rrset [ex_old_id] ex_seeded [ex_old, ex_new] [ex_old_id] 5)"

definition ex_accepted :: trust_anchor_manager where
  "ex_accepted = snd (observe_validated_rrset [ex_old_id, ex_new_id] ex_added [ex_old, ex_new] [ex_old_id] 20)"

definition ex_events :: "anchor_event list" where
  "ex_events = [Seed ex_old 0, Observe [ex_old, ex_new] [ex_old_id] 5, Observe [ex_old, ex_new] [ex_old_id] 20]"

text \<open>The managers of the example, step by step.\<close>

definition ex_entry ::
  "observed_dnskey \<Rightarrow> trust_anchor_state \<Rightarrow> system_time \<Rightarrow> system_time \<Rightarrow> system_time \<Rightarrow> anchor_id list \<Rightarrow> trust_anchor_entry" where
  "ex_entry key st first last_time change vals =
     \<lparr>ta_state = st, ta_owner = ''.'', ta_key_tag = od_key_tag key, ta_flags = od_flags key, ta_algorithm = 8,
      ta_public_key = od_public_key key, ta_first_seen = first, ta_last_seen = last_time, ta_last_state_change = change,
      ta_add_hold_down_time = 10, ta_acceptance_validators = vals\<rparr>"

definition ex_manager :: "anchors \<Rightarrow> trust_anchor_manager" where
  "ex_manager al = \<lparr>tm_anchors = al, tm_minimum_add_hold_down = 10, tm_remove_hold_down = 10\<rparr>"

lemma canonical_owner_root: "canonical_owner ''.'' = ''.''"
  by code_simp

lemma ex_ids [simp]:
  "key_anchor_id ex_old = [46, 0, 1, 1, 8, 1]" "key_anchor_id ex_new = [46, 0, 1, 1, 8, 2]"
  "key_anchor_id ex_old_revoked = [46, 0, 1, 1, 8, 1]"
  by code_simp+

lemmas ex_eval = observe_validated_rrset_def observe_entry_def observed_keys_def validators_revoked_def
  elapsed_at_least_def candidate_entry_def is_sep_def is_revoked_def ex_entry_def ex_manager_def
  REVOKE_FLAG_def SEP_FLAG_def ZONE_FLAG_def canonical_owner_root from_secs_def Let_def

lemma ex_fields [simp]:
  "od_owner ex_old = ''.''" "od_flags ex_old = 257" "od_algorithm ex_old = 8" "od_key_tag ex_old = 1"
  "od_public_key ex_old = [1]" "od_original_ttl ex_old = 0"
  "od_owner ex_new = ''.''" "od_flags ex_new = 257" "od_algorithm ex_new = 8" "od_key_tag ex_new = 2"
  "od_public_key ex_new = [2]" "od_original_ttl ex_new = 0"
  "od_flags ex_old_revoked = 385" "od_key_tag ex_old_revoked = 129" "od_authenticated_self_revocation ex_old_revoked"
  by (simp_all add: ex_old_def ex_new_def ex_old_revoked_def)

lemma ex_seeded_eq: "ex_seeded = ex_manager [(ex_old_id, ex_entry ex_old AnchorValid 0 0 0 [])]"
  by (simp add: ex_seeded_def seed_valid_anchor_def with_parameters_def ex_eval)

lemma ex_added_eq:
  "ex_added = ex_manager [(ex_old_id, ex_entry ex_old AnchorValid 0 5 0 []), (ex_new_id, ex_entry ex_new AddHoldDown 5 5 5 [ex_old_id])]"
  unfolding ex_added_def ex_seeded_eq by (simp add: ex_eval)

lemma ex_accepted_eq:
  "ex_accepted = ex_manager [(ex_old_id, ex_entry ex_old AnchorValid 0 20 0 []), (ex_new_id, ex_entry ex_new AnchorValid 5 20 20 [])]"
  unfolding ex_accepted_def ex_added_eq by (simp add: ex_eval)

lemma ex_keys: "map fst (tm_anchors ex_seeded) = [ex_old_id]" "map fst (tm_anchors ex_added) = [ex_old_id, ex_new_id]"
  "map fst (tm_anchors ex_accepted) = [ex_old_id, ex_new_id]" "distinct [ex_old_id, ex_new_id]"
  by (simp_all add: ex_seeded_eq ex_added_eq ex_accepted_eq ex_manager_def)

lemma ex_accepted_valid: "map entry_anchor_id (valid_anchors ex_accepted) = [ex_old_id, ex_new_id]"
  by (simp add: ex_accepted_eq valid_anchors_def trusted_state_def ex_eval entry_anchor_id_def anchor_id_def u16_to_be_def byte_of_def)

lemma ex_run: "anchor_run (with_parameters 10 10) ex_events ex_accepted"
proof -
  have 1: "anchor_run (with_parameters 10 10) [Seed ex_old 0] ex_seeded"
    using anchor_run.step [OF anchor_run.start anchor_step.seed] by (simp add: ex_seeded_def)
  have "anchor_step ex_seeded (Observe [ex_old, ex_new] [ex_old_id] 5) ex_added"
    using ex_keys(1) unfolding ex_added_def by (intro anchor_step.observe) (simp_all flip: set_map)
  from anchor_run.step [OF 1 this] have 2: "anchor_run (with_parameters 10 10) [Seed ex_old 0, Observe [ex_old, ex_new] [ex_old_id] 5] ex_added"
    by simp
  have "anchor_step ex_added (Observe [ex_old, ex_new] [ex_old_id] 20) ex_accepted"
    using ex_keys(2,4) unfolding ex_accepted_def by (intro anchor_step.observe) (simp_all flip: set_map)
  from anchor_run.step [OF 2 this] show ?thesis by (simp add: ex_events_def)
qed

theorem trust_anchors_well_formed_witness:
  "anchor_run (with_parameters 10 10) ex_events ex_accepted \<and> distinct (map fst (tm_anchors ex_accepted)) \<and>
   valid_anchors ex_accepted \<noteq> []"
  using conjunct1 [OF trust_anchors_well_formed [OF ex_run]] ex_run ex_accepted_valid by (intro conjI) (simp, simp, force)

theorem trust_earned_by_hold_down_witness:
  "\<exists>e. e \<in> set (valid_anchors ex_accepted) \<and> entry_anchor_id e = ex_new_id \<and> \<not> configured ex_new_id ex_events \<and>
     held_down ex_new_id 10 ex_events"
proof -
  have "ex_new_id \<in> entry_anchor_id ` set (valid_anchors ex_accepted)"
    unfolding set_map [symmetric] ex_accepted_valid by simp
  then obtain e where e: "e \<in> set (valid_anchors ex_accepted)" "entry_anchor_id e = ex_new_id" by auto
  have "\<not> configured ex_new_id ex_events" using ex_keys(4) by (auto simp: configured_def ex_events_def)
  moreover have "configured ex_new_id ex_events \<or> held_down ex_new_id 10 ex_events"
    using trust_earned_by_hold_down [OF _ ex_run _ e(1)] e(2) by (simp add: manager_entry_def with_parameters_def anchors_wf_def)
  ultimately show ?thesis using e by blast
qed

definition ex_revoked :: trust_anchor_manager where
  "ex_revoked = snd (observe_validated_rrset [ex_old_id, ex_new_id] ex_accepted [ex_old_revoked, ex_new] [ex_new_id] 30)"

lemma ex_revoked_eq:
  "ex_revoked = ex_manager [(ex_old_id, (ex_entry ex_old Revoked 0 30 30 [])\<lparr>ta_flags := 385, ta_key_tag := 129\<rparr>),
     (ex_new_id, ex_entry ex_new AnchorValid 5 30 20 [])]"
  unfolding ex_revoked_def ex_accepted_eq by (simp add: ex_eval)

lemma ex_accepted_wf: "anchors_wf ex_accepted"
  using anchor_run_wf [OF ex_run] by simp

lemma ex_revoke_step: "anchor_step ex_accepted (Observe [ex_old_revoked, ex_new] [ex_new_id] 30) ex_revoked"
  using ex_keys(3,4) unfolding ex_revoked_def by (intro anchor_step.observe) (simp_all flip: set_map)


theorem revocation_lasts_witness:
  "ex_old_id \<in> set (revoked_anchor_ids ex_revoked) \<and> ex_old_id \<in> set (revoked_anchor_ids (snd (process_timers ex_revoked 99)))"
proof -
  have wf: "anchors_wf ex_revoked" by (rule anchor_step_wf [OF ex_revoke_step ex_accepted_wf])
  have mem: "ex_old_id \<in> set (revoked_anchor_ids ex_revoked)"
    by (simp add: ex_revoked_eq revoked_anchor_ids_def revoked_state_def ex_eval)
  have st: "map_option ta_state (manager_entry ex_revoked ex_old_id) = Some Revoked"
    by (simp add: ex_revoked_eq manager_entry_def ex_eval)
  have "\<not> configured ex_old_id [Timers 99]" by (simp add: configured_def)
  from revocation_lasts [OF wf anchor_step.timers mem this] st mem show ?thesis by auto
qed

text \<open>
  The map of the observed keys keeps one key per identity, and the plain and the revoked form of a key have
  the same identity. When an RRset lists the plain form after an authenticated revoked form, the revocation
  goes unseen and the key stays valid.
\<close>

lemma revocation_masked_by_plain_form:
  "map_option ta_state (manager_entry ex_seeded ex_old_id) = Some AnchorValid"
  "map_option ta_state (manager_entry (snd (observe_validated_rrset [ex_old_id] ex_seeded [ex_old, ex_old_revoked] [ex_new_id] 30)) ex_old_id)
     = Some Revoked"
  "map_option ta_state (manager_entry (snd (observe_validated_rrset [ex_old_id] ex_seeded [ex_old_revoked, ex_old] [ex_new_id] 30)) ex_old_id)
     = Some AnchorValid"
  unfolding ex_seeded_eq by (simp_all add: manager_entry_def ex_eval)

text \<open>
  Whether the revocation of the only validator of a candidate resets the candidate in the same observation
  depends on the iteration order of the hash map: the candidate is accepted when it comes first.
\<close>

lemma acceptance_depends_on_iteration_order:
  "map_option ta_state (manager_entry (snd (observe_validated_rrset [ex_old_id, ex_new_id] ex_added [ex_old_revoked, ex_new] [ex_old_id] 20))
     ex_new_id) = Some AddHoldDown"
  "map_option ta_state (manager_entry (snd (observe_validated_rrset [ex_new_id, ex_old_id] ex_added [ex_old_revoked, ex_new] [ex_old_id] 20))
     ex_new_id) = Some AnchorValid"
  unfolding ex_added_eq by (simp_all add: manager_entry_def ex_eval)

text \<open>The database survives a save and a load, for every serialiser that reads back what it wrote.\<close>

lemma save_load_round_trip:
  assumes "\<And>p. deserialize (serialize p) = Some p"
  shows "load_from_disk deserialize (Some (save_to_disk serialize m)) m' = Inr (m'\<lparr>tm_anchors := tm_anchors m\<rparr>)"
  by (simp add: load_from_disk_def save_to_disk_def assms)

end
