(* ===== verification/Anchor_Files.thy ===== *)
theory Anchor_Files
  imports Dnssec_Names Dnssec_Canonical Trust_Anchors "HOL-Library.Char_ord"
begin

text \<open>
  Trust anchors as text (\<open>src/src/dnssec_rfc5011_runtime.rs\<close>, \<open>src/src/resolver_dnssec.rs\<close>): the file of the
  managed anchors that is published for the validator, and the reader of positive and negative anchor
  files. Files are given by their content, unreadable ones by \<open>None\<close>. The properties: the validator reads
  back exactly the keys that were published, and a published file always sets the anchors of the root, so
  that the built-in ones do not come back.
\<close>

section \<open>Base64\<close>

definition BASE64_TABLE :: string where
  "BASE64_TABLE = ''ABCDEFGHIJKLMNOPQRSTUVWXYZabcdefghijklmnopqrstuvwxyz0123456789+/''"

definition base64_digit :: "u32 \<Rightarrow> nat \<Rightarrow> char" where
  "base64_digit word shift = BASE64_TABLE ! unat (drop_bit shift word AND 0x3f)"

definition base64_word :: "u8 \<Rightarrow> u8 \<Rightarrow> u8 \<Rightarrow> u32" where
  "base64_word first second third = push_bit 16 (ucast first) OR push_bit 8 (ucast second) OR ucast third"

fun base64_encode :: "bytes \<Rightarrow> string" where
  "base64_encode [] = []"
| "base64_encode [first] =
     (let word = base64_word first 0 0 in [base64_digit word 18, base64_digit word 12, CHR ''='', CHR ''=''])"
| "base64_encode [first, second] =
     (let word = base64_word first second 0 in
      [base64_digit word 18, base64_digit word 12, base64_digit word 6, CHR ''=''])"
| "base64_encode (first # second # third # input) =
     (let word = base64_word first second third in
      [base64_digit word 18, base64_digit word 12, base64_digit word 6, base64_digit word 0] @ base64_encode input)"

definition base64_value :: "u8 \<Rightarrow> u8 option" where
  "base64_value byte =
     (if 65 \<le> byte \<and> byte \<le> 90 then Some (byte - 65)
      else if 97 \<le> byte \<and> byte \<le> 122 then Some (byte - 97 + 26)
      else if 48 \<le> byte \<and> byte \<le> 57 then Some (byte - 48 + 52)
      else if byte = 43 then Some 62
      else if byte = 47 then Some 63
      else None)"

definition base64_of :: "char \<Rightarrow> u8 option" where
  "base64_of c = base64_value (byte_of c)"

text \<open>The octets of one group of four characters; \<open>final\<close> says that the group ends the text.\<close>

definition base64_group :: "bool \<Rightarrow> char \<Rightarrow> char \<Rightarrow> char \<Rightarrow> char \<Rightarrow> bytes option" where
  "base64_group final c0 c1 c2 c3 =
     (case base64_of c0 of None \<Rightarrow> None | Some first \<Rightarrow>
     (case base64_of c1 of None \<Rightarrow> None | Some second \<Rightarrow>
     (case (if c2 = CHR ''='' then
              if c3 \<noteq> CHR ''='' \<or> \<not> final \<or> second AND 0x0f \<noteq> 0 then None else Some None
            else map_option Some (base64_of c2)) of
        None \<Rightarrow> None
      | Some third \<Rightarrow>
     (case (if c3 = CHR ''='' then
              if \<not> final \<or> (case third of Some v \<Rightarrow> v AND 0x03 \<noteq> 0 | None \<Rightarrow> False) then None else Some None
            else map_option Some (base64_of c3)) of
        None \<Rightarrow> None
      | Some fourth \<Rightarrow>
          if third = None \<and> fourth \<noteq> None then None
          else
            Some ([push_bit 2 first OR drop_bit 4 second] @
                  (case third of
                     None \<Rightarrow> []
                   | Some third \<Rightarrow>
                       [push_bit 4 second OR drop_bit 2 third] @
                       (case fourth of None \<Rightarrow> [] | Some fourth \<Rightarrow> [push_bit 6 third OR fourth])))))))"

fun decode_base64_groups :: "string \<Rightarrow> bytes option" where
  "decode_base64_groups (c0 # c1 # c2 # c3 # input) =
     (case base64_group (input = []) c0 c1 c2 c3 of
        None \<Rightarrow> None
      | Some octets \<Rightarrow> map_option (\<lambda>rest. octets @ rest) (decode_base64_groups input))"
| "decode_base64_groups _ = Some []"

definition decode_base64 :: "string \<Rightarrow> bytes option" where
  "decode_base64 input = (if length input mod 4 \<noteq> 0 then None else decode_base64_groups input)"

section \<open>Publishing the managed anchors\<close>

record runtime_trust_anchor =
  rta_owner :: string
  rta_flags :: u16
  rta_algorithm :: u8
  rta_public_key :: bytes

record runtime_trust_state =
  rts_valid :: "runtime_trust_anchor list"
  rts_revoked_ids :: "anchor_id list"

definition FAIL_CLOSED_ROOT_DS :: string where
  "FAIL_CLOSED_ROOT_DS = ''. IN DS 0 253 2 0000000000000000000000000000000000000000000000000000000000000000''"

definition runtime_anchor :: "trust_anchor_entry \<Rightarrow> runtime_trust_anchor" where
  "runtime_anchor e =
     \<lparr>rta_owner = ta_owner e, rta_flags = ta_flags e AND NOT REVOKE_FLAG, rta_algorithm = ta_algorithm e,
      rta_public_key = ta_public_key e\<rparr>"

definition runtime_state :: "trust_anchor_manager \<Rightarrow> runtime_trust_state" where
  "runtime_state m =
     \<lparr>rts_valid = sort_key (\<lambda>a. (rta_owner a, rta_flags a, rta_algorithm a, rta_public_key a))
                    (map runtime_anchor (valid_anchors m)),
      rts_revoked_ids = sort (revoked_anchor_ids m)\<rparr>"

definition anchor_line :: "runtime_trust_anchor \<Rightarrow> string" where
  "anchor_line a =
     rta_owner a @ '' IN DNSKEY '' @ show_nat (unat (rta_flags a)) @ '' 3 '' @ show_nat (unat (rta_algorithm a)) @ '' '' @
     base64_encode (rta_public_key a)"

definition published_lines :: "trust_anchor_manager \<Rightarrow> string list" where
  "published_lines m =
     (let valid = rts_valid (runtime_state m);
          lines = map anchor_line valid;
          lines = (if \<not> list_ex (\<lambda>a. canonical_owner (rta_owner a) = ''.'') valid then lines @ [FAIL_CLOSED_ROOT_DS] else lines)
      in remdups_adj (sort lines))"

text \<open>The content of the file that \<open>publish_manager_anchors\<close> writes.\<close>

definition published_file :: "trust_anchor_manager \<Rightarrow> string" where
  "published_file m = concat (map (\<lambda>line. line @ [CHR 0x0a]) (published_lines m))"

section \<open>Reading anchor files\<close>

datatype positive_trust_anchor_data =
    AnchorDs u16 u8 u8 bytes
  | AnchorDnskey bytes

record positive_trust_anchor =
  pta_owner :: string
  pta_data :: positive_trust_anchor_data

fun strip_comment_loop :: "bool \<Rightarrow> string \<Rightarrow> string" where
  "strip_comment_loop escaped [] = []"
| "strip_comment_loop escaped (c # line) =
     (if escaped then c # strip_comment_loop False line
      else if c = CHR 0x5c then c # strip_comment_loop True line
      else if c = CHR ''#'' \<or> c = CHR '';'' then []
      else c # strip_comment_loop False line)"

definition strip_anchor_comment :: "string \<Rightarrow> string" where
  "strip_anchor_comment line = strip_comment_loop False line"

definition is_escaped_comment_trailer :: "string \<Rightarrow> bool" where
  "is_escaped_comment_trailer field \<longleftrightarrow>
     starts_with [CHR 0x5c, CHR ''#''] field \<or> starts_with [CHR 0x5c, CHR '';''] field"

definition to_ascii_uppercase :: "string \<Rightarrow> string" where
  "to_ascii_uppercase s =
     map (\<lambda>c. let b = unat (byte_of c) in if 97 \<le> b \<and> b \<le> 122 then char_of (b - 32) else c) s"

definition parse_u8 :: "string \<Rightarrow> u8 option" where
  "parse_u8 s = map_option of_nat (unsigned_from_str_radix 255 10 s)"

definition parse_u16 :: "string \<Rightarrow> u16 option" where
  "parse_u16 s = map_option of_nat (unsigned_from_str_radix 65535 10 s)"

definition dnssec_algorithm_names :: "(string \<times> u8) list" where
  "dnssec_algorithm_names =
     [(''RSAMD5'', 1), (''DH'', 2), (''DSA'', 3), (''ECC'', 4), (''RSASHA1'', 5), (''DSA-NSEC3-SHA1'', 6),
      (''RSASHA1-NSEC3-SHA1'', 7), (''RSASHA256'', 8), (''RSASHA512'', 10), (''ECC-GOST'', 12), (''ECDSAP256SHA256'', 13),
      (''ECDSAP384SHA384'', 14), (''ED25519'', 15), (''ED448'', 16), (''INDIRECT'', 252), (''PRIVATEDNS'', 253),
      (''PRIVATEOID'', 254)]"

definition parse_dnssec_algorithm :: "string \<Rightarrow> u8 option" where
  "parse_dnssec_algorithm s =
     (case parse_u8 s of Some n \<Rightarrow> Some n | None \<Rightarrow> map_of dnssec_algorithm_names (to_ascii_uppercase s))"

definition parse_dnssec_digest :: "string \<Rightarrow> u8 option" where
  "parse_dnssec_digest s =
     (case parse_u8 s of
        Some n \<Rightarrow> Some n
      | None \<Rightarrow>
          map_of [(''SHA1'', 1), (''SHA256'', 2), (''GOST'', 3), (''GOST-R-34.11-94'', 3), (''SHA384'', 4)] (to_ascii_uppercase s))"

fun decode_hex_pairs :: "string \<Rightarrow> bytes option" where
  "decode_hex_pairs (h # l # rest) =
     (case (to_digit 16 h, to_digit 16 l) of
        (Some high, Some low) \<Rightarrow> map_option ((#) (push_bit 4 (of_nat high) OR of_nat low)) (decode_hex_pairs rest)
      | _ \<Rightarrow> None)"
| "decode_hex_pairs _ = Some []"

definition decode_hex :: "string \<Rightarrow> bytes option" where
  "decode_hex s = (if length s mod 2 \<noteq> 0 then None else decode_hex_pairs s)"

text \<open>\<open>trim_matches\<close> with a quotation mark.\<close>

definition trim_quotes :: "string \<Rightarrow> string" where
  "trim_quotes s = rev (dropWhile (\<lambda>c. c = CHR 0x22) (rev (dropWhile (\<lambda>c. c = CHR 0x22) s)))"

definition anchor_field_count_ok :: "string list \<Rightarrow> bool" where
  "anchor_field_count_ok columns \<longleftrightarrow>
     length columns = 7 \<or> (case get_at columns 7 of Some field \<Rightarrow> is_escaped_comment_trailer field | None \<Rightarrow> False)"

definition parse_ds_anchor :: "string list \<Rightarrow> positive_trust_anchor_data option" where
  "parse_ds_anchor columns =
     (case parse_u16 (columns ! 3) of None \<Rightarrow> None | Some key_tag \<Rightarrow>
     (case parse_dnssec_algorithm (columns ! 4) of None \<Rightarrow> None | Some algorithm \<Rightarrow>
     (case parse_dnssec_digest (columns ! 5) of None \<Rightarrow> None | Some digest_type \<Rightarrow>
     (case decode_hex (trim_quotes (columns ! 6)) of None \<Rightarrow> None | Some digest \<Rightarrow>
        Some (AnchorDs key_tag algorithm digest_type digest)))))"

definition parse_dnskey_anchor :: "string list \<Rightarrow> positive_trust_anchor_data option" where
  "parse_dnskey_anchor columns =
     (case parse_u16 (columns ! 3) of None \<Rightarrow> None | Some flags \<Rightarrow>
     (case parse_u8 (columns ! 4) of None \<Rightarrow> None | Some protocol \<Rightarrow>
     (case parse_dnssec_algorithm (columns ! 5) of None \<Rightarrow> None | Some algorithm \<Rightarrow>
        if flags AND 0x0100 = 0 \<or> flags AND 0x0080 \<noteq> 0 \<or> protocol \<noteq> 3 then None
        else
          (case decode_base64 (trim_quotes (columns ! 6)) of
             None \<Rightarrow> None
           | Some public_key \<Rightarrow>
               if public_key = [] then None
               else Some (AnchorDnskey (u16_to_be flags @ [protocol] @ [algorithm] @ public_key))))))"

definition parse_positive_trust_anchor_line :: "string \<Rightarrow> positive_trust_anchor option" where
  "parse_positive_trust_anchor_line line =
     (let columns = split_whitespace (trim (strip_anchor_comment line)) in
      if length columns < 4 \<or> \<not> eq_ignore_ascii_case (columns ! 1) ''IN'' then None
      else
        let owner = normalize_dns_name (columns ! 0);
            data =
              (if eq_ignore_ascii_case (columns ! 2) ''DS'' then
                 if \<not> anchor_field_count_ok columns then None else parse_ds_anchor columns
               else if eq_ignore_ascii_case (columns ! 2) ''DNSKEY'' then
                 if \<not> anchor_field_count_ok columns then None else parse_dnskey_anchor columns
               else None)
        in map_option (\<lambda>data. \<lparr>pta_owner = owner, pta_data = data\<rparr>) data)"

text \<open>The built-in digests of the root keys; \<open>expect\<close> never fails on them.\<close>

definition builtin_root_trust_anchors :: "positive_trust_anchor list" where
  "builtin_root_trust_anchors =
     List.map_filter (\<lambda>(key_tag, digest).
        map_option (\<lambda>digest. \<lparr>pta_owner = ''.'', pta_data = AnchorDs key_tag 8 2 digest\<rparr>) (decode_hex digest))
       [(20326, ''E06D44B80B8F1D39A95C0B0D7C65D08458E880409BBC683457104237C7F8EC8D''),
        (38696, ''683D2D0ACB8C9B712A1948B27F741219298D0A450D612C483AF444A4C0FB2B16'')]"

text \<open>The loop over the files and their lines.\<close>

definition anchors_in_files :: "string option list \<Rightarrow> positive_trust_anchor list" where
  "anchors_in_files files =
     concat (map (\<lambda>contents. List.map_filter parse_positive_trust_anchor_line (lines contents)) (List.map_filter id files))"

definition load_positive_trust_anchors :: "string option list \<Rightarrow> positive_trust_anchor list" where
  "load_positive_trust_anchors files =
     (let output = anchors_in_files files
      in if \<not> list_ex (\<lambda>anchor. pta_owner anchor = ''.'') output then output @ builtin_root_trust_anchors else output)"

definition trust_anchor_matches_dnskey ::
  "digest_ffi \<Rightarrow> positive_trust_anchor \<Rightarrow> resource_record \<Rightarrow> dnssec_error + bool" where
  "trust_anchor_matches_dnskey digest_of anchor key =
     (case pta_data anchor of
        AnchorDs key_tag algorithm digest_type digest \<Rightarrow>
          and_then (map_err DnssecWire (parse_dnskey key)) (\<lambda>parsed.
          if dk_algorithm parsed \<noteq> algorithm then Inr False
          else
            and_then (map_err DnssecWire (dnskey_key_tag key)) (\<lambda>tag.
            if tag \<noteq> key_tag then Inr False
            else and_then (dnskey_ds_digest digest_of key digest_type) (\<lambda>d. Inr (d = digest))))
      | AnchorDnskey rdata \<Rightarrow> Inr (rr_rr_type key = TYPE_DNSKEY \<and> rr_rdata key = rdata))"

section \<open>Negative anchors\<close>

definition builtin_negative_trust_anchors :: "string list" where
  "builtin_negative_trust_anchors =
     [''test'', ''10.in-addr.arpa''] @ map (\<lambda>octet. show_nat octet @ ''.172.in-addr.arpa'') [16..<32] @
     [''168.192.in-addr.arpa'', ''d.f.ip6.arpa'', ''local'', ''home'', ''corp'', ''lan'', ''intranet'', ''internal'', ''private'',
      ''home.arpa'', ''resolver.arpa'', ''ipv4only.arpa'', ''170.0.0.192.in-addr.arpa'', ''171.0.0.192.in-addr.arpa'']"

definition negative_anchor_line :: "string \<Rightarrow> string option" where
  "negative_anchor_line line =
     (let name = trim (takeWhile (\<lambda>c. c \<noteq> CHR ''#'' \<and> c \<noteq> CHR '';'') line)
      in if name = [] then None else Some (normalize_dns_name name))"

definition load_negative_trust_anchors :: "string option list \<Rightarrow> string option list \<Rightarrow> string list" where
  "load_negative_trust_anchors negative_files positive_files =
     (let output = concat (map (\<lambda>contents. List.map_filter negative_anchor_line (lines contents))
                      (List.map_filter id negative_files))
      in if output = [] then
           let positive = load_positive_trust_anchors positive_files
           in filter (\<lambda>name. \<not> list_ex (\<lambda>anchor. dns_names_equal (pta_owner anchor) name) positive)
                builtin_negative_trust_anchors
         else output)"

fun negative_anchor_climb :: "string list \<Rightarrow> string list \<Rightarrow> positive_trust_anchor list \<Rightarrow> bool" where
  "negative_anchor_climb [] negative positive = False"
| "negative_anchor_climb (ancestor # ancestors) negative positive =
     (if list_ex (\<lambda>anchor. dns_names_equal anchor ancestor) negative then True
      else if list_ex (\<lambda>anchor. dns_names_equal (pta_owner anchor) ancestor) positive then False
      else negative_anchor_climb ancestors negative positive)"

definition negative_trust_anchor_matches :: "string \<Rightarrow> string list \<Rightarrow> positive_trust_anchor list \<Rightarrow> bool" where
  "negative_trust_anchor_matches name negative positive =
     negative_anchor_climb (rev (dns_name_ancestors name)) negative positive"

section \<open>Lemmas: Base64\<close>

text \<open>Text that passes through a line of an anchor file as one field.\<close>

definition field_char :: "char \<Rightarrow> bool" where
  "field_char c \<longleftrightarrow> 32 < unat (byte_of c) \<and> unat (byte_of c) < 128 \<and> c \<noteq> CHR ''#'' \<and> c \<noteq> CHR '';'' \<and> c \<noteq> CHR 0x22"

definition field_text :: "string \<Rightarrow> bool" where
  "field_text s \<longleftrightarrow> s \<noteq> [] \<and> list_all field_char s"


lemma base64_table_values:
  "\<forall>n \<in> set [0..<64]. base64_of (BASE64_TABLE ! n) = Some (of_nat n) \<and> BASE64_TABLE ! n \<noteq> CHR ''='' \<and>
     field_char (BASE64_TABLE ! n)"
  by code_simp

lemma base64_digit_index: "unat (drop_bit shift word AND (0x3f :: u32)) < 64"
proof -
  have "drop_bit shift word AND (0x3f :: u32) \<le> 0x3f" by (rule word_and_le1)
  then show ?thesis by (simp add: word_le_nat_alt)
qed

lemma base64_digit_facts:
  shows "base64_of (base64_digit word shift) = Some (ucast (drop_bit shift word AND 0x3f))"
    and "base64_digit word shift \<noteq> CHR ''=''"
    and "field_char (base64_digit word shift)"
proof -
  let ?n = "unat (drop_bit shift word AND (0x3f :: u32))"
  have "?n \<in> set [0..<64]" using base64_digit_index by simp
  note f = base64_table_values [rule_format, OF this]
  have "(of_nat ?n :: u8) = ucast (drop_bit shift word AND 0x3f)" by (rule of_nat_unat)
  with f show "base64_of (base64_digit word shift) = Some (ucast (drop_bit shift word AND 0x3f))"
    by (simp add: base64_digit_def)
  show "base64_digit word shift \<noteq> CHR ''=''" 
    "field_char (base64_digit word shift)"
    using f by (simp_all add: base64_digit_def)
qed

lemma u8_eqI:
  assumes "bit x 0 = bit y 0" "bit x 1 = bit y 1" "bit x 2 = bit y 2" "bit x 3 = bit y 3"
    "bit x 4 = bit y 4" "bit x 5 = bit y 5" "bit x 6 = bit y 6" "bit x 7 = bit y 7"
  shows "x = (y :: u8)"
proof (rule bit_word_eqI)
  fix n assume "n < LENGTH(8)"
  then have "n \<in> {0, 1, 2, 3, 4, 5, 6, 7}" by auto
  with assms show "bit x n = bit y n" by auto
qed

lemma bit_u8_high: "8 \<le> n \<Longrightarrow> \<not> bit (x :: u8) n"
  using bit_imp_le_length [of x n] by auto

lemma base64_masks: "(0x3f :: 'a::len word) = mask 6" "(0x0f :: 'b::len word) = mask 4" "(3 :: 'c::len word) = mask 2"
  by (simp_all add: mask_eq_exp_minus_1)

lemma base64_octets:
  fixes a b c :: u8
  shows "push_bit 2 (ucast (drop_bit 18 (base64_word a b c) AND 0x3f)) OR
           drop_bit 4 (ucast (drop_bit 12 (base64_word a b c) AND 0x3f)) = a"
    and "push_bit 4 (ucast (drop_bit 12 (base64_word a b c) AND 0x3f)) OR
           drop_bit 2 (ucast (drop_bit 6 (base64_word a b c) AND 0x3f)) = b"
    and "push_bit 6 (ucast (drop_bit 6 (base64_word a b c) AND 0x3f)) OR ucast (drop_bit 0 (base64_word a b c) AND 0x3f) = c"
    and "(ucast (drop_bit 12 (base64_word a 0 0) AND 0x3f) :: u8) AND 0x0f = 0"
    and "(ucast (drop_bit 6 (base64_word a b 0) AND 0x3f) :: u8) AND 0x03 = 0"
  unfolding base64_word_def base64_masks
  by (rule u8_eqI; simp add: bit_simps bit_u8_high)+

lemma base64_round_trip: "decode_base64_groups (base64_encode bs) = Some bs \<and> length (base64_encode bs) mod 4 = 0"
proof (induction bs rule: base64_encode.induct)
  case (4 first second third input)
  then show ?case
    by (simp add: Let_def base64_group_def base64_digit_facts base64_octets base64_octets(3) [simplified])
qed (simp_all add: Let_def base64_group_def base64_digit_facts base64_octets)

lemma decode_base64_encode [simp]: "decode_base64 (base64_encode bs) = Some bs"
  using base64_round_trip by (simp add: decode_base64_def)

lemma base64_field_text:
  assumes "bs \<noteq> []"
  shows "field_text (base64_encode bs)"
proof -
  have eq: "field_char (CHR ''='')" by code_simp
  have "list_all field_char (base64_encode bs)"
    by (induction bs rule: base64_encode.induct) (simp_all add: Let_def base64_digit_facts(3) eq)
  moreover have "base64_encode bs \<noteq> []" using assms by (cases bs rule: base64_encode.cases) (auto simp: Let_def)
  ultimately show ?thesis by (simp add: field_text_def)
qed

section \<open>Lemmas: numbers and fields\<close>

lemma digit_facts:
  assumes "n < 10"
  shows "to_digit 10 (char_of (48 + n)) = Some n" "field_text [char_of (48 + n)]" "char_of (48 + n) \<noteq> CHR ''+''"
proof -
  have "\<forall>n \<in> set [0..<10]. to_digit 10 (char_of (48 + n)) = Some n \<and> field_text [char_of (48 + n)] \<and> char_of (48 + n) \<noteq> CHR ''+''"
    by code_simp
  with assms show "to_digit 10 (char_of (48 + n)) = Some n" "field_text [char_of (48 + n)]" "char_of (48 + n) \<noteq> CHR ''+''"
    by auto
qed

lemma field_text_append: "field_text s \<Longrightarrow> field_text t \<Longrightarrow> field_text (s @ t)"
  by (simp add: field_text_def)

lemma digits_value_append:
  "digits_value limit radix acc (s @ t) = Option.bind (digits_value limit radix acc s) (\<lambda>v. digits_value limit radix v t)"
  by (induction s arbitrary: acc) (auto split: option.splits)

lemma show_nat_value: "n \<le> limit \<Longrightarrow> digits_value limit 10 0 (show_nat n) = Some n"
proof (induction n rule: show_nat.induct)
  case (1 n)
  show ?case
  proof (cases "n < 10")
    case False
    then have "digits_value limit 10 0 (show_nat (n div 10)) = Some (n div 10)" using 1 by simp
    then show ?thesis using False 1(2) by (simp add: show_nat.simps [of n] digits_value_append digit_facts)
  qed (use 1(2) in \<open>simp add: show_nat.simps [of n] digit_facts\<close>)
qed

lemma show_nat_text: "field_text (show_nat n) \<and> hd (show_nat n) \<noteq> CHR ''+''"
proof (induction n rule: show_nat.induct)
  case (1 n)
  show ?case
  proof (cases "n < 10")
    case False
    with 1 show ?thesis by (auto simp: show_nat.simps [of n] hd_append digit_facts field_text_append)
  qed (simp add: show_nat.simps [of n] digit_facts)
qed

lemma parse_show [simp]:
  "parse_u8 (show_nat (unat b)) = Some b" "parse_u16 (show_nat (unat w)) = Some w"
  "parse_dnssec_algorithm (show_nat (unat b)) = Some b"
proof -
  have r: "unsigned_from_str_radix limit 10 (show_nat n) = Some n" if "n \<le> limit" for n limit
    using show_nat_value [OF that] show_nat_text [of n]
    by (cases "show_nat n") (auto simp: unsigned_from_str_radix_def field_text_def Let_def)
  have "unat b \<le> 255" "unat w \<le> 65535" using unat_u8_le [of b] unat_u16_less [of w] by linarith+
  with r show "parse_u8 (show_nat (unat b)) = Some b" "parse_u16 (show_nat (unat w)) = Some w"
    by (simp_all add: parse_u8_def parse_u16_def)
  then show "parse_dnssec_algorithm (show_nat (unat b)) = Some b" by (simp add: parse_dnssec_algorithm_def)
qed


lemma field_text_plain: "field_text s \<Longrightarrow> plain_text s"
  by (simp add: field_text_def plain_text_def field_char_def list_all_iff)

lemma leading_field:
  assumes "list_all field_char s" "s \<noteq> []" "\<forall>w \<in> set ws. \<forall>c \<in> set w. \<not> (32 < unat (byte_of c) \<and> unat (byte_of c) < 128)"
  shows "leading ws (s @ t) = None"
  unfolding leading_eq_None
proof (intro ballI impI notI)
  fix w assume w: "w \<in> set ws" "w \<noteq> []" "take (length w) (s @ t) = w"
  obtain c s' where s: "s = c # s'" using assms(2) by (cases s) auto
  with w(2,3) have "c \<in> set w" by (cases w) auto
  moreover have "field_char c" using assms(1) s by simp
  ultimately show False using assms(3) w(1) by (auto simp: field_char_def)
qed

lemma ws_tokens_field:
  "list_all field_char s \<Longrightarrow> ws_tokens acc (s @ CHR '' '' # t) = (if acc @ s = [] then [] else [acc @ s]) @ ws_tokens [] t"
proof (induction s arbitrary: acc)
  case Nil
  have "leading whitespace_chars (CHR '' '' # t) = Some '' ''"
    by (simp add: leading_def whitespace_chars_def)
  then show ?case by (simp add: ws_tokens.simps [of acc])
next
  case (Cons c s)
  then have "leading whitespace_chars ((c # s) @ CHR '' '' # t) = None" by (intro leading_field whitespace_not_plain) simp_all
  then show ?case using Cons by (simp add: ws_tokens.simps [of acc])
qed

lemma ws_tokens_last: "list_all field_char s \<Longrightarrow> ws_tokens acc s = (if acc @ s = [] then [] else [acc @ s])"
proof (induction s arbitrary: acc)
  case Nil
  have "leading whitespace_chars [] = None" by code_simp
  then show ?case by (simp add: ws_tokens.simps [of acc])
next
  case (Cons c s)
  then have "leading whitespace_chars ((c # s) @ []) = None" by (intro leading_field whitespace_not_plain) simp_all
  then show ?case using Cons by (simp add: ws_tokens.simps [of acc])
qed

lemma split_whitespace_fields:
  "field_text s \<Longrightarrow> split_whitespace (s @ CHR '' '' # t) = s # split_whitespace t"
  "field_text s \<Longrightarrow> split_whitespace s = [s]"
  by (simp_all add: split_whitespace_def ws_tokens_field ws_tokens_last field_text_def)

lemma strip_anchor_comment_id: "CHR ''#'' \<notin> set s \<Longrightarrow> CHR '';'' \<notin> set s \<Longrightarrow> strip_anchor_comment s = s"
proof -
  have "strip_comment_loop e s = s" if "CHR ''#'' \<notin> set s" "CHR '';'' \<notin> set s" for e
    using that by (induction s arbitrary: e) auto
  then show "strip_anchor_comment s = s" if "CHR ''#'' \<notin> set s" "CHR '';'' \<notin> set s" using that by (simp add: strip_anchor_comment_def)
qed

lemma trim_fields:
  assumes "field_text s" "field_text u"
  shows "trim (s @ t @ u) = s @ t @ u"
proof -
  have "leading whitespace_chars (s @ t @ u) = None"
    using assms by (intro leading_field whitespace_not_plain) (simp_all add: field_text_def)
  moreover have "leading (map rev whitespace_chars) (rev u @ rev t @ rev s) = None"
    using assms whitespace_not_plain by (intro leading_field) (auto simp: field_text_def)
  ultimately show ?thesis by (simp add: trim_def trim_leading_None)
qed

lemma trim_quotes_field: "field_text s \<Longrightarrow> trim_quotes s = s"
proof -
  assume "field_text s"
  then have "hd s \<noteq> CHR 0x22" "last s \<noteq> CHR 0x22" "s \<noteq> []"
    using hd_in_set [of s] last_in_set [of s] by (auto simp: field_text_def list_all_iff field_char_def)
  then show ?thesis unfolding trim_quotes_def by (simp add: dropWhile_eq_self_iff [THEN iffD2] hd_rev)
qed

section \<open>Lemmas: lines and files\<close>

lemma anchor_line_fields:
  "anchor_line a = rta_owner a @ CHR '' '' # (''IN'' @ CHR '' '' # (''DNSKEY'' @ CHR '' '' # (show_nat (unat (rta_flags a)) @ CHR '' '' #
     (''3'' @ CHR '' '' # (show_nat (unat (rta_algorithm a)) @ CHR '' '' # base64_encode (rta_public_key a))))))"
  by (simp add: anchor_line_def)

lemma constant_fields: "field_text ''IN''" "field_text ''DNSKEY''" "field_text ''3''" "field_text ''.''"
  by code_simp+

lemma field_text_chars: "field_text s \<Longrightarrow> c \<in> set s \<Longrightarrow> c \<noteq> CHR ''#'' \<and> c \<noteq> CHR '';'' \<and> c \<noteq> CHR 0x0a \<and> c \<noteq> CHR 0x0d"
proof -
  have "\<not> field_char (CHR 0x0a)" "\<not> field_char (CHR 0x0d)" by code_simp+
  then show "c \<noteq> CHR ''#'' \<and> c \<noteq> CHR '';'' \<and> c \<noteq> CHR 0x0a \<and> c \<noteq> CHR 0x0d" if "field_text s" "c \<in> set s"
    using that by (auto simp: field_text_def list_all_iff field_char_def)
qed

lemma anchor_line_chars:
  assumes "field_text (rta_owner a)" "rta_public_key a \<noteq> []" "c \<in> set (anchor_line a)"
  shows "c \<noteq> CHR ''#'' \<and> c \<noteq> CHR '';'' \<and> c \<noteq> CHR 0x0a \<and> c \<noteq> CHR 0x0d"
  using assms(3) field_text_chars [OF assms(1)] field_text_chars [OF base64_field_text [OF assms(2)]]
    field_text_chars [of "show_nat n" for n] show_nat_text
  unfolding anchor_line_fields by fastforce

definition line_anchor :: "runtime_trust_anchor \<Rightarrow> positive_trust_anchor" where
  "line_anchor a = \<lparr>pta_owner = normalize_dns_name (rta_owner a),
     pta_data = AnchorDnskey (u16_to_be (rta_flags a) @ [3] @ [rta_algorithm a] @ rta_public_key a)\<rparr>"

lemma anchor_keywords:
  "eq_ignore_ascii_case ''IN'' ''IN''" "\<not> eq_ignore_ascii_case ''DNSKEY'' ''DS''" "eq_ignore_ascii_case ''DNSKEY'' ''DNSKEY''"
  "eq_ignore_ascii_case ''DS'' ''DS''" "parse_u8 ''3'' = Some 3"
  by code_simp+

lemma anchor_line_columns:
  assumes "field_text (rta_owner a)" "rta_public_key a \<noteq> []"
  shows "split_whitespace (trim (strip_anchor_comment (anchor_line a))) =
    [rta_owner a, ''IN'', ''DNSKEY'', show_nat (unat (rta_flags a)), ''3'', show_nat (unat (rta_algorithm a)),
     base64_encode (rta_public_key a)]"
proof -
  have b: "field_text (base64_encode (rta_public_key a))" using assms(2) by (rule base64_field_text)
  have n: "field_text (show_nat n)" for n using show_nat_text by blast
  have "\<exists>mid. anchor_line a = rta_owner a @ mid @ base64_encode (rta_public_key a)" by (auto simp: anchor_line_def)
  then have "trim (anchor_line a) = anchor_line a" using trim_fields [OF assms(1) b] by metis
  moreover have "strip_anchor_comment (anchor_line a) = anchor_line a"
    using anchor_line_chars [OF assms] by (intro strip_anchor_comment_id) blast+
  ultimately show ?thesis
    unfolding anchor_line_fields by (simp only: split_whitespace_fields [OF assms(1)] split_whitespace_fields [OF b]
      split_whitespace_fields [OF n] split_whitespace_fields [OF constant_fields(1)] split_whitespace_fields [OF constant_fields(2)]
      split_whitespace_fields [OF constant_fields(3)])
qed

lemma parse_anchor_line:
  assumes "field_text (rta_owner a)" "rta_flags a AND 0x0100 \<noteq> 0" "rta_flags a AND 0x0080 = 0" "rta_public_key a \<noteq> []"
  shows "parse_positive_trust_anchor_line (anchor_line a) = Some (line_anchor a)"
proof -
  have "parse_dnskey_anchor [rta_owner a, ''IN'', ''DNSKEY'', show_nat (unat (rta_flags a)), ''3'', show_nat (unat (rta_algorithm a)),
      base64_encode (rta_public_key a)] = Some (AnchorDnskey (u16_to_be (rta_flags a) @ [3] @ [rta_algorithm a] @ rta_public_key a))"
    using assms by (simp add: parse_dnskey_anchor_def trim_quotes_field [OF base64_field_text] anchor_keywords)
  then show ?thesis
    unfolding parse_positive_trust_anchor_line_def anchor_line_columns [OF assms(1,4)] Let_def line_anchor_def
    by (simp add: anchor_keywords anchor_field_count_ok_def)
qed

lemma lines_concat:
  assumes "\<And>l. l \<in> set ls \<Longrightarrow> CHR 0x0a \<notin> set l \<and> CHR 0x0d \<notin> set l"
  shows "lines (concat (map (\<lambda>l. l @ [CHR 0x0a]) ls)) = ls"
proof -
  have line: "split_lines acc (l @ CHR 0x0a # s) = (acc @ l, True) # split_lines [] s" if "CHR 0x0a \<notin> set l" for acc l s
    using that by (induction l arbitrary: acc) auto
  have "split_lines [] (concat (map (\<lambda>l. l @ [CHR 0x0a]) ls)) = map (\<lambda>l. (l, True)) ls"
    using assms by (induction ls) (auto simp: line)
  moreover have n: "\<not> (l \<noteq> [] \<and> last l = CHR 0x0d)" if "l \<in> set ls" for l using assms [OF that] last_in_set by metis
  have "map (\<lambda>l. if l \<noteq> [] \<and> last l = CHR 0x0d then butlast l else l) ls = ls" by (rule map_idI, rule if_not_P, rule n)
  ultimately show ?thesis by (simp add: lines_def comp_def)
qed

lemma decode_hex_zeros: "decode_hex (replicate (2 * n) (CHR ''0'')) = Some (replicate n 0)"
proof -
  have "to_digit 16 (CHR ''0'') = Some 0" by code_simp
  then have "decode_hex_pairs (replicate (2 * n) (CHR ''0'')) = Some (replicate n 0)" by (induction n) auto
  then show ?thesis by (simp add: decode_hex_def)
qed

lemma tombstone_fields: "field_text ''DS''" "field_text ''0''" "field_text ''253''" "field_text ''2''"
  by code_simp+

lemma parse_tombstone:
  "parse_positive_trust_anchor_line FAIL_CLOSED_ROOT_DS = Some \<lparr>pta_owner = ''.'', pta_data = AnchorDs 0 253 2 (replicate 32 0)\<rparr>"
proof -
  obtain z where z: "z = replicate (2 * 32) (CHR ''0'')" by blast
  then have d: "decode_hex z = Some (replicate 32 0)" using decode_hex_zeros by blast
  have eq: "FAIL_CLOSED_ROOT_DS = ''.'' @ '' IN DS 0 253 2 '' @ z"
    by (simp add: FAIL_CLOSED_ROOT_DS_def numeral_eq_Suc z)
  have f: "field_text z" unfolding z by code_simp
  have cols: "''.'' @ '' IN DS 0 253 2 '' @ z =
    ''.'' @ CHR '' '' # (''IN'' @ CHR '' '' # (''DS'' @ CHR '' '' # (''0'' @ CHR '' '' # (''253'' @ CHR '' '' # (''2'' @ CHR '' '' # z)))))"
    by simp
  have fs: "split_whitespace (''.'' @ '' IN DS 0 253 2 '' @ z) = [''.'', ''IN'', ''DS'', ''0'', ''253'', ''2'', z]"
    unfolding cols
    by (simp only: split_whitespace_fields [OF constant_fields(4)] split_whitespace_fields [OF constant_fields(1)]
      split_whitespace_fields(2) [OF f] split_whitespace_fields [OF tombstone_fields(1)] split_whitespace_fields [OF tombstone_fields(2)]
      split_whitespace_fields [OF tombstone_fields(3)] split_whitespace_fields [OF tombstone_fields(4)])
  have s: "strip_anchor_comment (''.'' @ '' IN DS 0 253 2 '' @ z) = ''.'' @ '' IN DS 0 253 2 '' @ z"
    using field_text_chars [OF f] by (intro strip_anchor_comment_id) auto
  have "show_nat 0 = ''0''" by code_simp
  then have n0: "parse_u16 ''0'' = Some 0" using parse_show(2) [of 0] by simp
  have n: "parse_dnssec_algorithm ''253'' = Some 253" "parse_dnssec_digest ''2'' = Some 2"
    "normalize_dns_name ''.'' = ''.''"
    by code_simp+
  show ?thesis
    unfolding parse_positive_trust_anchor_line_def eq s trim_fields [OF constant_fields(4) f] fs Let_def
    by (simp add: anchor_field_count_ok_def parse_ds_anchor_def trim_quotes_field [OF f] anchor_keywords d n n0)
qed

lemma set_map_filter: "set (List.map_filter f xs) = {y. \<exists>x \<in> set xs. f x = Some y}"
  by (force simp: List.map_filter_def)

lemma tombstone_chars: "CHR 0x0a \<notin> set FAIL_CLOSED_ROOT_DS \<and> CHR 0x0d \<notin> set FAIL_CLOSED_ROOT_DS"
  by code_simp

lemma normalize_root_iff: "normalize_dns_name owner = ''.'' \<longleftrightarrow> canonical_owner owner = ''.''"
  using trim_end_dots_last [of "trim owner"] last_lowercase_dot [of "trim_end_dots (trim owner)"]
  by (auto simp: normalize_dns_name_def canonical_owner_def Let_def)

lemma anchors_in_files_append: "anchors_in_files (xs @ ys) = anchors_in_files xs @ anchors_in_files ys"
  by (simp add: anchors_in_files_def List.map_filter_def)

text \<open>
  What a managed key needs in order to be published: an owner that is one field of a line, as every name
  read from a message is, the ZONE flag and key material.
\<close>

definition publishable :: "trust_anchor_entry \<Rightarrow> bool" where
  "publishable e \<longleftrightarrow> field_text (ta_owner e) \<and> ta_flags e AND ZONE_FLAG \<noteq> 0 \<and> ta_public_key e \<noteq> []"

lemma mask_flags: "(flags AND NOT REVOKE_FLAG) AND 0x0100 = flags AND ZONE_FLAG" "(flags AND NOT REVOKE_FLAG) AND 0x0080 = 0"
proof -
  have "NOT REVOKE_FLAG AND 0x0100 = 0x0100" "NOT REVOKE_FLAG AND (0x0080 :: u16) = 0" by (simp_all add: REVOKE_FLAG_def)
  then show "(flags AND NOT REVOKE_FLAG) AND 0x0100 = flags AND ZONE_FLAG" "(flags AND NOT REVOKE_FLAG) AND 0x0080 = 0"
    by (simp_all add: and.assoc ZONE_FLAG_def)
qed

lemma valid_runtime_anchors: "set (rts_valid (runtime_state m)) = runtime_anchor ` set (valid_anchors m)"
  by (simp add: runtime_state_def)

text \<open>
  C0: The validator reads back what was published. When every trusted key of the manager is publishable,
  the anchors that \<open>load_positive_trust_anchors\<close> takes from the published file, between those of the other
  files, are exactly the trusted keys, without the REVOKE flag, and a DS record that matches no key when
  none of them is a key of the root. Revoked keys are not among them, and the built-in anchors of the root
  are not added.
\<close>

theorem published_anchors_read_back:
  assumes "\<forall>e \<in> set (valid_anchors m). publishable e"
  shows "\<exists>published.
    load_positive_trust_anchors (before @ Some (published_file m) # after) =
      anchors_in_files before @ published @ anchors_in_files after \<and>
    set published = (\<lambda>e. line_anchor (runtime_anchor e)) ` set (valid_anchors m) \<union>
      (if \<exists>e \<in> set (valid_anchors m). canonical_owner (ta_owner e) = ''.'' then {}
       else {\<lparr>pta_owner = ''.'', pta_data = AnchorDs 0 253 2 (replicate 32 0)\<rparr>})"
proof -
  let ?tomb = "\<lparr>pta_owner = ''.'', pta_data = AnchorDs 0 253 2 (replicate 32 0)\<rparr>"
  let ?root = "\<exists>e \<in> set (valid_anchors m). canonical_owner (ta_owner e) = ''.''"
  let ?published = "List.map_filter parse_positive_trust_anchor_line (published_lines m)"
  have sl: "set (published_lines m) = (\<lambda>e. anchor_line (runtime_anchor e)) ` set (valid_anchors m) \<union> (if ?root then {} else {FAIL_CLOSED_ROOT_DS})"
    by (auto simp: published_lines_def Let_def valid_runtime_anchors list_ex_iff runtime_anchor_def)
  have parse: "parse_positive_trust_anchor_line (anchor_line (runtime_anchor e)) = Some (line_anchor (runtime_anchor e))"
    "CHR 0x0a \<notin> set (anchor_line (runtime_anchor e)) \<and> CHR 0x0d \<notin> set (anchor_line (runtime_anchor e))"
    if "e \<in> set (valid_anchors m)" for e
  proof -
    from assms that have p: "field_text (rta_owner (runtime_anchor e))" "rta_public_key (runtime_anchor e) \<noteq> []"
      "rta_flags (runtime_anchor e) AND 0x0100 \<noteq> 0" "rta_flags (runtime_anchor e) AND 0x0080 = 0"
      by (auto simp: publishable_def runtime_anchor_def mask_flags)
    then show "parse_positive_trust_anchor_line (anchor_line (runtime_anchor e)) = Some (line_anchor (runtime_anchor e))"
      "CHR 0x0a \<notin> set (anchor_line (runtime_anchor e)) \<and> CHR 0x0d \<notin> set (anchor_line (runtime_anchor e))"
      using anchor_line_chars by (blast intro: parse_anchor_line)+
  qed
  have "lines (published_file m) = published_lines m"
    unfolding published_file_def using parse(2) tombstone_chars by (intro lines_concat) (auto simp: sl split: if_splits)
  then have files: "anchors_in_files (before @ Some (published_file m) # after) = anchors_in_files before @ ?published @ anchors_in_files after"
    using anchors_in_files_append [of before "Some (published_file m) # after"] anchors_in_files_append [of "[Some (published_file m)]" after]
    by (simp add: anchors_in_files_def List.map_filter_def)
  have sp: "set ?published = (\<lambda>e. line_anchor (runtime_anchor e)) ` set (valid_anchors m) \<union> (if ?root then {} else {?tomb})"
    unfolding set_map_filter sl using parse(1) parse_tombstone by (auto split: if_splits)
  have "\<exists>a \<in> set ?published. pta_owner a = ''.''"
  proof (cases ?root)
    case True
    then obtain e where "e \<in> set (valid_anchors m)" "canonical_owner (ta_owner e) = ''.''" by blast
    then show ?thesis unfolding sp by (auto simp: line_anchor_def runtime_anchor_def normalize_root_iff)
  qed (simp add: sp)
  then have "list_ex (\<lambda>a. pta_owner a = ''.'') (anchors_in_files (before @ Some (published_file m) # after))"
    unfolding files by (auto simp: list_ex_iff)
  then have "load_positive_trust_anchors (before @ Some (published_file m) # after) = anchors_in_files before @ ?published @ anchors_in_files after"
    unfolding load_positive_trust_anchors_def Let_def files [symmetric] by simp
  then show ?thesis using sp by blast
qed

text \<open>The built-in digests decode, so that none of the built-in anchors is lost.\<close>

lemma builtin_root_digests:
  "decode_hex ''E06D44B80B8F1D39A95C0B0D7C65D08458E880409BBC683457104237C7F8EC8D'' \<noteq> None"
  "decode_hex ''683D2D0ACB8C9B712A1948B27F741219298D0A450D612C483AF444A4C0FB2B16'' \<noteq> None"
  by code_simp+

text \<open>The nearest ancestor with an anchor decides: a name is exempt when that anchor is a negative one.\<close>

lemma negative_anchor_nearest:
  "negative_trust_anchor_matches name negative positive \<longleftrightarrow>
     (\<exists>a. find (\<lambda>a. (\<exists>n \<in> set negative. dns_names_equal n a) \<or> (\<exists>p \<in> set positive. dns_names_equal (pta_owner p) a))
            (rev (dns_name_ancestors name)) = Some a \<and>
        (\<exists>n \<in> set negative. dns_names_equal n a))"
proof -
  have "negative_anchor_climb as negative positive \<longleftrightarrow>
     (\<exists>a. find (\<lambda>a. (\<exists>n \<in> set negative. dns_names_equal n a) \<or> (\<exists>p \<in> set positive. dns_names_equal (pta_owner p) a)) as = Some a \<and>
        (\<exists>n \<in> set negative. dns_names_equal n a))" for as
    by (induction as) (auto simp: list_ex_iff)
  then show ?thesis unfolding negative_trust_anchor_matches_def .
qed

section \<open>Examples\<close>

definition ex_root_entry :: trust_anchor_entry where
  "ex_root_entry = \<lparr>ta_state = AnchorValid, ta_owner = ''.'', ta_key_tag = 7, ta_flags = 257, ta_algorithm = 8, ta_public_key = [1, 2, 3],
     ta_first_seen = 0, ta_last_seen = 0, ta_last_state_change = 0, ta_add_hold_down_time = 0, ta_acceptance_validators = []\<rparr>"

definition ex_root_manager :: trust_anchor_manager where
  "ex_root_manager = \<lparr>tm_anchors = [(entry_anchor_id ex_root_entry, ex_root_entry)], tm_minimum_add_hold_down = 0, tm_remove_hold_down = 0\<rparr>"

theorem published_anchors_read_back_witness:
  "set (load_positive_trust_anchors [Some (published_file ex_root_manager)]) =
     {\<lparr>pta_owner = ''.'', pta_data = AnchorDnskey [1, 1, 3, 8, 1, 2, 3]\<rparr>}"
proof -
  have v: "valid_anchors ex_root_manager = [ex_root_entry]"
    by (simp add: valid_anchors_def ex_root_manager_def trusted_state_def ex_root_entry_def)
  have p: "publishable ex_root_entry"
    using constant_fields(4) by (simp add: publishable_def ex_root_entry_def ZONE_FLAG_def)
  have l: "line_anchor (runtime_anchor ex_root_entry) = \<lparr>pta_owner = ''.'', pta_data = AnchorDnskey [1, 1, 3, 8, 1, 2, 3]\<rparr>"
    by (simp add: line_anchor_def runtime_anchor_def ex_root_entry_def REVOKE_FLAG_def u16_to_be_def)
  have "canonical_owner ''.'' = ''.''" by code_simp
  then have o: "canonical_owner (ta_owner ex_root_entry) = ''.''" by (simp add: ex_root_entry_def)
  show ?thesis
    using published_anchors_read_back [of ex_root_manager "[]" "[]"] p by (auto simp: v l o anchors_in_files_def List.map_filter_def)
qed

end
