(* ===== verification/Spec2Isabelle.thy ===== *)
theory Spec2Isabelle
  imports Wire_Redirects Reverse_Name Routing Split_Dns Edns Dnssec_Denial Anchor_Files
begin

text \<open>
  \<^bold>\<open>A verification library for the resolver.\<close> The program is a DNS stub resolver: it reads and builds DNS
  messages, follows redirects, caches answers, routes names to links and servers, negotiates EDNS with
  each server, reads the records of DNSSEC and keeps the trust anchors of the root up to date. This
  development models those parts as executable functions on explicit state and proves what makes them
  correct. File names below are those under \<open>src/src\<close>.

  \<^bold>\<open>Conventions.\<close> \<open>Result<T, E>\<close> is the sum \<open>'e + 'a\<close> with \<open>Inl\<close> the error, and the \<open>?\<close> operator is
  \<open>and_then\<close>; every early return and error of the source is a branch. Integers of the wire are words of
  their width. An offset is a natural number, and the checked additions on it compare with \<open>USIZE_MAX\<close>;
  \<open>addressable\<close> says that a packet is short enough to exist in memory. Slices are read with \<open>get_at\<close> and
  \<open>get_range\<close>, which fail out of range. A string is the list of its UTF-8 octets as characters. A hash map
  is an association list without duplicate keys, and results hold for every order of it; a \<open>BTreeMap\<close> is
  one that is sorted. \<open>Instant\<close> and \<open>Duration\<close> count nanoseconds without an upper bound; the clock is an
  argument of the operations that read it. A method that changes \<open>self\<close> returns the new state.

  \<^bold>\<open>The theories.\<close>

  \<^item> \<open>Resolved_Prelude\<close>: results, slices, big-endian integers, minima and maxima, octets and ASCII case.
    \<open>Rust_Str\<close>: what the code uses of Rust's strings: trimming, splitting, numbers, lossy UTF-8.

  \<^item> \<open>Wire_Base\<close>, \<open>Wire_Name\<close>, \<open>Wire_Codec\<close>, \<open>Wire_Packet\<close> (\<open>wire.rs\<close>, \<open>wire/codec.rs\<close>, \<open>wire/packet.rs\<close>,
    \<open>wire/error_response.rs\<close>): headers, names, questions, records with the validation of their data, whole
    messages, and the replies built from a query. \<open>read_name\<close> refines the expansion of RFC 1035, an
    inductive relation; names survive encoding and reading, also through their presentation text; sections
    are accounted for octet by octet; replies match their query; ageing changes nothing but TTLs. The
    locale \<open>name_codec\<close> is the contract of names, \<open>packet_reader\<close> that of the loops over items; both are
    interpreted on the model.

  \<^item> \<open>Wire_Records\<close>, \<open>Wire_Redirects\<close>, \<open>Reverse_Name\<close> (\<open>wire/records.rs\<close>, \<open>wire/redirects.rs\<close>): extraction of
    addresses, services and names through chains of CNAME and DNAME records. The locale \<open>redirect_hops\<close>
    holds the argument that both loops end; the properties say which answers they give.

  \<^item> \<open>Cache_X\<close>, \<open>Response_Cache\<close> (\<open>cache_x.rs\<close>, \<open>cache.rs\<close>): the sharded cache with eviction, serving of stale
    answers and one fetch per key, and the cache of responses on top of it. \<open>cache_step\<close> is the step
    relation of the operations, with \<open>get_or_fetch\<close> cut at its suspension points; the locale
    \<open>evicting_store\<close> is what the response cache relies on.

  \<^item> \<open>Config_Types\<close>, \<open>Routing\<close>, \<open>Split_Dns\<close> (\<open>config_types.rs\<close>, \<open>routing.rs\<close>, \<open>split_dns.rs\<close>): the table of
    links, the choice of the scopes for a name, search domains, and split-horizon rules. The locale
    \<open>ordered_map\<close> is the contract of the sorted map; \<open>table_step\<close> is the step relation of the table.

  \<^item> \<open>Edns\<close> (\<open>edns.rs\<close>): the OPT record of queries and responses, and the feature level of a server. A
    prepared query differs from the query in its OPT record only; a downgrade lasts for its waiting time.

  \<^item> \<open>Dnssec_Records\<close> (\<open>wire/dnssec_records.rs\<close>, \<open>wire/dnssec.rs\<close>): DNSSEC record data, type bitmaps, key
    tags. A bitmap is accepted exactly when it is the canonical encoding of its types.

  \<^item> \<open>Trust_Anchors\<close> (\<open>dnssec_rfc5011.rs\<close>): the RFC 5011 state of the keys. \<open>anchor_step\<close> is the step relation;
    trust is earned by configuration or a complete hold-down, lost exactly by an authenticated revocation,
    and a revoked key stays revoked until it is dropped.

  \<^bold>\<open>Loops and bounds.\<close> Every loop is a total function; there is no fuel. \<open>read_name_loop\<close> ends because a
  pointer goes backwards and a label forwards, within the 128 pointers of the code; the loops over
  redirects end because every hop takes a redirect of a finite map that has not been visited; the loops
  over options, bitmaps and windows consume octets; all others are structural.

  \<^bold>\<open>Examples.\<close> Where a property has hypotheses, a closed instance follows it that meets them. Lemmas such as
  \<open>servfail_for_header_pointer\<close>, \<open>dname_at_its_owner\<close>, \<open>gc_len_overcounts\<close>, \<open>owner_to_wire_lower_overlong\<close>,
  \<open>scope_encode_negative\<close>, \<open>set_domains_failure_adds_link\<close>, \<open>opt_payload_255_refused\<close>,
  \<open>required_bad_opt_retried\<close>, \<open>revocation_masked_by_plain_form\<close> and \<open>acceptance_depends_on_iteration_order\<close>
  show inputs on which the code does something that its callers or the standards do not expect.

  \<^bold>\<open>Not modelled.\<close> The drivers that move messages: sockets, threads, locks, timers and the asynchronous
  runtime (\<open>daemon.rs\<close>, \<open>hyper_resolver.rs\<close>, the \<open>resolver_*.rs\<close> files, \<open>transport.rs\<close>, \<open>tls.rs\<close>, \<open>mdns*\<close>,
  \<open>llmnr\<close>, \<open>dnssd*\<close>, most of \<open>supremacy\<close>), because what they compute is the calls of the modelled parts and the
  rest is input and output through libraries outside the source tree; the D-Bus and Varlink interfaces and
  the command line tools, which marshal between those calls and other processes; code behind the C
  interface (\<open>native.rs\<close>, the server metrics at the end of \<open>routing.rs\<close>, the cryptographic primitives); and
  the floating-point weights of \<open>chaos_optimizer.rs\<close>.
\<close>

end
